(* ===== verification/H11r_Prelude.thy ===== *)
theory H11r_Prelude
  imports Main "HOL-Library.Word"
begin

text \<open>
  Shared vocabulary of the development: bytes and byte strings, the parts of Rust's
  standard library the sources call on slices, integers and text, and the generic lemmas
  about them that the component theories use.

  A \<open>u8\<close> is a \<^typ>\<open>char\<close> (Isabelle's 8-bit characters, so that byte-string literals read
  as in the source), a \<open>&[u8]\<close> or \<open>Vec<u8>\<close> is a list of them. A \<open>usize\<close> is a \<^typ>\<open>nat\<close>;
  lengths of slices are below \<open>2\<^sup>6\<^sup>3\<close> in Rust, so positions never wrap, and where a number
  comes from the peer (checked multiplication and addition, saturating multiplication) the
  64-bit bound is written out with \<open>usize_max\<close>. A \<open>u16\<close> is a \<open>16 word\<close>. A \<open>Result<T, E>\<close>
  is \<open>E + T\<close>, with \<open>Inl\<close> for \<open>Err\<close>.
\<close>

named_theorems byte_defs \<open>definitions of the byte classes, unfolded to evaluate them\<close>
named_theorems slice_simps \<open>rewriting of slices and positions\<close>
named_theorems inv_defs \<open>definitions of the component invariants\<close>

type_synonym byte = char
type_synonym bytes = "char list"
type_synonym range = "nat \<times> nat"

abbreviation byte_val :: "byte \<Rightarrow> nat" where
  "byte_val b \<equiv> of_char b"

abbreviation CR :: byte where "CR \<equiv> CHR 0x0D"
abbreviation LF :: byte where "LF \<equiv> CHR 0x0A"
abbreviation SP :: byte where "SP \<equiv> CHR 0x20"
abbreviation HTAB :: byte where "HTAB \<equiv> CHR 0x09"
abbreviation DQUOTE :: byte where "DQUOTE \<equiv> CHR 0x22"
abbreviation BACKSLASH :: byte where "BACKSLASH \<equiv> CHR 0x5C"
abbreviation CRLF :: bytes where "CRLF \<equiv> [CR, LF]"

section \<open>Bytes\<close>

text \<open>The inclusive byte ranges of Rust's \<open>matches!\<close> patterns.\<close>

definition byte_in :: "byte \<Rightarrow> byte \<Rightarrow> byte \<Rightarrow> bool" where
  [byte_defs]: "byte_in lo hi b \<longleftrightarrow> byte_val lo \<le> byte_val b \<and> byte_val b \<le> byte_val hi"

definition is_ascii_digit :: "byte \<Rightarrow> bool" where
  [byte_defs]: "is_ascii_digit b \<longleftrightarrow> byte_in CHR ''0'' CHR ''9'' b"

definition is_ascii_alphabetic :: "byte \<Rightarrow> bool" where
  [byte_defs]: "is_ascii_alphabetic b \<longleftrightarrow> byte_in CHR ''A'' CHR ''Z'' b \<or> byte_in CHR ''a'' CHR ''z'' b"

definition is_ascii_alphanumeric :: "byte \<Rightarrow> bool" where
  [byte_defs]: "is_ascii_alphanumeric b \<longleftrightarrow> is_ascii_alphabetic b \<or> is_ascii_digit b"

definition is_ascii_hexdigit :: "byte \<Rightarrow> bool" where
  [byte_defs]: "is_ascii_hexdigit b \<longleftrightarrow>
     is_ascii_digit b \<or> byte_in CHR ''A'' CHR ''F'' b \<or> byte_in CHR ''a'' CHR ''f'' b"

definition is_ascii_graphic :: "byte \<Rightarrow> bool" where
  [byte_defs]: "is_ascii_graphic b \<longleftrightarrow> byte_in CHR ''!'' CHR ''~'' b"

definition to_ascii_lowercase :: "byte \<Rightarrow> byte" where
  [byte_defs]: "to_ascii_lowercase b =
     (if byte_in CHR ''A'' CHR ''Z'' b then char_of (byte_val b + 32) else b)"

definition eq_ignore_ascii_case :: "bytes \<Rightarrow> bytes \<Rightarrow> bool" where
  "eq_ignore_ascii_case a b \<longleftrightarrow> map to_ascii_lowercase a = map to_ascii_lowercase b"

text \<open>\<open>char::to_digit\<close> for the two radices the sources use, 10 and 16.\<close>

definition to_digit :: "byte \<Rightarrow> nat \<Rightarrow> nat option" where
  "to_digit b radix =
     (let digit = (if is_ascii_digit b then Some (byte_val b - 48)
                   else if byte_in CHR ''a'' CHR ''z'' b then Some (byte_val b - 97 + 10)
                   else if byte_in CHR ''A'' CHR ''Z'' b then Some (byte_val b - 65 + 10)
                   else None)
      in case digit of None \<Rightarrow> None | Some d \<Rightarrow> if d < radix then Some d else None)"

lemma byte_val_less [simp]: "byte_val b < 256"
  by simp

lemma byte_val_char_of [simp]: "n < 256 \<Longrightarrow> byte_val (char_of n) = n"
  by (simp add: of_char_of)

lemma eq_ignore_ascii_case_refl [simp]: "eq_ignore_ascii_case a a"
  by (simp add: eq_ignore_ascii_case_def)

lemma eq_ignore_ascii_case_sym: "eq_ignore_ascii_case a b \<longleftrightarrow> eq_ignore_ascii_case b a"
  by (auto simp: eq_ignore_ascii_case_def)

lemma eq_ignore_ascii_case_trans:
  "eq_ignore_ascii_case a b \<Longrightarrow> eq_ignore_ascii_case b c \<Longrightarrow> eq_ignore_ascii_case a c"
  by (simp add: eq_ignore_ascii_case_def)

lemma eq_ignore_ascii_case_length: "eq_ignore_ascii_case a b \<Longrightarrow> length a = length b"
  unfolding eq_ignore_ascii_case_def using map_eq_imp_length_eq by blast

lemma to_digit_bound: "to_digit b radix = Some d \<Longrightarrow> d < radix"
  by (auto simp: to_digit_def Let_def split: option.splits if_splits)

section \<open>Slices\<close>

text \<open>\<open>xs.get(i)\<close>, and \<open>&xs[a..b]\<close> for \<open>a \<le> b \<le> xs.len()\<close>.\<close>

definition slice_get :: "'a list \<Rightarrow> nat \<Rightarrow> 'a option" where
  "slice_get xs i = (if i < length xs then Some (xs ! i) else None)"

definition slice :: "'a list \<Rightarrow> nat \<Rightarrow> nat \<Rightarrow> 'a list" where
  "slice xs a b = take (b - a) (drop a xs)"

definition slice_ok :: "'a list \<Rightarrow> nat \<Rightarrow> nat \<Rightarrow> bool" where
  "slice_ok xs a b \<longleftrightarrow> a \<le> b \<and> b \<le> length xs"

fun position :: "('a \<Rightarrow> bool) \<Rightarrow> 'a list \<Rightarrow> nat option" where
  "position P [] = None"
| "position P (x # xs) = (if P x then Some 0 else map_option Suc (position P xs))"

text \<open>\<open>slice::split\<close>, \<open>slice::split_inclusive\<close> and \<open>slice::splitn(2, _)\<close>.\<close>

fun split_slice :: "('a \<Rightarrow> bool) \<Rightarrow> 'a list \<Rightarrow> 'a list list" where
  "split_slice P [] = [[]]"
| "split_slice P (x # xs) =
     (if P x then [] # split_slice P xs
      else case split_slice P xs of
             [] \<Rightarrow> [[x]]
           | y # ys \<Rightarrow> (x # y) # ys)"

fun split_inclusive :: "('a \<Rightarrow> bool) \<Rightarrow> 'a list \<Rightarrow> 'a list list" where
  "split_inclusive P [] = []"
| "split_inclusive P (x # xs) =
     (if P x then [x] # split_inclusive P xs
      else case split_inclusive P xs of
             [] \<Rightarrow> [[x]]
           | y # ys \<Rightarrow> (x # y) # ys)"

definition splitn2 :: "('a \<Rightarrow> bool) \<Rightarrow> 'a list \<Rightarrow> 'a list \<times> 'a list option" where
  "splitn2 P xs =
     (case position P xs of
        None \<Rightarrow> (xs, None)
      | Some i \<Rightarrow> (take i xs, Some (drop (Suc i) xs)))"

fun starts_with :: "'a list \<Rightarrow> 'a list \<Rightarrow> bool" where
  "starts_with xs [] = True"
| "starts_with [] (p # ps) = False"
| "starts_with (x # xs) (p # ps) = (x = p \<and> starts_with xs ps)"

definition ends_with :: "'a list \<Rightarrow> 'a list \<Rightarrow> bool" where
  "ends_with xs s \<longleftrightarrow> starts_with (rev xs) (rev s)"

definition strip_prefix :: "'a list \<Rightarrow> 'a list \<Rightarrow> 'a list option" where
  "strip_prefix p xs = (if starts_with xs p then Some (drop (length p) xs) else None)"

definition strip_suffix :: "'a list \<Rightarrow> 'a list \<Rightarrow> 'a list option" where
  "strip_suffix s xs = (if ends_with xs s then Some (take (length xs - length s) xs) else None)"

definition first :: "'a list \<Rightarrow> 'a option" where
  "first xs = (case xs of [] \<Rightarrow> None | x # _ \<Rightarrow> Some x)"

definition last_opt :: "'a list \<Rightarrow> 'a option" where
  "last_opt xs = (if xs = [] then None else Some (last xs))"

text \<open>\<open>[..].join(sep)\<close>.\<close>

fun join :: "'a list \<Rightarrow> 'a list list \<Rightarrow> 'a list" where
  "join sep [] = []"
| "join sep [x] = x"
| "join sep (x # xs) = x @ sep @ join sep xs"

text \<open>\<open>Iterator::any\<close> over an \<open>Option\<close>: \<open>is_some_and\<close> and \<open>is_none_or\<close>.\<close>

definition is_some_and :: "('a \<Rightarrow> bool) \<Rightarrow> 'a option \<Rightarrow> bool" where
  [simp]: "is_some_and P x = (case x of None \<Rightarrow> False | Some y \<Rightarrow> P y)"

definition is_none_or :: "('a \<Rightarrow> bool) \<Rightarrow> 'a option \<Rightarrow> bool" where
  [simp]: "is_none_or P x = (case x of None \<Rightarrow> True | Some y \<Rightarrow> P y)"

lemma slice_get_Some [simp]: "slice_get xs i = Some x \<longleftrightarrow> i < length xs \<and> xs ! i = x"
  by (simp add: slice_get_def)

lemma slice_get_None [simp]: "slice_get xs i = None \<longleftrightarrow> length xs \<le> i"
  by (simp add: slice_get_def)

lemma length_slice [slice_simps]: "slice_ok xs a b \<Longrightarrow> length (slice xs a b) = b - a"
  by (auto simp: slice_def slice_ok_def min_def)

lemma slice_append_left [slice_simps]: "b \<le> length xs \<Longrightarrow> slice (xs @ ys) a b = slice xs a b"
  by (simp add: slice_def)

lemma slice_append_right [slice_simps]:
  "slice (xs @ ys) (length xs) (length xs + n) = take n ys"
  by (simp add: slice_def)

lemma slice_ok_append [slice_simps]: "slice_ok xs a b \<Longrightarrow> slice_ok (xs @ ys) a b"
  by (simp add: slice_ok_def)

lemma position_Some:
  "position P xs = Some i \<longleftrightarrow> i < length xs \<and> P (xs ! i) \<and> (\<forall>j < i. \<not> P (xs ! j))"
proof (induction xs arbitrary: i)
  case Nil
  then show ?case by simp
next
  case (Cons x xs)
  show ?case
  proof (cases i)
    case 0
    then show ?thesis by auto
  next
    case (Suc k)
    with Cons.IH [of k] show ?thesis
      by (auto simp: All_less_Suc2)
  qed
qed

lemma position_None: "position P xs = None \<longleftrightarrow> (\<forall>x \<in> set xs. \<not> P x)"
  by (induction xs) auto

lemma position_Some_bound: "position P xs = Some i \<Longrightarrow> i < length xs"
  by (simp add: position_Some)

lemma position_append_None: "position P xs = None \<Longrightarrow>
   position P (xs @ ys) = map_option (\<lambda>i. length xs + i) (position P ys)"
  by (induction xs; cases "position P ys") (auto split: if_splits)

lemma position_append_Some: "position P xs = Some i \<Longrightarrow> position P (xs @ ys) = Some i"
  by (induction xs arbitrary: i) (auto split: if_splits)

lemma split_slice_nonempty [simp]: "split_slice P xs \<noteq> []"
  by (induction xs) (auto split: list.splits)

lemma starts_with_iff: "starts_with xs p \<longleftrightarrow> (\<exists>rest. xs = p @ rest)"
  by (induction xs p rule: starts_with.induct) auto

lemma ends_with_iff: "ends_with xs s \<longleftrightarrow> (\<exists>front. xs = front @ s)"
proof -
  have "(\<exists>rest. rev xs = rev s @ rest) \<longleftrightarrow> (\<exists>front. xs = front @ s)"
    by (metis rev_append rev_rev_ident)
  then show ?thesis by (simp add: ends_with_def starts_with_iff)
qed

section \<open>Machine integers and text\<close>

text \<open>\<open>usize\<close> on the 64-bit targets: the operations that can leave its range.\<close>

definition usize_max :: nat where
  "usize_max = 2 ^ 64 - 1"

definition isize_max :: nat where
  "isize_max = 2 ^ 63 - 1"

definition checked_mul :: "nat \<Rightarrow> nat \<Rightarrow> nat option" where
  "checked_mul a b = (if a * b \<le> usize_max then Some (a * b) else None)"

definition checked_add :: "nat \<Rightarrow> nat \<Rightarrow> nat option" where
  "checked_add a b = (if a + b \<le> usize_max then Some (a + b) else None)"

definition saturating_mul :: "nat \<Rightarrow> nat \<Rightarrow> nat" where
  "saturating_mul a b = min (a * b) usize_max"

definition wrapping_add :: "nat \<Rightarrow> nat \<Rightarrow> nat" where
  "wrapping_add a b = (a + b) mod (usize_max + 1)"

text \<open>\<open>usize::to_string\<close>: the decimal digits, most significant first.\<close>

fun to_string :: "nat \<Rightarrow> bytes" where
  "to_string n = (if n < 10 then [char_of (48 + n)] else to_string (n div 10) @ [char_of (48 + n mod 10)])"

declare to_string.simps [simp del]

text \<open>
  \<open>std::str::from_utf8\<close>: the well-formed sequences of the Unicode standard (no overlong
  form, no surrogate, nothing beyond U+10FFFF).
\<close>

definition utf8_cont :: "byte \<Rightarrow> bool" where
  "utf8_cont b \<longleftrightarrow> byte_in CHR 0x80 CHR 0xBF b"

fun utf8_valid :: "bytes \<Rightarrow> bool" where
  "utf8_valid [] = True"
| "utf8_valid (a # xs) =
     (if byte_val a < 0x80 then utf8_valid xs
      else if byte_in CHR 0xC2 CHR 0xDF a then
        (case xs of b # ys \<Rightarrow> utf8_cont b \<and> utf8_valid ys | _ \<Rightarrow> False)
      else if byte_in CHR 0xE0 CHR 0xEF a then
        (case xs of
           b # c # ys \<Rightarrow>
             (if a = CHR 0xE0 then byte_in CHR 0xA0 CHR 0xBF b
              else if a = CHR 0xED then byte_in CHR 0x80 CHR 0x9F b
              else utf8_cont b)
             \<and> utf8_cont c \<and> utf8_valid ys
         | _ \<Rightarrow> False)
      else if byte_in CHR 0xF0 CHR 0xF4 a then
        (case xs of
           b # c # d # ys \<Rightarrow>
             (if a = CHR 0xF0 then byte_in CHR 0x90 CHR 0xBF b
              else if a = CHR 0xF4 then byte_in CHR 0x80 CHR 0x8F b
              else utf8_cont b)
             \<and> utf8_cont c \<and> utf8_cont d \<and> utf8_valid ys
         | _ \<Rightarrow> False)
      else False)"

definition from_utf8 :: "bytes \<Rightarrow> bytes option" where
  "from_utf8 xs = (if utf8_valid xs then Some xs else None)"

lemma to_string_nonempty [simp]: "to_string n \<noteq> []"
  by (subst to_string.simps) simp

lemma to_string_digits: "list_all is_ascii_digit (to_string n)"
proof (induction n rule: to_string.induct)
  case (1 n)
  show ?case
  proof (cases "n < 10")
    case True
    then show ?thesis by (subst to_string.simps) (simp add: byte_defs)
  next
    case False
    have "48 + n mod 10 < (256::nat)" by (simp add: less_Suc_eq_le order.trans [OF add_left_mono])
    then have "is_ascii_digit (char_of (48 + n mod 10))" by (simp add: byte_defs)
    with False 1 show ?thesis by (subst to_string.simps) simp
  qed
qed

section \<open>Labelled steps, runs and invariants\<close>

text \<open>
  A component's operations form a labelled step relation; \<open>run\<close> is a finite sequence of
  steps. The two locales are the interfaces the components use it through: a property that
  every step keeps holds after every run, and a step relation given by a function lets runs
  be computed.
\<close>

inductive run :: "('s \<Rightarrow> 'l \<Rightarrow> 's \<Rightarrow> bool) \<Rightarrow> 's \<Rightarrow> 'l list \<Rightarrow> 's \<Rightarrow> bool" for step s where
  run_nil: "run step s [] s"
| run_snoc: "run step s ls t \<Longrightarrow> step t l u \<Longrightarrow> run step s (ls @ [l]) u"

inductive_cases run_nilE [elim!]: "run step s [] t"

lemma run_Cons: "run step t ls u \<Longrightarrow> step s l t \<Longrightarrow> run step s (l # ls) u"
proof (induction rule: run.induct)
  case run_nil
  then show ?case using run.run_snoc [OF run.run_nil, of step s l] by simp
next
  case (run_snoc ls u l' w)
  then show ?case using run.run_snoc [of step s "l # ls" u l' w] by simp
qed

lemma run_append: "run step s ls t \<Longrightarrow> run step t ms u \<Longrightarrow> run step s (ls @ ms) u"
proof (induction arbitrary: ms u rule: run.induct)
  case run_nil
  then show ?case by simp
next
  case (run_snoc ls t l v)
  from run_Cons [OF run_snoc.prems run_snoc.hyps(2)] run_snoc.IH show ?case by fastforce
qed

locale step_invariant =
  fixes step :: "'s \<Rightarrow> 'l \<Rightarrow> 's \<Rightarrow> bool"
    and inv :: "'s \<Rightarrow> bool"
  assumes step_inv: "step s l t \<Longrightarrow> inv s \<Longrightarrow> inv t"
begin

lemma run_inv: "run step s ls t \<Longrightarrow> inv s \<Longrightarrow> inv t"
  by (induction rule: run.induct) (auto intro: step_inv)

lemma run_labels:
  assumes "run step s ls t" and "inv s" and "\<And>u l v. step u l v \<Longrightarrow> inv u \<Longrightarrow> P l"
  shows "\<forall>l \<in> set ls. P l"
  using assms(1,2)
proof (induction rule: run.induct)
  case run_nil
  then show ?case by simp
next
  case (run_snoc ls t l u)
  then show ?case using run_inv [OF run_snoc.hyps(1)] assms(3) by auto
qed

end

fun exec_run :: "('s \<Rightarrow> 'l \<Rightarrow> 's option) \<Rightarrow> 's \<Rightarrow> 'l list \<Rightarrow> 's option" where
  "exec_run app s [] = Some s"
| "exec_run app s (l # ls) = (case app s l of None \<Rightarrow> None | Some t \<Rightarrow> exec_run app t ls)"

locale executable_step =
  fixes step :: "'s \<Rightarrow> 'l \<Rightarrow> 's \<Rightarrow> bool"
    and app :: "'s \<Rightarrow> 'l \<Rightarrow> 's option"
  assumes step_iff: "step s l t \<longleftrightarrow> app s l = Some t"
begin

lemma exec_run_snoc: "exec_run app s ls = Some t \<Longrightarrow> exec_run app s (ls @ [l]) = app t l"
  by (induction ls arbitrary: s) (auto split: option.splits)

lemma exec_run_iff: "run step s ls t \<longleftrightarrow> exec_run app s ls = Some t"
proof
  assume "run step s ls t"
  then show "exec_run app s ls = Some t"
    by (induction rule: run.induct) (auto simp: step_iff exec_run_snoc)
next
  assume "exec_run app s ls = Some t"
  then show "run step s ls t"
    by (induction ls arbitrary: s)
       (auto simp: step_iff intro: run.run_nil intro!: run_Cons split: option.splits)
qed

end

end
