(* ===== verification/H11r_State.thy ===== *)
theory H11r_State
  imports H11r_Prelude
begin

text \<open>
  The request/response lifecycle of \<open>crates/h11r/src/state.rs\<close>: the client and server
  states of one connection, the events that advance them, the joint rules that run to a
  fixed point after every change, and connection reuse.

  \<open>process_event\<close> works on a copy and assigns it back only when the event is accepted, so
  its model returns the new state or \<open>InvalidTransition\<close>.
\<close>

section \<open>Roles, states and events\<close>

datatype Role = Client | Server

fun peer :: "Role \<Rightarrow> Role" where
  "peer Client = Server"
| "peer Server = Client"

datatype State =
    Idle
  | SendResponse
  | SendBody
  | Done
  | MightSwitchProtocol
  | SwitchedProtocol
  | MustClose
  | Closed
  | Error

datatype SwitchKind = Connect | Upgrade

record SwitchProposals =
  prop_connect :: bool
  prop_upgrade :: bool

definition proposals_none :: SwitchProposals where
  "proposals_none = \<lparr>prop_connect = False, prop_upgrade = False\<rparr>"

fun proposals_contains :: "SwitchProposals \<Rightarrow> SwitchKind \<Rightarrow> bool" where
  "proposals_contains p Connect = prop_connect p"
| "proposals_contains p Upgrade = prop_upgrade p"

definition from_flags :: "bool \<Rightarrow> bool \<Rightarrow> SwitchProposals" where
  "from_flags c u = \<lparr>prop_connect = c, prop_upgrade = u\<rparr>"

definition proposals_is_empty :: "SwitchProposals \<Rightarrow> bool" where
  "proposals_is_empty p \<longleftrightarrow> \<not> prop_connect p \<and> \<not> prop_upgrade p"

datatype StateEvent =
    Request SwitchProposals
  | InformationalResponse
  | Response
  | Data
  | EndOfMessage
  | ProtocolSwitch SwitchKind
  | ConnectionClosed

datatype InvalidTransition = InvalidTransition

record ConnectionState =
  client :: State
  server :: State
  cs_keep_alive :: bool
  proposals :: SwitchProposals

definition connection_state_new :: ConnectionState where
  "connection_state_new =
     \<lparr>client = Idle, server = Idle, cs_keep_alive = True, proposals = proposals_none\<rparr>"

fun role_state :: "ConnectionState \<Rightarrow> Role \<Rightarrow> State" where
  "role_state s Client = client s"
| "role_state s Server = server s"

definition set_role_state :: "ConnectionState \<Rightarrow> Role \<Rightarrow> State \<Rightarrow> ConnectionState" where
  "set_role_state s r st = (case r of Client \<Rightarrow> s\<lparr>client := st\<rparr> | Server \<Rightarrow> s\<lparr>server := st\<rparr>)"

section \<open>Transitions\<close>

text \<open>Every pair the source does not list goes to its single rejection point.\<close>

definition reject :: "StateEvent \<Rightarrow> State option" where
  "reject e =
     (case e of
        Request _ \<Rightarrow> None | InformationalResponse \<Rightarrow> None | Response \<Rightarrow> None | Data \<Rightarrow> None
      | EndOfMessage \<Rightarrow> None | ProtocolSwitch _ \<Rightarrow> None | ConnectionClosed \<Rightarrow> None)"

definition direct_transition :: "Role \<Rightarrow> State \<Rightarrow> StateEvent \<Rightarrow> State option" where
  "direct_transition r st e =
     (case r of
        Client \<Rightarrow>
          (case st of
             Idle \<Rightarrow> (case e of Request _ \<Rightarrow> Some SendBody | ConnectionClosed \<Rightarrow> Some Closed | _ \<Rightarrow> reject e)
           | SendBody \<Rightarrow> (case e of Data \<Rightarrow> Some SendBody | EndOfMessage \<Rightarrow> Some Done | _ \<Rightarrow> reject e)
           | Done \<Rightarrow> (case e of ConnectionClosed \<Rightarrow> Some Closed | _ \<Rightarrow> reject e)
           | MustClose \<Rightarrow> (case e of ConnectionClosed \<Rightarrow> Some Closed | _ \<Rightarrow> reject e)
           | Closed \<Rightarrow> (case e of ConnectionClosed \<Rightarrow> Some Closed | _ \<Rightarrow> reject e)
           | SendResponse \<Rightarrow> reject e
           | MightSwitchProtocol \<Rightarrow> reject e
           | SwitchedProtocol \<Rightarrow> reject e
           | Error \<Rightarrow> reject e)
      | Server \<Rightarrow>
          (case st of
             Idle \<Rightarrow> (case e of Response \<Rightarrow> Some SendBody | ConnectionClosed \<Rightarrow> Some Closed | _ \<Rightarrow> reject e)
           | SendResponse \<Rightarrow>
               (case e of
                  InformationalResponse \<Rightarrow> Some SendResponse
                | Response \<Rightarrow> Some SendBody
                | ProtocolSwitch _ \<Rightarrow> Some SwitchedProtocol
                | _ \<Rightarrow> reject e)
           | SendBody \<Rightarrow> (case e of Data \<Rightarrow> Some SendBody | EndOfMessage \<Rightarrow> Some Done | _ \<Rightarrow> reject e)
           | Done \<Rightarrow> (case e of ConnectionClosed \<Rightarrow> Some Closed | _ \<Rightarrow> reject e)
           | MustClose \<Rightarrow> (case e of ConnectionClosed \<Rightarrow> Some Closed | _ \<Rightarrow> reject e)
           | Closed \<Rightarrow> (case e of ConnectionClosed \<Rightarrow> Some Closed | _ \<Rightarrow> reject e)
           | MightSwitchProtocol \<Rightarrow> reject e
           | SwitchedProtocol \<Rightarrow> reject e
           | Error \<Rightarrow> reject e))"

text \<open>One pass of the loop body of \<open>stabilize\<close>, statement by statement.\<close>

definition stabilize_pass :: "ConnectionState \<Rightarrow> ConnectionState" where
  "stabilize_pass s0 =
     (let s1 = (if client s0 = Done \<and> \<not> proposals_is_empty (proposals s0)
                then s0\<lparr>client := MightSwitchProtocol\<rparr> else s0);
          s2 = (if client s1 = MightSwitchProtocol \<and> server s1 = SwitchedProtocol
                then s1\<lparr>client := SwitchedProtocol\<rparr>
                else if client s1 = MightSwitchProtocol \<and> proposals_is_empty (proposals s1)
                then s1\<lparr>client := Done\<rparr> else s1);
          s3 = (if client s2 = SwitchedProtocol \<and> server s2 = SwitchedProtocol
                then s2\<lparr>proposals := proposals_none\<rparr> else s2);
          s4 = (if \<not> cs_keep_alive s3
                then (let t = (if client s3 = Done then s3\<lparr>client := MustClose\<rparr> else s3)
                      in if server t = Done then t\<lparr>server := MustClose\<rparr> else t)
                else s3)
      in if client s4 = Closed \<and> (server s4 = Done \<or> server s4 = Idle)
            \<or> client s4 = Error \<and> server s4 = Done
         then s4\<lparr>server := MustClose\<rparr>
         else if (client s4 = Done \<or> client s4 = Idle) \<and> server s4 = Closed
            \<or> client s4 = Done \<and> server s4 = Error
         then s4\<lparr>client := MustClose\<rparr>
         else s4)"

text \<open>
  The loop repeats the pass until nothing changes. Every pass that changes something
  lowers \<open>stabilize_rank\<close>, so the loop ends.
\<close>

definition stabilize_rank :: "ConnectionState \<Rightarrow> nat" where
  "stabilize_rank s =
     (if proposals_is_empty (proposals s) then 0 else 10)
     + (case client s of
          Done \<Rightarrow> (if proposals_is_empty (proposals s) then 2 else 4)
        | MightSwitchProtocol \<Rightarrow> 3 | Idle \<Rightarrow> 1 | _ \<Rightarrow> 0)
     + (case server s of Done \<Rightarrow> 1 | Idle \<Rightarrow> 1 | _ \<Rightarrow> 0)"

lemma proposals_none_empty [simp]: "proposals_is_empty proposals_none"
  by (simp add: proposals_is_empty_def proposals_none_def)

lemma proposals_is_empty_iff: "proposals_is_empty p \<longleftrightarrow> p = proposals_none"
  by (cases p) (auto simp: proposals_is_empty_def proposals_none_def)

lemma proposals_contains_none [simp]: "\<not> proposals_contains proposals_none k"
  by (cases k) (simp_all add: proposals_none_def)

lemma proposals_contains_nonempty: "proposals_contains p k \<Longrightarrow> \<not> proposals_is_empty p"
  by (cases k) (auto simp: proposals_is_empty_def)

lemma stabilize_pass_rank:
  "stabilize_pass s \<noteq> s \<Longrightarrow> stabilize_rank (stabilize_pass s) < stabilize_rank s"
proof (cases s)
  case (fields c v k p)
  then show "stabilize_pass s \<noteq> s \<Longrightarrow> ?thesis"
    by (cases c; cases v; cases k; cases "p = proposals_none")
       (simp_all add: stabilize_pass_def stabilize_rank_def proposals_is_empty_iff)
qed

function stabilize :: "ConnectionState \<Rightarrow> ConnectionState" where
  "stabilize s = (let s' = stabilize_pass s in if s' = s then s else stabilize s')"
  by pat_completeness auto
termination
  by (relation "measure stabilize_rank") (auto simp: stabilize_pass_rank)

declare stabilize.simps [simp del]

text \<open>
  \<open>process_event\<close> after its fast path, and with it: body data is a self-loop in
  \<open>SendBody\<close>, so the source returns early there.
\<close>

definition process_event_slow ::
  "ConnectionState \<Rightarrow> Role \<Rightarrow> StateEvent \<Rightarrow> InvalidTransition + ConnectionState" where
  "process_event_slow s r e =
     (let current = role_state s r in
      case direct_transition r current e of
        None \<Rightarrow> Inl InvalidTransition
      | Some transitioned \<Rightarrow>
          (case (case (r, e) of
              (Client, Request p) \<Rightarrow>
                (if server s \<noteq> Idle then None
                 else Some (s\<lparr>proposals := p, server := SendResponse\<rparr>))
            | (Server, ProtocolSwitch k) \<Rightarrow>
                (if \<not> proposals_contains (proposals s) k then None else Some s)
            | (Server, Response) \<Rightarrow>
                (let s1 = (if proposals_contains (proposals s) Connect
                           then s\<lparr>cs_keep_alive := False\<rparr> else s);
                     s2 = s1\<lparr>proposals := proposals_none\<rparr>
                 in Some (if current = Idle then s2\<lparr>cs_keep_alive := False\<rparr> else s2))
            | _ \<Rightarrow> Some s) of
             None \<Rightarrow> Inl InvalidTransition
           | Some next \<Rightarrow> Inr (stabilize (set_role_state next r transitioned))))"

definition process_event ::
  "ConnectionState \<Rightarrow> Role \<Rightarrow> StateEvent \<Rightarrow> InvalidTransition + ConnectionState" where
  "process_event s r e =
     (if e = Data \<and> role_state s r = SendBody then Inr s else process_event_slow s r e)"

definition disable_keep_alive :: "ConnectionState \<Rightarrow> ConnectionState" where
  "disable_keep_alive s = stabilize (s\<lparr>cs_keep_alive := False\<rparr>)"

definition process_error :: "ConnectionState \<Rightarrow> Role \<Rightarrow> ConnectionState" where
  "process_error s r = stabilize (set_role_state (s\<lparr>cs_keep_alive := False\<rparr>) r Error)"

definition state_start_next_cycle :: "ConnectionState \<Rightarrow> InvalidTransition + ConnectionState" where
  "state_start_next_cycle s =
     (if client s \<noteq> Done \<or> server s \<noteq> Done \<or> \<not> cs_keep_alive s
         \<or> \<not> proposals_is_empty (proposals s)
      then Inl InvalidTransition else Inr connection_state_new)"

section \<open>The fixed point in closed form\<close>

text \<open>
  \<open>settle\<close> says in one step where the loop ends: the switch decision first, and then
  closure, which an actor meets only after its message and which never overrides a switch.
\<close>

definition settle :: "ConnectionState \<Rightarrow> ConnectionState" where
  "settle s =
     (let switching = (client s = Done \<and> \<not> proposals_is_empty (proposals s)
                       \<or> client s = MightSwitchProtocol);
          c = (if switching \<and> server s = SwitchedProtocol then SwitchedProtocol
               else if switching \<and> \<not> proposals_is_empty (proposals s) then MightSwitchProtocol
               else if switching then Done else client s);
          v = server s;
          close = (\<lambda>mine other. 
               if mine = Done \<and> (\<not> cs_keep_alive s \<or> other = Closed \<or> other = Error)
                  \<or> mine = Idle \<and> other = Closed then MustClose else mine)
      in s\<lparr>client := close c v, server := close v c,
           proposals := (if c = SwitchedProtocol \<and> v = SwitchedProtocol
                         then proposals_none else proposals s)\<rparr>)"

lemma settle_pass: "settle (stabilize_pass s) = settle s"
proof (cases s)
  case (fields c v k p)
  then show ?thesis
    by (cases c; cases v; cases k; cases "p = proposals_none")
       (simp_all add: stabilize_pass_def settle_def proposals_is_empty_iff)
qed

lemma settle_fixed: "stabilize_pass s = s \<Longrightarrow> settle s = s"
proof (cases s)
  case (fields c v k p)
  then show "stabilize_pass s = s \<Longrightarrow> ?thesis"
    by (cases c; cases v; cases k; cases "p = proposals_none")
       (simp_all add: stabilize_pass_def settle_def proposals_is_empty_iff)
qed

lemma stabilize_fixed: "stabilize_pass (stabilize s) = stabilize s"
proof (induction s rule: stabilize.induct)
  case (1 s)
  then show ?case by (subst (1 2) stabilize.simps) (simp add: Let_def)
qed

lemma stabilize_settle: "stabilize s = settle s"
proof (induction s rule: stabilize.induct)
  case (1 s)
  then show ?case
    by (subst stabilize.simps) (auto simp: Let_def settle_pass settle_fixed)
qed

definition stable :: "ConnectionState \<Rightarrow> bool" where
  [inv_defs]: "stable s \<longleftrightarrow> stabilize_pass s = s"

lemma stable_iff_settle: "stable s \<longleftrightarrow> settle s = s"
  by (metis settle_fixed stabilize_fixed stabilize_settle stable_def)

lemma stable_settle [simp, intro]: "stable (settle s)"
  by (metis stabilize_fixed stabilize_settle stable_def)

lemma settle_settle [simp]: "settle (settle s) = settle s"
  using stable_iff_settle by blast

lemmas state_op_defs = process_event_def process_event_slow_def disable_keep_alive_def process_error_def
  state_start_next_cycle_def stabilize_settle

section \<open>What each event does\<close>

text \<open>
  One equation per event: the states in which it is accepted and the state it leads to.
\<close>

definition accept_if :: "bool \<Rightarrow> ConnectionState \<Rightarrow> InvalidTransition + ConnectionState" where
  "accept_if b s = (if b then Inr s else Inl InvalidTransition)"

lemma accept_if_Inr [simp]: "accept_if b s = Inr t \<longleftrightarrow> b \<and> t = s"
  by (auto simp: accept_if_def)

lemma process_event_request:
  "process_event s r (Request p) =
     accept_if (r = Client \<and> client s = Idle \<and> server s = Idle)
       (settle (s\<lparr>proposals := p, server := SendResponse, client := SendBody\<rparr>))"
  by (cases r; cases "client s"; cases "server s")
     (simp_all add: state_op_defs direct_transition_def reject_def set_role_state_def accept_if_def)

lemma process_event_data:
  "process_event s r Data = accept_if (role_state s r = SendBody) s"
  by (cases r; cases "role_state s r")
     (simp_all add: state_op_defs direct_transition_def reject_def accept_if_def)

lemma process_event_end_of_message:
  "process_event s r EndOfMessage =
     accept_if (role_state s r = SendBody) (settle (set_role_state s r Done))"
  by (cases r; cases "role_state s r")
     (simp_all add: state_op_defs direct_transition_def reject_def accept_if_def)

lemma process_event_informational:
  "process_event s r InformationalResponse =
     accept_if (r = Server \<and> server s = SendResponse) (settle s)"
  by (cases r; cases s; cases "role_state s r")
     (simp_all add: state_op_defs direct_transition_def reject_def accept_if_def set_role_state_def)

lemma process_event_response:
  "process_event s r Response =
     accept_if (r = Server \<and> (server s = Idle \<or> server s = SendResponse))
       (settle (s\<lparr>server := SendBody, proposals := proposals_none,
          cs_keep_alive := (cs_keep_alive s \<and> server s \<noteq> Idle \<and> \<not> prop_connect (proposals s))\<rparr>))"
  by (cases r; cases s; cases "role_state s r")
     (simp_all add: state_op_defs direct_transition_def reject_def accept_if_def set_role_state_def)

lemma process_event_switch:
  "process_event s r (ProtocolSwitch k) =
     accept_if (r = Server \<and> server s = SendResponse \<and> proposals_contains (proposals s) k)
       (settle (s\<lparr>server := SwitchedProtocol\<rparr>))"
  by (cases r; cases "role_state s r")
     (simp_all add: state_op_defs direct_transition_def reject_def accept_if_def set_role_state_def)

lemma process_event_closed:
  "process_event s r ConnectionClosed =
     accept_if (role_state s r \<in> {Idle, Done, MustClose, Closed}) (settle (set_role_state s r Closed))"
  by (cases r; cases "role_state s r")
     (simp_all add: state_op_defs direct_transition_def reject_def accept_if_def set_role_state_def)

lemmas process_event_eqs = process_event_request process_event_data process_event_end_of_message
  process_event_informational process_event_response process_event_switch process_event_closed

section \<open>Lifecycles\<close>

text \<open>
  What a connection can do to its state, as a labelled step relation, and runs of it. A
  rejected event is no step: it changes nothing.
\<close>

datatype lifecycle_op = Accept Role StateEvent | DisableKeepAlive | Fail Role | NextCycle

inductive lifecycle :: "ConnectionState \<Rightarrow> lifecycle_op \<Rightarrow> ConnectionState \<Rightarrow> bool" where
  accept: "process_event s r e = Inr t \<Longrightarrow> lifecycle s (Accept r e) t"
| disable: "lifecycle s DisableKeepAlive (disable_keep_alive s)"
| fail: "lifecycle s (Fail r) (process_error s r)"
| next_cycle: "state_start_next_cycle s = Inr t \<Longrightarrow> lifecycle s NextCycle t"

inductive_simps lifecycle_simps [simp]:
  "lifecycle s (Accept r e) t"
  "lifecycle s DisableKeepAlive t"
  "lifecycle s (Fail r) t"
  "lifecycle s NextCycle t"

text \<open>
  The joint states that runs from a new connection reach: for each client state the server
  states beside it, and what reuse and pending switches say about them.
\<close>

fun legal_pair :: "State \<Rightarrow> State \<Rightarrow> bool" where
  "legal_pair Idle v = (v \<in> {Idle, SendBody, MustClose, Error})"
| "legal_pair SendBody v = (v \<in> {SendResponse, SendBody, Done, MustClose, SwitchedProtocol, Closed, Error})"
| "legal_pair Done v = (v \<in> {SendResponse, SendBody, Done})"
| "legal_pair MightSwitchProtocol v = (v \<in> {SendResponse, Error})"
| "legal_pair SwitchedProtocol v = (v \<in> {SwitchedProtocol, Error})"
| "legal_pair MustClose v = (v \<in> {SendResponse, SendBody, MustClose, Closed, Error})"
| "legal_pair Closed v = (v \<in> {SendResponse, SendBody, MustClose, Closed, Error})"
| "legal_pair Error v = (v \<in> {Idle, SendResponse, SendBody, MustClose, SwitchedProtocol, Closed, Error})"
| "legal_pair SendResponse v = False"

definition lifecycle_inv :: "ConnectionState \<Rightarrow> bool" where
  [inv_defs]: "lifecycle_inv s \<longleftrightarrow>
     legal_pair (client s) (server s)
     \<and> (client s = Done \<or> server s = Done \<longrightarrow> cs_keep_alive s)
     \<and> (client s = Error \<or> server s = Error \<longrightarrow> \<not> cs_keep_alive s)
     \<and> (client s = Idle \<and> server s \<noteq> Idle \<longrightarrow> \<not> cs_keep_alive s)
     \<and> (client s = MustClose \<and> server s \<noteq> Closed \<longrightarrow> \<not> cs_keep_alive s)
     \<and> (server s = MustClose \<and> client s \<noteq> Closed \<longrightarrow> \<not> cs_keep_alive s)
     \<and> (client s = MightSwitchProtocol \<or> client s = SendBody \<and> server s = SwitchedProtocol
          \<longrightarrow> \<not> proposals_is_empty (proposals s))
     \<and> (\<not> proposals_is_empty (proposals s) \<longrightarrow>
          server s \<in> {SendResponse, Error} \<and> client s \<in> {SendBody, MightSwitchProtocol, Error}
          \<or> server s = SwitchedProtocol \<and> client s \<in> {SendBody, Error})"

lemma lifecycle_inv_new: "lifecycle_inv connection_state_new"
  by (simp add: lifecycle_inv_def connection_state_new_def)

lemma lifecycle_inv_stable: "lifecycle_inv s \<Longrightarrow> stable s"
proof (cases s)
  case (fields c v k p)
  then show "lifecycle_inv s \<Longrightarrow> ?thesis"
    by (cases c; cases v; cases k; cases "p = proposals_none")
       (simp_all add: inv_defs stabilize_pass_def proposals_is_empty_iff)
qed

lemmas settle_simps = settle_def Let_def set_role_state_def proposals_is_empty_iff

lemma lifecycle_inv_finish:
  "lifecycle_inv s \<Longrightarrow> role_state s r = SendBody \<Longrightarrow> lifecycle_inv (settle (set_role_state s r Done))"
proof (cases s)
  case (fields c v k p)
  then show "lifecycle_inv s \<Longrightarrow> role_state s r = SendBody \<Longrightarrow> ?thesis"
    by (cases r; cases "role_state s (peer r)")
       (auto simp: lifecycle_inv_def settle_simps split: if_splits)
qed

lemma lifecycle_inv_close:
  "lifecycle_inv s \<Longrightarrow> role_state s r \<in> {Idle, Done, MustClose, Closed} \<Longrightarrow>
   lifecycle_inv (settle (set_role_state s r Closed))"
proof (cases s)
  case (fields c v k p)
  then show "lifecycle_inv s \<Longrightarrow> role_state s r \<in> {Idle, Done, MustClose, Closed} \<Longrightarrow> ?thesis"
    by (cases r; cases c; cases v) (simp_all add: lifecycle_inv_def settle_simps)
qed

lemma lifecycle_inv_answer:
  assumes "lifecycle_inv s" and "server s = Idle \<or> server s = SendResponse"
  shows "lifecycle_inv (settle (s\<lparr>server := SendBody, proposals := proposals_none,
           cs_keep_alive := (cs_keep_alive s \<and> server s \<noteq> Idle \<and> b)\<rparr>))"
proof (cases s)
  case (fields c v k p)
  then show ?thesis using assms
    by (cases c; cases v) (simp_all add: lifecycle_inv_def settle_simps)
qed

lemma lifecycle_inv_switch:
  assumes "lifecycle_inv s" and "server s = SendResponse" and "proposals_contains (proposals s) k"
  shows "lifecycle_inv (settle (s\<lparr>server := SwitchedProtocol\<rparr>))"
proof (cases s)
  case (fields c v ka p)
  with assms(3) have "p \<noteq> proposals_none" by auto
  with fields show ?thesis using assms(1,2)
    by (cases c) (simp_all add: lifecycle_inv_def settle_simps)
qed

lemma lifecycle_inv_event:
  assumes "lifecycle_inv s" and "process_event s r e = Inr t"
  shows "lifecycle_inv t"
proof (cases e)
  case (Request p)
  with assms show ?thesis
    by (auto simp: process_event_eqs lifecycle_inv_def settle_simps)
next
  case InformationalResponse
  with assms show ?thesis
    using lifecycle_inv_stable [OF assms(1)] by (auto simp: process_event_eqs stable_iff_settle)
qed (use assms in \<open>auto simp: process_event_eqs intro: lifecycle_inv_finish lifecycle_inv_close
       lifecycle_inv_answer lifecycle_inv_switch\<close>)

lemma lifecycle_inv_disable: "lifecycle_inv s \<Longrightarrow> lifecycle_inv (disable_keep_alive s)"
proof (cases s)
  case (fields c v k p)
  then show "lifecycle_inv s \<Longrightarrow> ?thesis"
    by (cases c; cases v) (simp_all add: state_op_defs lifecycle_inv_def settle_simps)
qed

lemma lifecycle_inv_error: "lifecycle_inv s \<Longrightarrow> lifecycle_inv (process_error s r)"
proof (cases s)
  case (fields c v k p)
  then show "lifecycle_inv s \<Longrightarrow> ?thesis"
    by (cases r; cases c; cases v) (simp_all add: state_op_defs lifecycle_inv_def settle_simps)
qed

lemma lifecycle_inv_next: "state_start_next_cycle s = Inr t \<Longrightarrow> lifecycle_inv t"
  by (auto simp: state_start_next_cycle_def lifecycle_inv_new split: if_splits)

lemma lifecycle_inv_step: "lifecycle s op t \<Longrightarrow> lifecycle_inv s \<Longrightarrow> lifecycle_inv t"
  by (induction rule: lifecycle.induct)
     (auto intro: lifecycle_inv_event lifecycle_inv_disable lifecycle_inv_error lifecycle_inv_next)

interpretation joint: step_invariant lifecycle lifecycle_inv
  by unfold_locales (rule lifecycle_inv_step)

lemma keep_alive_step:
  assumes "lifecycle s op t" and "\<not> cs_keep_alive s"
  shows "\<not> cs_keep_alive t \<and> op \<noteq> NextCycle"
  using assms
proof (induction rule: lifecycle.induct)
  case (accept s r e t)
  then show ?case
    by (cases e) (auto simp: process_event_eqs settle_simps split: Role.splits)
qed (auto simp: state_op_defs settle_simps split: Role.splits)

interpretation no_reuse: step_invariant lifecycle "\<lambda>s. \<not> cs_keep_alive s"
  by unfold_locales (auto dest: keep_alive_step)

lemma error_step: "lifecycle s op t \<Longrightarrow> role_state s r = Error \<Longrightarrow> role_state t r = Error"
proof (induction rule: lifecycle.induct)
  case (accept s r' e t)
  then show ?case
    by (cases e; cases r; cases r') (auto simp: process_event_eqs settle_simps)
next
  case (fail s r')
  then show ?case
    by (cases r; cases r') (auto simp: state_op_defs settle_simps)
qed (cases r; auto simp: state_op_defs settle_simps)+

interpretation poisoned: step_invariant lifecycle "\<lambda>s. role_state s r = Error" for r
  by unfold_locales (rule error_step)

text \<open>The steps as a function, so that runs compute; a rejected event is \<open>None\<close>.\<close>

fun lifecycle_apply :: "ConnectionState \<Rightarrow> lifecycle_op \<Rightarrow> ConnectionState option" where
  "lifecycle_apply s (Accept r e) = (case process_event s r e of Inl _ \<Rightarrow> None | Inr t \<Rightarrow> Some t)"
| "lifecycle_apply s DisableKeepAlive = Some (disable_keep_alive s)"
| "lifecycle_apply s (Fail r) = Some (process_error s r)"
| "lifecycle_apply s NextCycle = (case state_start_next_cycle s of Inl _ \<Rightarrow> None | Inr t \<Rightarrow> Some t)"

lemma lifecycle_apply_iff: "lifecycle s op t \<longleftrightarrow> lifecycle_apply s op = Some t"
  by (cases op) (auto split: sum.splits)

interpretation lifecycle_exec: executable_step lifecycle lifecycle_apply
  by unfold_locales (rule lifecycle_apply_iff)

text \<open>Where a pending proposal comes from.\<close>

lemma settle_proposals: "proposals_contains (proposals (settle s)) k \<Longrightarrow> proposals_contains (proposals s) k"
  by (auto simp: settle_simps split: if_splits)

lemma proposals_step:
  assumes "lifecycle s op t" and "proposals_contains (proposals t) k"
  shows "(\<exists>p. op = Accept Client (Request p) \<and> proposals_contains p k)
     \<or> (proposals_contains (proposals s) k \<and> op \<noteq> NextCycle \<and> op \<noteq> Accept Server Response
        \<and> (\<forall>p. op \<noteq> Accept Client (Request p)))"
  using assms
proof (induction rule: lifecycle.induct)
  case (accept s r e t)
  then show ?case
    by (cases e; cases r) (auto simp: process_event_eqs set_role_state_def dest!: settle_proposals)
next
  case (disable s)
  then show ?case by (auto simp: state_op_defs dest!: settle_proposals)
next
  case (fail s r)
  then show ?case by (cases r) (auto simp: state_op_defs set_role_state_def dest!: settle_proposals)
next
  case (next_cycle s t)
  then show ?case by (auto simp: state_start_next_cycle_def connection_state_new_def split: if_splits)
qed

definition ends_proposal :: "lifecycle_op \<Rightarrow> bool" where
  "ends_proposal op \<longleftrightarrow> op = NextCycle \<or> op = Accept Server Response \<or> (\<exists>p. op = Accept Client (Request p))"

lemma proposals_origin:
  assumes "run lifecycle connection_state_new ops s" and "proposals_contains (proposals s) k"
  shows "\<exists>before p since. ops = before @ Accept Client (Request p) # since
     \<and> proposals_contains p k \<and> list_all (\<lambda>op. \<not> ends_proposal op) since"
  using assms
proof (induction rule: run.induct)
  case run_nil
  then show ?case by (simp add: connection_state_new_def)
next
  case (run_snoc ops s op t)
  from proposals_step [OF run_snoc.hyps(2) run_snoc.prems] show ?case
  proof
    assume "\<exists>p. op = Accept Client (Request p) \<and> proposals_contains p k"
    then show ?thesis by (metis list.pred_inject(1))
  next
    assume "proposals_contains (proposals s) k \<and> op \<noteq> NextCycle \<and> op \<noteq> Accept Server Response
        \<and> (\<forall>p. op \<noteq> Accept Client (Request p))"
    then have "proposals_contains (proposals s) k" and "\<not> ends_proposal op"
      by (auto simp: ends_proposal_def)
    with run_snoc.IH obtain before p since where
      "ops = before @ Accept Client (Request p) # since" "proposals_contains p k"
      "list_all (\<lambda>op. \<not> ends_proposal op) since" by blast
    with \<open>\<not> ends_proposal op\<close> have "ops @ [op] = before @ Accept Client (Request p) # (since @ [op])
      \<and> proposals_contains p k \<and> list_all (\<lambda>op. \<not> ends_proposal op) (since @ [op])" by simp
    then show ?thesis by blast
  qed
qed

definition is_final :: "lifecycle_op \<Rightarrow> bool" where
  "is_final op \<longleftrightarrow> op = Accept Server Response \<or> (\<exists>k. op = Accept Server (ProtocolSwitch k))"

definition is_request :: "lifecycle_op \<Rightarrow> bool" where
  "is_request op \<longleftrightarrow> (\<exists>p. op = Accept Client (Request p))"

lemma settle_keep_alive [simp]: "cs_keep_alive (settle s) = cs_keep_alive s"
  by (simp add: settle_simps)

lemma settle_server:
  "server (settle s) = server s \<or> server s \<in> {Idle, Done} \<and> server (settle s) = MustClose"
  by (auto simp: settle_simps)

lemma settle_server_busy [simp]:
  "server s \<noteq> Idle \<Longrightarrow> server s \<noteq> Done \<Longrightarrow> server (settle s) = server s"
  using settle_server by blast

text \<open>How many answers the server has sent beyond the requests it got.\<close>

definition answer_balance :: "ConnectionState \<Rightarrow> int" where
  "answer_balance s =
     (if server s = SendResponse then -1 else if server s = Idle \<or> cs_keep_alive s then 0 else 1)"

lemma answer_balance_settle: "answer_balance s \<le> answer_balance (settle s)"
  using settle_server [of s] by (auto simp: answer_balance_def)

lemma answer_balance_mono:
  "answer_balance s \<le> answer_balance t \<Longrightarrow> answer_balance s \<le> answer_balance (settle t)"
  using answer_balance_settle order_trans by blast

lemma no_answer:
  "\<not> is_final (Accept r Data)" "\<not> is_request (Accept r Data)"
  "\<not> is_final (Accept r EndOfMessage)" "\<not> is_request (Accept r EndOfMessage)"
  "\<not> is_final (Accept r InformationalResponse)" "\<not> is_request (Accept r InformationalResponse)"
  "\<not> is_final (Accept r ConnectionClosed)" "\<not> is_request (Accept r ConnectionClosed)"
  "\<not> is_final DisableKeepAlive" "\<not> is_request DisableKeepAlive"
  "\<not> is_final (Fail r)" "\<not> is_request (Fail r)"
  "\<not> is_final NextCycle" "\<not> is_request NextCycle"
  by (simp_all add: is_final_def is_request_def)

lemma answer_step:
  assumes "lifecycle s op t"
  shows "answer_balance s + of_bool (is_final op) \<le> answer_balance t + of_bool (is_request op)"
  using assms
proof (induction rule: lifecycle.induct)
  case (accept s r e t)
  show ?case
  proof (cases e)
    case (Request p)
    with accept show ?thesis
      by (auto simp: process_event_eqs is_final_def is_request_def answer_balance_def)
  next
    case Response
    with accept show ?thesis
      by (auto simp: process_event_eqs is_final_def is_request_def answer_balance_def)
  next
    case (ProtocolSwitch k)
    with accept show ?thesis
      by (auto simp: process_event_eqs is_final_def is_request_def answer_balance_def)
  next
    case EndOfMessage
    with accept have "answer_balance s \<le> answer_balance (set_role_state s r Done)" "t = settle (set_role_state s r Done)"
      by (auto simp: process_event_eqs set_role_state_def answer_balance_def split: Role.splits)
    with EndOfMessage show ?thesis by (simp add: no_answer answer_balance_mono)
  next
    case ConnectionClosed
    with accept have "answer_balance s \<le> answer_balance (set_role_state s r Closed)" "t = settle (set_role_state s r Closed)"
      by (auto simp: process_event_eqs set_role_state_def answer_balance_def split: Role.splits)
    with ConnectionClosed show ?thesis by (simp add: no_answer answer_balance_mono)
  qed (use accept in \<open>auto simp: process_event_eqs no_answer answer_balance_settle\<close>)
next
  case (disable s)
  have "answer_balance s \<le> answer_balance (s\<lparr>cs_keep_alive := False\<rparr>)"
    by (simp add: answer_balance_def)
  then show ?case by (simp add: state_op_defs no_answer answer_balance_mono)
next
  case (fail s r)
  have "answer_balance s \<le> answer_balance (set_role_state (s\<lparr>cs_keep_alive := False\<rparr>) r Error)"
    by (cases r) (simp_all add: answer_balance_def set_role_state_def)
  then show ?case by (simp add: state_op_defs no_answer answer_balance_mono)
next
  case (next_cycle s t)
  then show ?case
    by (auto simp: state_start_next_cycle_def no_answer answer_balance_def
        connection_state_new_def split: if_splits)
qed

lemma answer_run:
  "run lifecycle s ops t \<Longrightarrow>
   answer_balance s + int (length (filter is_final ops))
     \<le> answer_balance t + int (length (filter is_request ops))"
proof (induction rule: run.induct)
  case run_nil
  show ?case by simp
next
  case (run_snoc ops t op u)
  with answer_step [OF run_snoc.hyps(2)] show ?case by (auto simp: of_bool_def split: if_splits)
qed


lemma process_event_slow_eq:
  assumes "lifecycle_inv s"
  shows "process_event s r e = process_event_slow s r e"
proof (cases "e = Data \<and> role_state s r = SendBody")
  case True
  have "settle s = s"
    using lifecycle_inv_stable [OF assms] by (simp add: stable_iff_settle)
  moreover have "set_role_state s r SendBody = s"
    using True by (cases r) (auto simp: set_role_state_def)
  ultimately show ?thesis
    using True by (cases r) (simp_all add: state_op_defs direct_transition_def)
qed (auto simp: process_event_def)

lemma next_cycle_iff:
  assumes "lifecycle_inv s"
  shows "state_start_next_cycle s = Inr connection_state_new \<longleftrightarrow> client s = Done \<and> server s = Done"
  using assms by (auto simp: state_start_next_cycle_def lifecycle_inv_def)

lemma poisoned_rejects: "role_state s r = Error \<Longrightarrow> process_event s r e = Inl InvalidTransition"
  by (cases e; cases r) (auto simp: process_event_eqs accept_if_def)

lemmas lifecycle_eval = lifecycle_exec.exec_run_iff connection_state_new_def process_event_eqs
  accept_if_def settle_def Let_def set_role_state_def disable_keep_alive_def process_error_def
  state_start_next_cycle_def stabilize_settle from_flags_def proposals_none_def proposals_is_empty_def

section \<open>Properties\<close>

text \<open>
  C21: the loop of \<open>stabilize\<close> ends, on a state that one more pass leaves alone, and that
  state is the closed form \<open>settle\<close>: the switch decision first, closure after it.
\<close>

theorem stabilize_fixed_point:
  "stabilize s = settle s \<and> stabilize_pass (stabilize s) = stabilize s"
  by (simp add: stabilize_settle stabilize_fixed [unfolded stabilize_settle])

text \<open>
  C23: every joint state a connection reaches is one of the legal pairs, with the reuse flag
  and the pending proposals they allow, and it is stable.
\<close>

theorem reachable_joint_states:
  assumes "run lifecycle connection_state_new ops s"
  shows "lifecycle_inv s \<and> stable s"
  using joint.run_inv [OF assms lifecycle_inv_new] lifecycle_inv_stable by blast

theorem reachable_joint_states_witness:
  "stable \<lparr>client = MightSwitchProtocol, server = SendResponse, cs_keep_alive = False,
     proposals = from_flags False True\<rparr>"
proof -
  have "run lifecycle connection_state_new
      [Accept Client (Request (from_flags False True)), DisableKeepAlive, Accept Client EndOfMessage]
      \<lparr>client = MightSwitchProtocol, server = SendResponse, cs_keep_alive = False,
         proposals = from_flags False True\<rparr>"
    by (simp add: lifecycle_eval)
  from reachable_joint_states [OF this] show ?thesis by simp
qed

text \<open>
  C24: the early return of \<open>process_event\<close> on body data is only an optimisation: in every
  reachable state it gives what the general path gives.
\<close>

theorem process_event_fast_path:
  assumes "run lifecycle connection_state_new ops s"
  shows "process_event s r e = process_event_slow s r e"
  using joint.run_inv [OF assms lifecycle_inv_new] by (rule process_event_slow_eq)

theorem process_event_fast_path_witness:
  "process_event_slow (connection_state_new\<lparr>client := SendBody, server := SendResponse\<rparr>) Client Data
   = Inr (connection_state_new\<lparr>client := SendBody, server := SendResponse\<rparr>)"
proof -
  have "run lifecycle connection_state_new [Accept Client (Request proposals_none)]
      (connection_state_new\<lparr>client := SendBody, server := SendResponse\<rparr>)"
    by (simp add: lifecycle_eval)
  from process_event_fast_path [OF this, of Client Data] show ?thesis
    by (simp add: process_event_eqs accept_if_def)
qed

text \<open>
  A connection is reusable exactly when both actors are done: in every reachable state
  the two further guards of \<open>start_next_cycle\<close> follow from that.
\<close>

theorem next_cycle_when_done:
  assumes "run lifecycle connection_state_new ops s"
  shows "state_start_next_cycle s = Inr connection_state_new \<longleftrightarrow> client s = Done \<and> server s = Done"
  using joint.run_inv [OF assms lifecycle_inv_new] by (rule next_cycle_iff)

theorem next_cycle_when_done_witness:
  "state_start_next_cycle (connection_state_new\<lparr>client := Done, server := Done\<rparr>)
   = Inr connection_state_new"
proof -
  have "run lifecycle connection_state_new
      [Accept Client (Request proposals_none), Accept Client EndOfMessage,
       Accept Server Response, Accept Server EndOfMessage]
      (connection_state_new\<lparr>client := Done, server := Done\<rparr>)"
    by (simp add: lifecycle_eval)
  from next_cycle_when_done [OF this] show ?thesis by simp
qed

text \<open>
  C25: once keep-alive is disabled no later cycle starts, whatever happens, and it stays
  disabled.
\<close>

theorem no_cycle_after_disable:
  assumes "run lifecycle s ops t" and "\<not> cs_keep_alive s"
  shows "NextCycle \<notin> set ops \<and> \<not> cs_keep_alive t"
  using no_reuse.run_inv [OF assms] no_reuse.run_labels [OF assms, of "\<lambda>op. op \<noteq> NextCycle"]
    keep_alive_step by blast

theorem no_cycle_after_disable_witness:
  "NextCycle \<notin> set [Accept Client (Request proposals_none), Accept Client EndOfMessage]"
proof -
  have "run lifecycle (disable_keep_alive connection_state_new)
      [Accept Client (Request proposals_none), Accept Client EndOfMessage]
      (connection_state_new\<lparr>client := MustClose, server := SendResponse, cs_keep_alive := False\<rparr>)"
    by (simp add: lifecycle_eval)
  from no_cycle_after_disable [OF this] show ?thesis by (simp add: lifecycle_eval)
qed

text \<open>
  A poisoned actor stays poisoned, and no event of it is ever accepted again.
\<close>

theorem error_is_final:
  assumes "run lifecycle s ops t" and "role_state s r = Error"
  shows "role_state t r = Error \<and> (\<forall>e. Accept r e \<notin> set ops)"
proof
  show "role_state t r = Error" using assms by (rule poisoned.run_inv)
  have "op \<noteq> Accept r e" if "lifecycle u op v" "role_state u r = Error" for u op v e
    using that poisoned_rejects by (auto elim!: lifecycle.cases)
  then show "\<forall>e. Accept r e \<notin> set ops"
    using poisoned.run_labels [OF assms, of "\<lambda>op. \<forall>e. op \<noteq> Accept r e"] by blast
qed

theorem error_is_final_witness:
  "\<forall>e. Accept Client e \<notin> set [Accept Server Response, Accept Server EndOfMessage]"
proof -
  have "run lifecycle (process_error connection_state_new Client)
      [Accept Server Response, Accept Server EndOfMessage]
      (connection_state_new\<lparr>client := Error, server := MustClose, cs_keep_alive := False\<rparr>)"
    by (simp add: lifecycle_eval)
  from error_is_final [OF this, of Client] show ?thesis by (simp add: lifecycle_eval)
qed

text \<open>
  A protocol switch is accepted only if the request of the current exchange proposed
  that kind of switch and no final response has denied it since.
\<close>

theorem switch_was_proposed:
  assumes "run lifecycle connection_state_new (ops @ [Accept Server (ProtocolSwitch k)]) s"
  shows "\<exists>before p since. ops = before @ Accept Client (Request p) # since
     \<and> proposals_contains p k \<and> list_all (\<lambda>op. \<not> ends_proposal op) since"
proof -
  from assms obtain u where "run lifecycle connection_state_new ops u"
    and "process_event u Server (ProtocolSwitch k) = Inr s"
    by (auto elim: run.cases)
  then show ?thesis by (auto simp: process_event_eqs intro: proposals_origin)
qed

theorem switch_was_proposed_witness:
  "\<exists>before p since. [Accept Client (Request (from_flags False True)), Accept Server InformationalResponse]
       = before @ Accept Client (Request p) # since
     \<and> proposals_contains p Upgrade \<and> list_all (\<lambda>op. \<not> ends_proposal op) since"
proof -
  have "run lifecycle connection_state_new
      ([Accept Client (Request (from_flags False True)), Accept Server InformationalResponse]
         @ [Accept Server (ProtocolSwitch Upgrade)])
      (connection_state_new\<lparr>client := SendBody, server := SwitchedProtocol, proposals := from_flags False True\<rparr>)"
    by (simp add: lifecycle_eval)
  from switch_was_proposed [OF this] show ?thesis by simp
qed

text \<open>
  C26: final answers (a final response or an accepted switch) never outnumber requests while
  the connection is reusable, and by at most one, the early error response, when it is not.
\<close>

theorem answers_match_requests:
  assumes "run lifecycle connection_state_new ops s"
  shows "length (filter is_final ops)
     \<le> length (filter is_request ops) + (if cs_keep_alive s then 0 else 1)"
  using answer_run [OF assms] by (auto simp: answer_balance_def connection_state_new_def split: if_splits)

theorem answers_match_requests_witness:
  "length (filter is_final [Accept Server Response, Accept Server EndOfMessage])
   \<le> length (filter is_request [Accept Server Response, Accept Server EndOfMessage]) + 1"
proof -
  have "run lifecycle connection_state_new [Accept Server Response, Accept Server EndOfMessage]
      (connection_state_new\<lparr>server := MustClose, cs_keep_alive := False\<rparr>)"
    by (simp add: lifecycle_eval)
  from answers_match_requests [OF this] show ?thesis by simp
qed


end
