(* ===== verification/H11r_Contract.thy ===== *)
theory H11r_Contract
  imports H11r_State
begin

text \<open>
  The table of direct transitions that \<open>state.rs\<close> states for its tests
  (\<open>DIRECT_CONTRACT\<close>, read off RFC 9110 and RFC 9112), as a reference for
  \<open>direct_transition\<close>. The table names requests without proposals only; a request with
  proposals makes the same direct transition.
\<close>

definition DIRECT_CONTRACT :: "(Role \<times> State \<times> StateEvent \<times> State) list" where
  "DIRECT_CONTRACT =
     [(Client, Idle, Request proposals_none, SendBody),
      (Client, Idle, ConnectionClosed, Closed),
      (Client, SendBody, Data, SendBody),
      (Client, SendBody, EndOfMessage, Done),
      (Client, Done, ConnectionClosed, Closed),
      (Client, MustClose, ConnectionClosed, Closed),
      (Client, Closed, ConnectionClosed, Closed),
      (Server, Idle, Response, SendBody),
      (Server, Idle, ConnectionClosed, Closed),
      (Server, SendResponse, InformationalResponse, SendResponse),
      (Server, SendResponse, Response, SendBody),
      (Server, SendResponse, ProtocolSwitch Connect, SwitchedProtocol),
      (Server, SendResponse, ProtocolSwitch Upgrade, SwitchedProtocol),
      (Server, SendBody, Data, SendBody),
      (Server, SendBody, EndOfMessage, Done),
      (Server, Done, ConnectionClosed, Closed),
      (Server, MustClose, ConnectionClosed, Closed),
      (Server, Closed, ConnectionClosed, Closed)]"

fun find_next :: "(Role \<times> State \<times> StateEvent \<times> State) list \<Rightarrow> Role \<Rightarrow> State \<Rightarrow> StateEvent \<Rightarrow> State option" where
  "find_next [] r st e = None"
| "find_next ((case_role, case_state, case_event, next_state) # cases) r st e =
     (if r = case_role \<and> st = case_state \<and> e = case_event then Some next_state else find_next cases r st e)"

definition contract_next :: "Role \<Rightarrow> State \<Rightarrow> StateEvent \<Rightarrow> State option" where
  "contract_next = find_next DIRECT_CONTRACT"

fun without_proposals :: "StateEvent \<Rightarrow> StateEvent" where
  "without_proposals (Request p) = Request proposals_none"
| "without_proposals e = e"

text \<open>
  C22: the transitions of each role are exactly those of the protocol's table, for every role,
  state and event, whatever switches a request proposes.
\<close>

theorem direct_transition_is_contract: "direct_transition r st e = contract_next r st (without_proposals e)"
proof (cases e)
  case (Request p)
  then show ?thesis by (cases r; cases st) (simp_all add: direct_transition_def reject_def contract_next_def DIRECT_CONTRACT_def)
next
  case (ProtocolSwitch k)
  then show ?thesis
    by (cases k; cases r; cases st) (simp_all add: direct_transition_def reject_def contract_next_def DIRECT_CONTRACT_def)
qed (cases r; cases st; simp add: direct_transition_def reject_def contract_next_def DIRECT_CONTRACT_def)+

end
