(* ===== verification/H11r_Message.thy ===== *)
theory H11r_Message
  imports H11r_Prelude
begin

text \<open>
  Methods (\<open>method.rs\<close>), status codes (\<open>status.rs\<close>), the validity of field names and values
  (\<open>wire/fields.rs\<close>), the field section (\<open>headers.rs\<close>), and the message, event, limit and
  error types of \<open>lib.rs\<close>.

  A field section keeps all names and values in one byte buffer with the ranges of each
  field; \<open>headers_iter\<close> reads it back as a list of pairs. The locale \<open>field_section\<close> is the
  contract the wire layer relies on: the section behaves as that list.
\<close>

section \<open>Methods\<close>

definition is_tchar :: "byte \<Rightarrow> bool" where
  [byte_defs]: "is_tchar b \<longleftrightarrow>
     byte_in CHR ''a'' CHR ''z'' b \<or> byte_in CHR ''A'' CHR ''Z'' b \<or> byte_in CHR ''0'' CHR ''9'' b
     \<or> b \<in> {CHR ''!'', CHR ''#'', CHR ''$'', CHR ''%'', CHR ''&'', CHR 0x27, CHR ''*'', CHR ''+'',
            CHR ''-'', CHR ''.'', CHR 0x5E, CHR ''_'', CHR 0x60, CHR 0x7C, CHR 0x7E}"

text \<open>The 256-entry lookup table, filled byte by byte by the \<open>while\<close> loop of a const block.\<close>

function fill_token_bytes :: "nat \<Rightarrow> bool list \<Rightarrow> bool list" where
  "fill_token_bytes byte table =
     (if byte < 256 then fill_token_bytes (byte + 1) (table[byte := is_tchar (char_of byte)]) else table)"
  by pat_completeness auto
termination
  by (relation "measure (\<lambda>(byte, table). 256 - byte)") auto

declare fill_token_bytes.simps [simp del]

definition TOKEN_BYTES :: "bool list" where
  "TOKEN_BYTES = fill_token_bytes 0 (replicate 256 False)"

definition is_token_byte :: "byte \<Rightarrow> bool" where
  "is_token_byte b = TOKEN_BYTES ! byte_val b"

datatype Method = Method (as_bytes: bytes)
datatype InvalidMethod = InvalidMethod

definition method_get :: Method where "method_get = Method ''GET''"
definition method_head :: Method where "method_head = Method ''HEAD''"
definition method_post :: Method where "method_post = Method ''POST''"
definition method_put :: Method where "method_put = Method ''PUT''"
definition method_delete :: Method where "method_delete = Method ''DELETE''"
definition method_connect :: Method where "method_connect = Method ''CONNECT''"
definition method_options :: Method where "method_options = Method ''OPTIONS''"
definition method_trace :: Method where "method_trace = Method ''TRACE''"
definition method_patch :: Method where "method_patch = Method ''PATCH''"

definition method_from_bytes :: "bytes \<Rightarrow> InvalidMethod + Method" where
  "method_from_bytes value =
     (if value = [] \<or> \<not> list_all is_token_byte value then Inl InvalidMethod
      else Inr
        (if value = ''GET'' then method_get
         else if value = ''HEAD'' then method_head
         else if value = ''POST'' then method_post
         else if value = ''PUT'' then method_put
         else if value = ''DELETE'' then method_delete
         else if value = ''CONNECT'' then method_connect
         else if value = ''OPTIONS'' then method_options
         else if value = ''TRACE'' then method_trace
         else if value = ''PATCH'' then method_patch
         else Method value))"

lemmas method_defs = method_get_def method_head_def method_post_def method_put_def method_delete_def
  method_connect_def method_options_def method_trace_def method_patch_def

lemma length_fill_token_bytes [simp]: "length (fill_token_bytes n t) = length t"
  by (induction n t rule: fill_token_bytes.induct) (subst fill_token_bytes.simps, simp)

lemma fill_token_bytes_nth:
  assumes "length t = 256" and "i < 256" and "i < n \<longrightarrow> t ! i = is_tchar (char_of i)"
  shows "fill_token_bytes n t ! i = is_tchar (char_of i)"
  using assms
proof (induction n t rule: fill_token_bytes.induct)
  case (1 n t)
  show ?case
  proof (cases "n < 256")
    case True
    have "fill_token_bytes (n + 1) (t[n := is_tchar (char_of n)]) ! i = is_tchar (char_of i)"
      using 1 True by (auto simp: nth_list_update less_Suc_eq)
    with True show ?thesis by (subst fill_token_bytes.simps) simp
  next
    case False
    with 1 show ?thesis by (subst fill_token_bytes.simps) simp
  qed
qed

lemma is_token_byte_tchar [simp, code]: "is_token_byte b = is_tchar b"
  by (simp add: is_token_byte_def TOKEN_BYTES_def fill_token_bytes_nth)

lemma method_from_bytes_Inr:
  "method_from_bytes v = Inr m \<longleftrightarrow> v \<noteq> [] \<and> list_all is_tchar v \<and> m = Method v"
  unfolding method_from_bytes_def method_defs is_token_byte_tchar
  by (simp split: if_split) blast

section \<open>Status codes\<close>

datatype StatusCode = StatusCode (as_u16: "16 word")
datatype InvalidStatusCode = InvalidStatusCode

definition from_u16 :: "16 word \<Rightarrow> InvalidStatusCode + StatusCode" where
  "from_u16 value = (if 100 \<le> value \<and> value \<le> 599 then Inr (StatusCode value) else Inl InvalidStatusCode)"

definition is_informational :: "StatusCode \<Rightarrow> bool" where
  "is_informational s \<longleftrightarrow> as_u16 s < 200"

definition is_success :: "StatusCode \<Rightarrow> bool" where
  "is_success s \<longleftrightarrow> 200 \<le> as_u16 s \<and> as_u16 s < 300"

definition is_redirection :: "StatusCode \<Rightarrow> bool" where
  "is_redirection s \<longleftrightarrow> 300 \<le> as_u16 s \<and> as_u16 s < 400"

definition is_client_error :: "StatusCode \<Rightarrow> bool" where
  "is_client_error s \<longleftrightarrow> 400 \<le> as_u16 s \<and> as_u16 s < 500"

definition is_server_error :: "StatusCode \<Rightarrow> bool" where
  "is_server_error s \<longleftrightarrow> 500 \<le> as_u16 s"

text \<open>Every status code of the program comes from \<open>from_u16\<close>.\<close>

definition status_ok :: "StatusCode \<Rightarrow> bool" where
  [inv_defs]: "status_ok s \<longleftrightarrow> 100 \<le> unat (as_u16 s) \<and> unat (as_u16 s) \<le> 599"

lemma from_u16_Inr: "from_u16 v = Inr s \<longleftrightarrow> s = StatusCode v \<and> status_ok s"
  by (auto simp: from_u16_def status_ok_def word_le_nat_alt)

section \<open>Field names and values\<close>

definition is_line_value_byte :: "byte \<Rightarrow> bool" where
  [byte_defs]: "is_line_value_byte b \<longleftrightarrow>
     b = HTAB \<or> byte_in SP CHR ''~'' b \<or> byte_in CHR 0x80 CHR 0xFF b"

definition is_field_vchar :: "byte \<Rightarrow> bool" where
  [byte_defs]: "is_field_vchar b \<longleftrightarrow> byte_in CHR ''!'' CHR ''~'' b \<or> byte_in CHR 0x80 CHR 0xFF b"

definition valid_name :: "bytes \<Rightarrow> bool" where
  "valid_name name \<longleftrightarrow> name \<noteq> [] \<and> list_all is_token_byte name"

definition valid_value :: "bytes \<Rightarrow> bool" where
  "valid_value value \<longleftrightarrow>
     value = []
     \<or> (is_some_and is_field_vchar (first value)
        \<and> is_some_and is_field_vchar (last_opt value)
        \<and> fold (\<lambda>b valid. valid \<and> is_line_value_byte b) value True)"

lemma fold_conj: "fold (\<lambda>b ok. ok \<and> P b) xs acc \<longleftrightarrow> acc \<and> list_all P xs"
  by (induction xs arbitrary: acc) auto

lemma valid_value_iff:
  "valid_value v \<longleftrightarrow> v = [] \<or> is_field_vchar (hd v) \<and> is_field_vchar (last v) \<and> list_all is_line_value_byte v"
  by (cases v) (auto simp: valid_value_def first_def last_opt_def fold_conj)

section \<open>Field sections\<close>

record Headers =
  hdr_bytes :: bytes
  hdr_fields :: "(range \<times> range) list"
  hdr_valid :: bool

definition headers_new :: Headers where
  "headers_new = \<lparr>hdr_bytes = [], hdr_fields = [], hdr_valid = True\<rparr>"

text \<open>Capacities are hints to the allocator only.\<close>

definition headers_with_capacity :: "nat \<Rightarrow> nat \<Rightarrow> Headers" where
  "headers_with_capacity n_fields n_bytes = \<lparr>hdr_bytes = [], hdr_fields = [], hdr_valid = True\<rparr>"

definition from_section :: "bytes \<Rightarrow> (range \<times> range) list \<Rightarrow> Headers" where
  "from_section sect ranges = \<lparr>hdr_bytes = sect, hdr_fields = ranges, hdr_valid = False\<rparr>"

definition headers_push :: "Headers \<Rightarrow> bytes \<Rightarrow> bytes \<Rightarrow> Headers" where
  "headers_push h name value =
     (let name_start = length (hdr_bytes h);
          bytes1 = hdr_bytes h @ name;
          value_start = length bytes1;
          bytes2 = bytes1 @ value
      in \<lparr>hdr_bytes = bytes2,
          hdr_fields = hdr_fields h @ [((name_start, value_start), (value_start, length bytes2))],
          hdr_valid = (hdr_valid h \<and> valid_name name \<and> valid_value value)\<rparr>)"

definition headers_len :: "Headers \<Rightarrow> nat" where
  "headers_len h = length (hdr_fields h)"

definition headers_is_empty :: "Headers \<Rightarrow> bool" where
  "headers_is_empty h \<longleftrightarrow> hdr_fields h = []"

text \<open>\<open>HeadersIter::next\<close>, and the sequence it yields.\<close>

definition field_at :: "bytes \<Rightarrow> range \<times> range \<Rightarrow> bytes \<times> bytes" where
  "field_at bytes f =
     (slice bytes (fst (fst f)) (snd (fst f)), slice bytes (fst (snd f)) (snd (snd f)))"

fun headers_iter_next ::
  "bytes \<times> (range \<times> range) list \<Rightarrow> ((bytes \<times> bytes) \<times> (bytes \<times> (range \<times> range) list)) option" where
  "headers_iter_next (bytes, []) = None"
| "headers_iter_next (bytes, f # fs) = Some (field_at bytes f, (bytes, fs))"

definition headers_iter :: "Headers \<Rightarrow> (bytes \<times> bytes) list" where
  "headers_iter h = map (field_at (hdr_bytes h)) (hdr_fields h)"

definition get_all :: "Headers \<Rightarrow> bytes \<Rightarrow> bytes list" where
  "get_all h name = map snd (filter (\<lambda>(field, _). eq_ignore_ascii_case field name) (headers_iter h))"

definition headers_is_valid :: "Headers \<Rightarrow> bool" where
  "headers_is_valid h \<longleftrightarrow>
     hdr_valid h \<or> list_all (\<lambda>(name, value). valid_name name \<and> valid_value value) (headers_iter h)"

definition headers_retain :: "(bytes \<Rightarrow> bytes \<Rightarrow> bool) \<Rightarrow> Headers \<Rightarrow> Headers" where
  "headers_retain keep h =
     h\<lparr>hdr_fields := filter (\<lambda>f. case field_at (hdr_bytes h) f of (n, v) \<Rightarrow> keep n v) (hdr_fields h)\<rparr>"

definition headers_eq :: "Headers \<Rightarrow> Headers \<Rightarrow> bool" where
  "headers_eq a b \<longleftrightarrow> headers_iter a = headers_iter b"

text \<open>What \<open>Hash\<close> feeds the hasher: the count, and each pair as its two slices.\<close>

datatype hash_write = WriteUsize nat | WriteBytes bytes

definition headers_hash :: "Headers \<Rightarrow> hash_write list" where
  "headers_hash h =
     WriteUsize (headers_len h)
     # concat (map (\<lambda>(n, v). [WriteUsize (length n), WriteBytes n, WriteUsize (length v), WriteBytes v])
         (headers_iter h))"

definition headers_extend :: "Headers \<Rightarrow> (bytes \<times> bytes) list \<Rightarrow> Headers" where
  "headers_extend h fs = foldl (\<lambda>acc (name, value). headers_push acc name value) h fs"

definition headers_from :: "(bytes \<times> bytes) list \<Rightarrow> Headers" where
  "headers_from fs = headers_extend headers_new fs"

text \<open>
  The invariant: every range lies in the buffer (so no slice of the iterator can panic), and
  the cached flag is sound.
\<close>

definition headers_inv :: "Headers \<Rightarrow> bool" where
  [inv_defs]: "headers_inv h \<longleftrightarrow>
     list_all (\<lambda>(n, v). slice_ok (hdr_bytes h) (fst n) (snd n) \<and> slice_ok (hdr_bytes h) (fst v) (snd v))
       (hdr_fields h)
     \<and> (hdr_valid h \<longrightarrow> list_all (\<lambda>(n, v). valid_name n \<and> valid_value v) (headers_iter h))"

definition valid_fields :: "(bytes \<times> bytes) list \<Rightarrow> bool" where
  "valid_fields fs \<longleftrightarrow> list_all (\<lambda>(n, v). valid_name n \<and> valid_value v) fs"

locale field_section =
  fixes empty :: 'h
    and push :: "'h \<Rightarrow> bytes \<Rightarrow> bytes \<Rightarrow> 'h"
    and retain :: "(bytes \<Rightarrow> bytes \<Rightarrow> bool) \<Rightarrow> 'h \<Rightarrow> 'h"
    and iter :: "'h \<Rightarrow> (bytes \<times> bytes) list"
    and is_valid :: "'h \<Rightarrow> bool"
    and invar :: "'h \<Rightarrow> bool"
  assumes empty_iter: "iter empty = []"
    and empty_inv: "invar empty"
    and push_iter: "invar h \<Longrightarrow> iter (push h n v) = iter h @ [(n, v)]"
    and push_inv: "invar h \<Longrightarrow> invar (push h n v)"
    and retain_iter: "iter (retain keep h) = filter (\<lambda>(n, v). keep n v) (iter h)"
    and retain_inv: "invar h \<Longrightarrow> invar (retain keep h)"
    and is_valid_iff: "invar h \<Longrightarrow> is_valid h \<longleftrightarrow> valid_fields (iter h)"
begin

lemma pushes:
  "invar h \<Longrightarrow> invar (foldl (\<lambda>acc (n, v). push acc n v) h fs)
     \<and> iter (foldl (\<lambda>acc (n, v). push acc n v) h fs) = iter h @ fs"
proof (induction fs arbitrary: h)
  case Nil
  then show ?case by simp
next
  case (Cons f fs)
  obtain n v where f: "f = (n, v)" by (cases f)
  from Cons.IH [OF push_inv [OF Cons.prems, of n v]] show ?case
    by (simp add: f push_iter [OF Cons.prems])
qed

lemma replace_iter:
  "invar h \<Longrightarrow> iter (push (retain keep h) n v) = filter (\<lambda>(n, v). keep n v) (iter h) @ [(n, v)]"
  by (simp add: push_iter retain_inv retain_iter)

lemma push_valid:
  "invar h \<Longrightarrow> is_valid (push h n v) \<longleftrightarrow> is_valid h \<and> valid_name n \<and> valid_value v"
  by (auto simp: is_valid_iff push_inv push_iter valid_fields_def)

lemma retain_valid: "invar h \<Longrightarrow> is_valid h \<Longrightarrow> is_valid (retain keep h)"
  by (auto simp: is_valid_iff retain_inv retain_iter valid_fields_def list_all_iff)

end

lemma field_at_append:
  "slice_ok b (fst (fst f)) (snd (fst f)) \<Longrightarrow> slice_ok b (fst (snd f)) (snd (snd f)) \<Longrightarrow>
   field_at (b @ c) f = field_at b f"
  by (simp add: field_at_def slice_append_left slice_ok_def)

lemma headers_iter_push:
  assumes "headers_inv h"
  shows "headers_iter (headers_push h n v) = headers_iter h @ [(n, v)]"
proof -
  have "map (field_at (hdr_bytes h @ n @ v)) (hdr_fields h) = headers_iter h"
    using assms unfolding headers_iter_def headers_inv_def
    by (auto simp: list_all_iff intro!: field_at_append split: prod.splits)
  moreover have "field_at (hdr_bytes h @ n @ v)
      ((length (hdr_bytes h), length (hdr_bytes h) + length n),
       (length (hdr_bytes h) + length n, length (hdr_bytes h) + length n + length v)) = (n, v)"
    by (simp add: field_at_def slice_def)
  ultimately show ?thesis
    by (simp add: headers_iter_def headers_push_def Let_def add.assoc)
qed

lemma headers_inv_new [simp]: "headers_inv headers_new"
  by (simp add: headers_inv_def headers_new_def headers_iter_def)

lemma headers_iter_new [simp]: "headers_iter headers_new = []"
  by (simp add: headers_iter_def headers_new_def)

lemma headers_inv_push: "headers_inv h \<Longrightarrow> headers_inv (headers_push h n v)"
  using headers_iter_push [of h n v]
  by (auto simp: headers_inv_def headers_push_def Let_def slice_ok_def list_all_iff split: prod.splits)

lemma headers_iter_retain:
  "headers_iter (headers_retain keep h) = filter (\<lambda>(n, v). keep n v) (headers_iter h)"
  by (simp add: headers_iter_def headers_retain_def filter_map comp_def)

lemma headers_inv_retain: "headers_inv h \<Longrightarrow> headers_inv (headers_retain keep h)"
  using headers_iter_retain [of keep h]
  by (auto simp: headers_inv_def headers_retain_def list_all_iff)

lemma headers_is_valid_iff: "headers_inv h \<Longrightarrow> headers_is_valid h \<longleftrightarrow> valid_fields (headers_iter h)"
  by (auto simp: headers_is_valid_def headers_inv_def valid_fields_def)

interpretation headers: field_section headers_new headers_push headers_retain headers_iter
  headers_is_valid headers_inv
  by unfold_locales
     (simp_all add: headers_iter_push headers_inv_push headers_iter_retain headers_inv_retain
        headers_is_valid_iff)

lemma headers_extend_iter: "headers_inv h \<Longrightarrow> headers_iter (headers_extend h fs) = headers_iter h @ fs"
  unfolding headers_extend_def using headers.pushes by blast

lemma headers_extend_inv: "headers_inv h \<Longrightarrow> headers_inv (headers_extend h fs)"
  unfolding headers_extend_def using headers.pushes by blast

lemma headers_from_iter [simp]: "headers_iter (headers_from fs) = fs"
  by (simp add: headers_from_def headers_extend_iter)

lemma headers_from_inv [simp]: "headers_inv (headers_from fs)"
  by (simp add: headers_from_def headers_extend_inv)

lemma headers_len_iter: "headers_len h = length (headers_iter h)"
  by (simp add: headers_len_def headers_iter_def)

lemma headers_is_empty_iter: "headers_is_empty h \<longleftrightarrow> headers_iter h = []"
  by (simp add: headers_is_empty_def headers_iter_def)

lemma get_all_push:
  "headers_inv h \<Longrightarrow>
   get_all (headers_push h n v) name = get_all h name @ (if eq_ignore_ascii_case n name then [v] else [])"
  by (simp add: get_all_def headers_iter_push)

lemma get_all_retain_other:
  "get_all (headers_retain (\<lambda>n _. \<not> eq_ignore_ascii_case n name) h) name = []"
  by (auto simp: get_all_def headers_iter_retain filter_empty_conv)

section \<open>Messages, events, limits and errors\<close>

datatype Version = Http10 | Http11

fun version_wire :: "Version \<Rightarrow> bytes" where
  "version_wire Http10 = ''1.0''"
| "version_wire Http11 = ''1.1''"

record Request =
  req_method :: Method
  req_target :: bytes
  req_headers :: Headers
  req_version :: Version

text \<open>\<open>InformationalResponse\<close> is the same type.\<close>

record Response =
  resp_status :: StatusCode
  resp_reason :: bytes
  resp_headers :: Headers
  resp_version :: Version

text \<open>\<open>Data\<close> is given by its bytes and its two chunk flags.\<close>

datatype Event =
    EventRequest Request
  | EventInformationalResponse Response
  | EventResponse Response
  | EventData bytes bool bool
  | EventEndOfMessage Headers
  | EventConnectionClosed

datatype NextEvent = NextEvent Event | NeedData | Paused

record Limits =
  max_head_bytes :: nat
  max_header_count :: nat

datatype InvalidLimits = InvalidLimits

definition DEFAULT_MAX_HEAD_BYTES :: nat where "DEFAULT_MAX_HEAD_BYTES = 64 * 1024"
definition DEFAULT_MAX_HEADER_COUNT :: nat where "DEFAULT_MAX_HEADER_COUNT = 100"

definition limits_new :: "nat \<Rightarrow> nat \<Rightarrow> InvalidLimits + Limits" where
  "limits_new head headers =
     (if head = 0 \<or> headers = 0 then Inl InvalidLimits
      else Inr \<lparr>max_head_bytes = head, max_header_count = headers\<rparr>)"

definition limits_default :: Limits where
  "limits_default =
     \<lparr>max_head_bytes = DEFAULT_MAX_HEAD_BYTES, max_header_count = DEFAULT_MAX_HEADER_COUNT\<rparr>"

datatype LocalProtocolError = LocalProtocolError string

record RemoteProtocolError =
  err_message :: string
  suggested_status_code :: "nat option"

definition local :: "string \<Rightarrow> LocalProtocolError" where
  "local m = LocalProtocolError m"

definition remote :: "string \<Rightarrow> nat option \<Rightarrow> RemoteProtocolError" where
  "remote m status = \<lparr>err_message = m, suggested_status_code = status\<rparr>"

text \<open>
  Framing before body data: \<open>DataPrefix\<close> is an 18-byte array with a length, and
  dereferences to its first \<open>len\<close> bytes.
\<close>

record DataPrefix =
  dp_bytes :: bytes
  dp_len :: nat

definition data_prefix_default :: DataPrefix where
  "data_prefix_default = \<lparr>dp_bytes = replicate 18 (CHR 0x00), dp_len = 0\<rparr>"

definition usize_bits :: nat where "usize_bits = 64"

text \<open>\<open>usize::BITS - length.leading_zeros()\<close> is the number of significant bits.\<close>

fun significant_bits :: "nat \<Rightarrow> nat" where
  "significant_bits n = (if n = 0 then 0 else Suc (significant_bits (n div 2)))"

declare significant_bits.simps [simp del]

definition leading_zeros :: "nat \<Rightarrow> nat" where
  "leading_zeros n = usize_bits - significant_bits n"

definition div_ceil :: "nat \<Rightarrow> nat \<Rightarrow> nat" where
  "div_ceil a b = (a + b - 1) div b"

definition hex_digit :: "nat \<Rightarrow> byte" where
  "hex_digit d = ''0123456789abcdef'' ! d"

definition chunk_size_digits :: "nat \<Rightarrow> nat" where
  "chunk_size_digits len = max (div_ceil (usize_bits - leading_zeros len) 4) 1"

definition chunk_size :: "nat \<Rightarrow> DataPrefix" where
  "chunk_size len =
     (let digits = chunk_size_digits len;
          hex = map (\<lambda>at. hex_digit ((len div 2 ^ (4 * (digits - 1 - at))) mod 16)) [0..<digits];
          bytes = hex @ CRLF @ replicate (18 - (digits + 2)) (CHR 0x00)
      in \<lparr>dp_bytes = bytes, dp_len = digits + 2\<rparr>)"

definition prefix_bytes :: "DataPrefix \<Rightarrow> bytes" where
  "prefix_bytes p = take (dp_len p) (dp_bytes p)"

record DataParts =
  parts_prefix :: DataPrefix
  parts_data :: bytes
  parts_suffix :: bytes

end
