(* ===== verification/H11r_Buffer.thy ===== *)
theory H11r_Buffer
  imports H11r_Prelude
begin

text \<open>
  Receive buffering of \<open>wire/buffer.rs\<close>: the framing and reader states, the input buffer with
  lazy compaction, and the scheduling of field-section parses (\<open>SectionProgress\<close>).

  The locale \<open>byte_queue\<close> is what the connection relies on: a buffer is a queue of bytes,
  appended at the end and consumed at the front, whatever compaction does underneath.
\<close>

section \<open>Framing and reader states\<close>

datatype Framing = Fixed nat | Chunked | CloseDelimited

text \<open>\<open>Size\<close> holds the scanned position, \<open>ChunkData\<close> the remaining bytes and the first-piece flag.\<close>

datatype Chunk =
    Size nat
  | ChunkData nat bool
  | DataEnd
  | Trailers

datatype Reader = ReadHead | ReadFixed nat | ReadChunked Chunk | ReadCloseDelimited

definition reader :: "Framing \<Rightarrow> Reader" where
  "reader f = (case f of
      Fixed n \<Rightarrow> ReadFixed n
    | Chunked \<Rightarrow> ReadChunked (Size 0)
    | CloseDelimited \<Rightarrow> ReadCloseDelimited)"

section \<open>The input buffer\<close>

record Buffer =
  buf_bytes :: bytes
  buf_start :: nat

definition buffer_default :: Buffer where
  "buffer_default = \<lparr>buf_bytes = [], buf_start = 0\<rparr>"

definition as_slice :: "Buffer \<Rightarrow> bytes" where
  "as_slice b = drop (buf_start b) (buf_bytes b)"

text \<open>\<open>copy_within(start.., 0)\<close> followed by \<open>truncate(live)\<close> leaves the live bytes.\<close>

definition copy_within_front :: "bytes \<Rightarrow> nat \<Rightarrow> bytes" where
  "copy_within_front xs start = drop start xs @ drop (length xs - start) xs"

definition compact :: "Buffer \<Rightarrow> Buffer" where
  "compact b =
     (let live = length (buf_bytes b) - buf_start b
      in if buf_start b > 0 \<and> buf_start b \<ge> live
         then \<lparr>buf_bytes = take live (copy_within_front (buf_bytes b) (buf_start b)), buf_start = 0\<rparr>
         else b)"

definition buffer_extend :: "Buffer \<Rightarrow> bytes \<Rightarrow> Buffer" where
  "buffer_extend b d = (let b' = compact b in b'\<lparr>buf_bytes := buf_bytes b' @ d\<rparr>)"

definition consume :: "Buffer \<Rightarrow> nat \<Rightarrow> Buffer" where
  "consume b count = b\<lparr>buf_start := buf_start b + count\<rparr>"

definition buffer_take :: "Buffer \<Rightarrow> nat \<Rightarrow> bytes \<times> Buffer" where
  "buffer_take b count =
     (let start = buf_start b; b' = consume b count
      in (slice (buf_bytes b') start (start + count), b'))"

definition buffer_inv :: "Buffer \<Rightarrow> bool" where
  [inv_defs]: "buffer_inv b \<longleftrightarrow> buf_start b \<le> length (buf_bytes b)"

locale byte_queue =
  fixes empty :: 'q
    and contents :: "'q \<Rightarrow> bytes"
    and append :: "'q \<Rightarrow> bytes \<Rightarrow> 'q"
    and discard :: "'q \<Rightarrow> nat \<Rightarrow> 'q"
    and invar :: "'q \<Rightarrow> bool"
  assumes contents_empty: "contents empty = []"
    and empty_inv: "invar empty"
    and contents_append: "invar q \<Longrightarrow> contents (append q d) = contents q @ d"
    and append_inv: "invar q \<Longrightarrow> invar (append q d)"
    and contents_discard: "contents (discard q n) = drop n (contents q)"
    and discard_inv: "invar q \<Longrightarrow> n \<le> length (contents q) \<Longrightarrow> invar (discard q n)"
begin

lemma contents_appends: "invar q \<Longrightarrow> contents (foldl append q ds) = contents q @ concat ds"
  by (induction ds arbitrary: q) (simp_all add: contents_append append_inv)

lemma appends_inv: "invar q \<Longrightarrow> invar (foldl append q ds)"
  by (induction ds arbitrary: q) (simp_all add: append_inv)

text \<open>Reading \<open>n\<close> bytes commutes with the arrival of more.\<close>

lemma discard_append:
  "invar q \<Longrightarrow> n \<le> length (contents q) \<Longrightarrow>
   contents (append (discard q n) d) = contents (discard (append q d) n)"
  by (simp add: contents_append contents_discard discard_inv)

end

lemma as_slice_default [simp]: "as_slice buffer_default = []"
  by (simp add: as_slice_def buffer_default_def)

lemma buffer_inv_default [simp]: "buffer_inv buffer_default"
  by (simp add: buffer_inv_def buffer_default_def)

lemma as_slice_compact [simp]: "buffer_inv b \<Longrightarrow> as_slice (compact b) = as_slice b"
  by (simp add: as_slice_def compact_def copy_within_front_def Let_def)

lemma buffer_inv_compact: "buffer_inv b \<Longrightarrow> buffer_inv (compact b)"
  by (simp add: buffer_inv_def compact_def Let_def)

lemma as_slice_extend [simp]: "buffer_inv b \<Longrightarrow> as_slice (buffer_extend b d) = as_slice b @ d"
  using as_slice_compact [of b] buffer_inv_compact [of b]
  by (simp add: buffer_extend_def Let_def as_slice_def buffer_inv_def)

lemma buffer_inv_extend [simp]: "buffer_inv b \<Longrightarrow> buffer_inv (buffer_extend b d)"
  using buffer_inv_compact [of b] by (simp add: buffer_extend_def Let_def buffer_inv_def)

lemma as_slice_consume [simp]: "as_slice (consume b n) = drop n (as_slice b)"
  by (simp add: as_slice_def consume_def add.commute)

lemma buffer_inv_consume [simp]:
  "buffer_inv b \<Longrightarrow> n \<le> length (as_slice b) \<Longrightarrow> buffer_inv (consume b n)"
  by (auto simp: buffer_inv_def consume_def as_slice_def)

interpretation input: byte_queue buffer_default as_slice buffer_extend consume buffer_inv
  by unfold_locales simp_all

lemma buffer_take_eq: "buffer_take b n = (take n (as_slice b), consume b n)"
  by (simp add: buffer_take_def Let_def slice_def as_slice_def consume_def)

section \<open>Field-section progress\<close>

record SectionProgress =
  sp_at :: nat
  line_start :: nat
  started :: bool
  parsed :: nat

definition progress_default :: SectionProgress where
  "progress_default = \<lparr>sp_at = 0, line_start = 0, started = False, parsed = 0\<rparr>"

function poll :: "SectionProgress \<Rightarrow> bytes \<Rightarrow> bool \<Rightarrow> nat option \<times> SectionProgress" where
  "poll p data skip_leading_empty =
     (if sp_at p < length data then
        let p1 = p\<lparr>sp_at := sp_at p + 1\<rparr> in
        if data ! (sp_at p1 - 1) = LF then
          let line = slice data (line_start p1) (sp_at p1 - 1);
              empty = (line = [] \<or> line = [CR]);
              p2 = p1\<lparr>line_start := sp_at p1\<rparr>
          in if empty then
               (if started p2 \<or> \<not> skip_leading_empty then (Some (sp_at p2), p2)
                else poll p2 data skip_leading_empty)
             else poll (p2\<lparr>started := True\<rparr>) data skip_leading_empty
        else poll p1 data skip_leading_empty
      else (None, p))"
  by pat_completeness auto
termination
  by (relation "measure (\<lambda>(p, data, s). length data - sp_at p)") auto

declare poll.simps [simp del]

definition due :: "SectionProgress \<Rightarrow> bytes \<Rightarrow> bool \<Rightarrow> bool \<times> SectionProgress" where
  "due p data skip_leading_empty =
     (let (due, p1) =
        (if length data \<ge> saturating_mul (parsed p) 2 then (True, p)
         else case poll p data skip_leading_empty of (r, p') \<Rightarrow> (r \<noteq> None, p'))
      in if due then (True, p1\<lparr>parsed := length data\<rparr>) else (False, p1))"

definition only_empty_lines :: "bytes \<Rightarrow> bool" where
  "only_empty_lines data \<longleftrightarrow>
     list_all (\<lambda>line. line = [LF] \<or> line = CRLF) (split_inclusive (\<lambda>b. b = LF) data)"

text \<open>No slice of \<open>poll\<close> is out of range: the current line starts at or before the scan.\<close>

definition progress_inv :: "SectionProgress \<Rightarrow> bool" where
  [inv_defs]: "progress_inv p \<longleftrightarrow> line_start p \<le> sp_at p"

lemma progress_inv_default [simp]: "progress_inv progress_default"
  by (simp add: progress_inv_def progress_default_def)

text \<open>A line is given without its LF where the scan meets it, and with it in a list of lines.\<close>

definition blank :: "bytes \<Rightarrow> bool" where
  "blank line \<longleftrightarrow> line = [] \<or> line = [CR]"

text \<open>One byte of the scan, case by case.\<close>

definition next_line :: "SectionProgress \<Rightarrow> SectionProgress" where
  "next_line p = p\<lparr>sp_at := sp_at p + 1, line_start := sp_at p + 1\<rparr>"

lemma poll_end: "\<not> sp_at p < length d \<Longrightarrow> poll p d skip = (None, p)"
  by (subst poll.simps) simp

lemma poll_byte:
  "sp_at p < length d \<Longrightarrow> d ! sp_at p \<noteq> LF \<Longrightarrow> poll p d skip = poll (p\<lparr>sp_at := sp_at p + 1\<rparr>) d skip"
  by (subst poll.simps) (simp add: Let_def)

lemma poll_line:
  "sp_at p < length d \<Longrightarrow> d ! sp_at p = LF \<Longrightarrow>
   poll p d skip =
     (if \<not> blank (slice d (line_start p) (sp_at p)) then poll ((next_line p)\<lparr>started := True\<rparr>) d skip
      else if started p \<or> \<not> skip then (Some (sp_at p + 1), next_line p)
      else poll (next_line p) d skip)"
  by (subst poll.simps) (simp add: Let_def blank_def next_line_def)

lemma poll_induct [consumes 0, case_names finish byte line]:
  assumes "\<And>p. \<not> sp_at p < length d \<Longrightarrow> P p"
    and "\<And>p. sp_at p < length d \<Longrightarrow> d ! sp_at p \<noteq> LF \<Longrightarrow> P (p\<lparr>sp_at := sp_at p + 1\<rparr>) \<Longrightarrow> P p"
    and "\<And>p. sp_at p < length d \<Longrightarrow> d ! sp_at p = LF \<Longrightarrow> P ((next_line p)\<lparr>started := True\<rparr>) \<Longrightarrow>
           P (next_line p) \<Longrightarrow> P p"
  shows "P p"
proof (induction "length d - sp_at p" arbitrary: p rule: less_induct)
  case less
  show ?case
  proof (cases "sp_at p < length d")
    case True
    then have "P (p\<lparr>sp_at := sp_at p + 1\<rparr>)" "P (next_line p)" "P ((next_line p)\<lparr>started := True\<rparr>)"
      by (auto intro!: less simp: next_line_def)
    with True assms(2,3) show ?thesis by blast
  qed (rule assms(1))
qed

lemma poll_inv: "progress_inv p \<Longrightarrow> progress_inv (snd (poll p d skip))"
  by (induction p rule: poll_induct [of d])
     (auto simp: poll_end poll_byte poll_line progress_inv_def next_line_def)

lemma poll_at: "sp_at p \<le> length d \<Longrightarrow> sp_at (snd (poll p d skip)) \<le> length d"
  by (induction p rule: poll_induct [of d])
     (auto simp: poll_end poll_byte poll_line next_line_def)

text \<open>Polling a prefix first and the whole afterwards is polling the whole.\<close>

lemma poll_resume:
  "sp_at p \<le> length d \<Longrightarrow>
   poll p (d @ e) skip =
     (case poll p d skip of (Some n, p') \<Rightarrow> (Some n, p') | (None, p') \<Rightarrow> poll p' (d @ e) skip)"
proof (induction p rule: poll_induct [of d])
  case (finish p)
  then show ?case by (simp add: poll_end)
next
  case (byte p)
  then show ?case by (simp add: poll_byte nth_append)
next
  case (line p)
  then have "slice (d @ e) (line_start p) (sp_at p) = slice d (line_start p) (sp_at p)"
    by (simp add: slice_append_left)
  with line show ?case by (cases skip) (simp_all add: poll_line nth_append next_line_def)
qed

section \<open>What the scan finds\<close>

text \<open>
  The end of a section, read off its lines: the first empty line, after the first non-empty
  one when leading empty lines are skipped.
\<close>

definition blank_line :: "bytes \<Rightarrow> bool" where
  "blank_line l \<longleftrightarrow> l = [LF] \<or> l = CRLF"

fun section_end :: "bool \<Rightarrow> bytes list \<Rightarrow> nat option" where
  "section_end skip [] = None"
| "section_end skip (l # ls) =
     (if last l \<noteq> LF then None
      else if blank_line l \<and> \<not> skip then Some (length l)
      else map_option ((+) (length l)) (section_end (skip \<and> blank_line l) ls))"

lemma split_inclusive_none: "\<forall>x \<in> set xs. \<not> P x \<Longrightarrow> split_inclusive P xs = (if xs = [] then [] else [xs])"
  by (induction xs) auto

lemma split_inclusive_line:
  "\<forall>x \<in> set xs. \<not> P x \<Longrightarrow> P y \<Longrightarrow> split_inclusive P (xs @ y # ys) = (xs @ [y]) # split_inclusive P ys"
  by (induction xs) auto

lemma poll_section_end_gen:
  assumes "data = pre @ cur @ rest" "sp_at p = length pre + length cur" "line_start p = length pre" "LF \<notin> set cur"
  shows "fst (poll p data skip) =
     map_option ((+) (length pre)) (section_end (skip \<and> \<not> started p) (split_inclusive (\<lambda>b. b = LF) (cur @ rest)))"
  using assms
proof (induction rest arbitrary: pre cur p)
  case Nil
  then have "last cur \<noteq> LF" if "cur \<noteq> []" using that last_in_set by metis
  moreover have "split_inclusive (\<lambda>b. b = LF) cur = (if cur = [] then [] else [cur])"
    using Nil.prems(4) by (intro split_inclusive_none) auto
  ultimately show ?case using Nil by (simp add: poll_end)
next
  case (Cons x rest)
  have len: "sp_at p < length data" using Cons.prems by simp
  have nth: "data ! sp_at p = x" using Cons.prems by (simp add: nth_append)
  have line: "slice data (line_start p) (sp_at p) = cur" using Cons.prems by (simp add: slice_def)
  show ?case
  proof (cases "x = LF")
    case False
    have "fst (poll (p\<lparr>sp_at := sp_at p + 1\<rparr>) data skip) =
       map_option ((+) (length pre)) (section_end (skip \<and> \<not> started p)
          (split_inclusive (\<lambda>b. b = LF) ((cur @ [x]) @ rest)))"
      using Cons.prems False Cons.IH [of pre "cur @ [x]" "p\<lparr>sp_at := sp_at p + 1\<rparr>"] by simp
    with False len nth show ?thesis by (simp add: poll_byte)
  next
    case True
    have split: "split_inclusive (\<lambda>b. b = LF) (cur @ LF # rest)
       = (cur @ [LF]) # split_inclusive (\<lambda>b. b = LF) rest"
      using Cons.prems(4) by (auto intro!: split_inclusive_line)
    have blank: "blank_line (cur @ [LF]) \<longleftrightarrow> blank cur"
      by (auto simp: blank_line_def blank_def)
    have IH: "fst (poll q data skip) = map_option ((+) (length pre + length cur + 1))
        (section_end (skip \<and> \<not> started q) (split_inclusive (\<lambda>b. b = LF) rest))"
      if "sp_at q = sp_at p + 1" "line_start q = sp_at p + 1" for q
      using that Cons.prems Cons.IH [of "pre @ cur @ [x]" "[]" q]
      by (cases "section_end (skip \<and> \<not> started q) (split_inclusive (\<lambda>b. b = LF) rest)") simp_all
    show ?thesis
      using True len nth line Cons.prems(2) IH [of "next_line p"] IH [of "(next_line p)\<lparr>started := True\<rparr>"]
      by (cases skip; cases "section_end False (split_inclusive (\<lambda>b. b = LF) rest)";
          cases "section_end True (split_inclusive (\<lambda>b. b = LF) rest)")
         (simp_all add: poll_line split blank next_line_def)
  qed
qed

lemma poll_section_end:
  "fst (poll progress_default data skip) = section_end skip (split_inclusive (\<lambda>b. b = LF) data)"
  using poll_section_end_gen [of data "[]" "[]" data progress_default skip]
  by (cases "section_end skip (split_inclusive (\<lambda>b. b = LF) data)") (simp_all add: progress_default_def)

lemma poll_bound: "fst (poll p d skip) = Some n \<Longrightarrow> 0 < n \<and> n \<le> length d"
  by (induction p rule: poll_induct [of d])
     (auto simp: poll_end poll_byte poll_line split: if_splits)

lemma concat_split_inclusive: "concat (split_inclusive P xs) = xs"
  by (induction xs) (auto split: list.splits)

lemma only_empty_lines_iff:
  "only_empty_lines d \<longleftrightarrow> (\<exists>ls. list_all blank_line ls \<and> d = concat ls)"
proof
  assume "only_empty_lines d"
  then show "\<exists>ls. list_all blank_line ls \<and> d = concat ls"
    unfolding only_empty_lines_def blank_line_def [symmetric]
    using concat_split_inclusive [of "\<lambda>b. b = LF" d] by metis
next
  assume "\<exists>ls. list_all blank_line ls \<and> d = concat ls"
  then obtain ls where "list_all blank_line ls" "d = concat ls" by blast
  then show "only_empty_lines d"
  proof (induction ls arbitrary: d)
    case (Cons l ls)
    then show ?case 
      by (auto simp: only_empty_lines_def blank_line_def)
  qed (simp add: only_empty_lines_def)
qed

section \<open>Compaction cost\<close>

text \<open>
  How many live bytes compaction moves over a sequence of buffer operations, against how
  many bytes they discard; and the queue of bytes the same operations describe.
\<close>

datatype buffer_op = Extend bytes | Consume nat

definition moved :: "Buffer \<Rightarrow> nat" where
  "moved b = (if compact b = b then 0 else length (as_slice b))"

fun buffer_ops :: "Buffer \<Rightarrow> buffer_op list \<Rightarrow> nat \<times> Buffer" where
  "buffer_ops b [] = (0, b)"
| "buffer_ops b (Extend d # ops) =
     (case buffer_ops (buffer_extend b d) ops of (cost, b') \<Rightarrow> (moved b + cost, b'))"
| "buffer_ops b (Consume n # ops) = buffer_ops (consume b n) ops"

fun consumed :: "buffer_op list \<Rightarrow> nat" where
  "consumed [] = 0"
| "consumed (Extend d # ops) = consumed ops"
| "consumed (Consume n # ops) = n + consumed ops"

lemma moved_extend: "moved b + buf_start (buffer_extend b d) \<le> buf_start b"
  by (auto simp: moved_def compact_def buffer_extend_def Let_def as_slice_def)

lemma compaction_linear: "fst (buffer_ops b ops) + buf_start (snd (buffer_ops b ops)) \<le> buf_start b + consumed ops"
proof (induction b ops rule: buffer_ops.induct)
  case (2 b d ops)
  then show ?case using moved_extend [of b d] by (auto split: prod.splits)
next
  case (3 b n ops)
  then show ?case by (simp add: consume_def)
qed simp

fun queue_ops :: "bytes \<Rightarrow> buffer_op list \<Rightarrow> bytes" where
  "queue_ops q [] = q"
| "queue_ops q (Extend d # ops) = queue_ops (q @ d) ops"
| "queue_ops q (Consume n # ops) = queue_ops (drop n q) ops"

fun within :: "bytes \<Rightarrow> buffer_op list \<Rightarrow> bool" where
  "within q [] = True"
| "within q (Extend d # ops) = within (q @ d) ops"
| "within q (Consume n # ops) = (n \<le> length q \<and> within (drop n q) ops)"

lemma buffer_ops_queue:
  "buffer_inv b \<Longrightarrow> within (as_slice b) ops \<Longrightarrow>
   buffer_inv (snd (buffer_ops b ops)) \<and> as_slice (snd (buffer_ops b ops)) = queue_ops (as_slice b) ops"
  by (induction b ops rule: buffer_ops.induct) (auto split: prod.splits)

text \<open>Polling as bytes arrive: the progress is kept from one call to the next.\<close>

fun poll_pieces :: "SectionProgress \<Rightarrow> bytes \<Rightarrow> bytes list \<Rightarrow> bool \<Rightarrow> nat option" where
  "poll_pieces p got [] skip = None"
| "poll_pieces p got (d # ds) skip =
     (case poll p (got @ d) skip of
        (Some n, _) \<Rightarrow> Some n
      | (None, p') \<Rightarrow> poll_pieces p' (got @ d) ds skip)"

lemma poll_None_at: "sp_at p \<le> length d \<Longrightarrow> fst (poll p d skip) = None \<Longrightarrow> sp_at (snd (poll p d skip)) = length d"
  by (induction p rule: poll_induct [of d])
     (auto simp: poll_end poll_byte poll_line next_line_def split: if_splits)

lemma poll_pieces_eq:
  "sp_at p = length got \<Longrightarrow> poll_pieces p got ds skip = fst (poll p (got @ concat ds) skip)"
proof (induction ds arbitrary: p got)
  case Nil
  then show ?case by (simp add: poll_end)
next
  case (Cons d ds)
  obtain r p' where r: "poll p (got @ d) skip = (r, p')" by fastforce
  from poll_resume [of p "got @ d" "concat ds" skip] Cons.prems r have
    *: "poll p (got @ d @ concat ds) skip =
        (case r of Some n \<Rightarrow> (Some n, p') | None \<Rightarrow> poll p' (got @ d @ concat ds) skip)"
    by (auto split: option.splits)
  show ?case
  proof (cases r)
    case None
    with r Cons.prems have "sp_at p' = length (got @ d)"
      using poll_None_at [of p "got @ d" skip] by simp
    from Cons.IH [OF this] None r * show ?thesis by simp
  next
    case (Some n)
    with r * show ?thesis by simp
  qed
qed

section \<open>Properties\<close>

text \<open>
  C27: the input buffer is a queue of bytes: whatever is appended and consumed (never more
  than is there), its contents are those of the plain queue, and its start stays in range.
\<close>

theorem buffer_refines_queue:
  assumes "buffer_inv b" and "within (as_slice b) ops"
  shows "as_slice (snd (buffer_ops b ops)) = queue_ops (as_slice b) ops \<and> buffer_inv (snd (buffer_ops b ops))"
  using buffer_ops_queue [OF assms] by simp

theorem buffer_refines_queue_witness:
  "as_slice (snd (buffer_ops buffer_default [Extend ''abcd'', Consume 3, Extend ''ef'', Consume 1])) = ''ef''"
  using buffer_refines_queue [of buffer_default "[Extend ''abcd'', Consume 3, Extend ''ef'', Consume 1]"]
  by simp

text \<open>
  C28: compaction is amortized linear: over any sequence of operations on a fresh buffer it
  moves no more live bytes than were consumed.
\<close>

theorem compaction_amortized: "fst (buffer_ops buffer_default ops) \<le> consumed ops"
  using compaction_linear [of buffer_default ops] by (simp add: buffer_default_def)

text \<open>
  Polling a field section as its bytes arrive, in any segmentation, finds its end when
  and where one look at all the bytes finds it: after the first empty line, or after the
  first empty line that follows a non-empty one when leading empty lines are skipped.
\<close>

theorem poll_segmentation_independent:
  "poll_pieces progress_default [] pieces skip
   = section_end skip (split_inclusive (\<lambda>b. b = LF) (concat pieces))"
  using poll_pieces_eq [of progress_default "[]" pieces skip] poll_section_end [of "concat pieces" skip]
  by (simp add: progress_default_def)

end
