(* ===== verification/H11r_Target.thy ===== *)
theory H11r_Target
  imports H11r_Message
begin

text \<open>
  Request targets and Host authorities of \<open>wire/target.rs\<close>, with the two standard-library
  parsers they call: \<open>u16::from_str\<close> and \<open>Ipv6Addr::from_str\<close>.
\<close>

section \<open>Standard-library parsers\<close>

text \<open>\<open>u16::from_str\<close>: an optional \<open>+\<close>, then at least one decimal digit, within range.\<close>

fun digits_value :: "nat \<Rightarrow> nat \<Rightarrow> bytes \<Rightarrow> nat option" where
  "digits_value limit acc [] = Some acc"
| "digits_value limit acc (b # bs) =
     (case to_digit b 10 of
        None \<Rightarrow> None
      | Some d \<Rightarrow> if acc * 10 + d \<le> limit then digits_value limit (acc * 10 + d) bs else None)"

definition parse_u16 :: "bytes \<Rightarrow> nat option" where
  "parse_u16 s =
     (let digits = (case s of CHR ''+'' # rest \<Rightarrow> rest | _ \<Rightarrow> s)
      in if digits = [] then None else digits_value 65535 0 digits)"

text \<open>
  The recursive-descent parser of \<open>core::net\<close>: each reader takes the remaining bytes and
  returns its value with the rest, or \<open>None\<close>, in which case nothing is consumed.
\<close>

definition read_given_char :: "byte \<Rightarrow> bytes \<Rightarrow> bytes option" where
  "read_given_char c s = (case s of [] \<Rightarrow> None | b # rest \<Rightarrow> if b = c then Some rest else None)"

fun read_digits :: "nat \<Rightarrow> nat \<Rightarrow> bytes \<Rightarrow> nat \<times> nat \<times> bytes" where
  "read_digits radix acc [] = (acc, 0, [])"
| "read_digits radix acc (b # bs) =
     (case to_digit b radix of
        None \<Rightarrow> (acc, 0, b # bs)
      | Some d \<Rightarrow>
          (case read_digits radix (acc * radix + d) bs of (v, n, rest) \<Rightarrow> (v, Suc n, rest)))"

definition read_number :: "nat \<Rightarrow> nat \<Rightarrow> bool \<Rightarrow> nat \<Rightarrow> bytes \<Rightarrow> (nat \<times> bytes) option" where
  "read_number radix max_digits allow_zero_prefix limit s =
     (case read_digits radix 0 s of
        (v, n, rest) \<Rightarrow>
          if n > max_digits then None
          else if n = 0 then None
          else if \<not> allow_zero_prefix \<and> first s = Some CHR ''0'' \<and> n > 1 then None
          else if v \<le> limit then Some (v, rest) else None)"

definition read_separator :: "byte \<Rightarrow> nat \<Rightarrow> (bytes \<Rightarrow> ('a \<times> bytes) option) \<Rightarrow> bytes \<Rightarrow> ('a \<times> bytes) option" where
  "read_separator sep index inner s =
     (if index > 0 then (case read_given_char sep s of None \<Rightarrow> None | Some rest \<Rightarrow> inner rest)
      else inner s)"

fun read_octets :: "nat \<Rightarrow> nat \<Rightarrow> bytes \<Rightarrow> (nat list \<times> bytes) option" where
  "read_octets 0 i s = Some ([], s)"
| "read_octets (Suc left) i s =
     (case read_separator CHR ''.'' i (read_number 10 3 False 255) s of
        None \<Rightarrow> None
      | Some (v, rest) \<Rightarrow>
          (case read_octets left (Suc i) rest of None \<Rightarrow> None | Some (vs, rest') \<Rightarrow> Some (v # vs, rest')))"

definition read_ipv4_addr :: "bytes \<Rightarrow> (nat list \<times> bytes) option" where
  "read_ipv4_addr s = read_octets 4 0 s"

text \<open>
  \<open>read_groups\<close> fills up to \<open>limit\<close> groups from index \<open>i\<close>; an embedded IPv4 address takes
  two and ends the run.
\<close>

fun read_groups :: "nat \<Rightarrow> nat \<Rightarrow> nat \<Rightarrow> bytes \<Rightarrow> nat \<times> bool \<times> bytes" where
  "read_groups 0 i limit s = (i, False, s)"
| "read_groups (Suc left) i limit s =
     (case (if i + 1 < limit then read_separator CHR '':'' i read_ipv4_addr s else None) of
        Some (_, rest) \<Rightarrow> (i + 2, True, rest)
      | None \<Rightarrow>
          (case read_separator CHR '':'' i (read_number 16 4 True 65535) s of
             None \<Rightarrow> (i, False, s)
           | Some (_, rest) \<Rightarrow> read_groups left (Suc i) limit rest))"

definition read_ipv6_addr :: "bytes \<Rightarrow> bytes option" where
  "read_ipv6_addr s =
     (case read_groups 8 0 8 s of
        (head_size, head_ipv4, rest) \<Rightarrow>
          if head_size = 8 then Some rest
          else if head_ipv4 then None
          else
            (case read_given_char CHR '':'' rest of
               None \<Rightarrow> None
             | Some rest1 \<Rightarrow>
                 (case read_given_char CHR '':'' rest1 of
                    None \<Rightarrow> None
                  | Some rest2 \<Rightarrow>
                      (let limit = 8 - (head_size + 1)
                       in case read_groups limit 0 limit rest2 of (_, _, rest3) \<Rightarrow> Some rest3))))"

definition parse_ipv6 :: "bytes \<Rightarrow> bool" where
  "parse_ipv6 s \<longleftrightarrow> read_ipv6_addr s = Some []"

section \<open>Request targets and authorities\<close>

definition is_unreserved :: "byte \<Rightarrow> bool" where
  [byte_defs]: "is_unreserved b \<longleftrightarrow>
     is_ascii_alphanumeric b \<or> b \<in> {CHR ''-'', CHR ''.'', CHR ''_'', CHR 0x7E}"

definition is_sub_delim :: "byte \<Rightarrow> bool" where
  [byte_defs]: "is_sub_delim b \<longleftrightarrow>
     b \<in> {CHR ''!'', CHR ''$'', CHR ''&'', CHR 0x27, CHR ''('', CHR '')'', CHR ''*'', CHR ''+'',
          CHR '','', CHR '';'', CHR ''=''}"

definition split_at_byte :: "bytes \<Rightarrow> byte \<Rightarrow> (bytes \<times> bytes) option" where
  "split_at_byte value needle =
     (case position (\<lambda>b. b = needle) value of
        None \<Rightarrow> None
      | Some at \<Rightarrow> Some (take at value, drop (at + 1) value))"

function valid_percent_encoded_from :: "bytes \<Rightarrow> (byte \<Rightarrow> bool) \<Rightarrow> nat \<Rightarrow> bool" where
  "valid_percent_encoded_from value allowed at =
     (if at < length value then
        if value ! at = CHR ''%'' then
          (if \<not> (at + 3 \<le> length value \<and> list_all is_ascii_hexdigit (slice value (at + 1) (at + 3)))
           then False
           else valid_percent_encoded_from value allowed (at + 3))
        else if allowed (value ! at) then valid_percent_encoded_from value allowed (at + 1)
        else False
      else True)"
  by pat_completeness auto
termination
  by (relation "measure (\<lambda>(value, allowed, at). length value - at)") auto

declare valid_percent_encoded_from.simps [simp del]

definition valid_percent_encoded :: "bytes \<Rightarrow> (byte \<Rightarrow> bool) \<Rightarrow> bool" where
  "valid_percent_encoded value allowed = valid_percent_encoded_from value allowed 0"

definition valid_reg_name :: "bytes \<Rightarrow> bool" where
  "valid_reg_name value = valid_percent_encoded value (\<lambda>b. is_unreserved b \<or> is_sub_delim b)"

definition valid_ip_literal :: "bytes \<Rightarrow> bool" where
  "valid_ip_literal value \<longleftrightarrow>
     is_some_and parse_ipv6 (from_utf8 value)
     \<or> (is_some_and (\<lambda>b. b = CHR ''v'' \<or> b = CHR ''V'') (first value)
        \<and> is_some_and (\<lambda>dot. dot > 1
             \<and> list_all is_ascii_hexdigit (slice value 1 dot)
             \<and> drop (dot + 1) value \<noteq> []
             \<and> list_all (\<lambda>b. is_unreserved b \<or> is_sub_delim b \<or> b = CHR '':'') (drop (dot + 1) value))
           (position (\<lambda>b. b = CHR ''.'') value))"

definition authority_port :: "bytes \<Rightarrow> bytes option option" where
  "authority_port value =
     (case
        (if starts_with value ''['' then
           (case position (\<lambda>b. b = CHR '']'') value of
              None \<Rightarrow> None
            | Some close \<Rightarrow>
                (if \<not> valid_ip_literal (slice value 1 close) then None
                 else
                   (let rest = drop (close + 1) value
                    in if rest = [] then Some None
                       else map_option Some (strip_prefix '':'' rest))))
         else if length (filter (\<lambda>b. b = CHR '':'') value) > 1 then None
         else
           (case (case split_at_byte value CHR '':'' of
                    None \<Rightarrow> (value, None)
                  | Some (host, port) \<Rightarrow> (host, Some port)) of
              (host, port) \<Rightarrow> if \<not> valid_reg_name host then None else Some port)) of
        None \<Rightarrow> None
      | Some port \<Rightarrow> if is_none_or (list_all is_ascii_digit) port then Some port else None)"

definition has_scheme :: "bytes \<Rightarrow> bool" where
  "has_scheme target \<longleftrightarrow>
     is_some_and is_ascii_alphabetic (first target)
     \<and> is_some_and (\<lambda>(scheme, _). list_all (\<lambda>b. is_ascii_alphanumeric b
            \<or> b \<in> {CHR ''+'', CHR ''-'', CHR ''.''}) scheme) (split_at_byte target CHR '':'')"

definition valid_tcp_port :: "bytes \<Rightarrow> bool" where
  "valid_tcp_port port \<longleftrightarrow>
     is_some_and (\<lambda>p. p \<noteq> 0) (case from_utf8 port of None \<Rightarrow> None | Some p \<Rightarrow> parse_u16 p)"

definition valid_request_target :: "bytes \<Rightarrow> bytes \<Rightarrow> bool" where
  "valid_request_target method target \<longleftrightarrow>
     (if target = [] \<or> \<not> list_all (\<lambda>b. is_ascii_graphic b \<and> b \<noteq> CHR ''#'') target then False
      else if method = ''CONNECT'' then
        is_some_and valid_tcp_port (case authority_port target of None \<Rightarrow> None | Some port \<Rightarrow> port)
      else if target = ''*'' then method = ''OPTIONS''
      else starts_with target ''/'' \<or> has_scheme target)"

end
