(* ===== verification/H11r_Lexical.thy ===== *)
theory H11r_Lexical
  imports H11r_Message
begin

text \<open>
  The lexical functions the field and chunk parsers share: optional whitespace, tokens,
  quoted strings and comma-separated lists (\<open>wire/fields.rs\<close>), and numbers with checked
  arithmetic (\<open>wire/chunked.rs\<close>).
\<close>

section \<open>Whitespace, tokens and quoted strings\<close>

definition is_ows :: "byte \<Rightarrow> bool" where
  [byte_defs]: "is_ows b \<longleftrightarrow> b = SP \<or> b = HTAB"

function skip_ows :: "bytes \<Rightarrow> nat \<Rightarrow> nat" where
  "skip_ows value at = (if is_some_and is_ows (slice_get value at) then skip_ows value (at + 1) else at)"
  by pat_completeness auto
termination
  by (relation "measure (\<lambda>(value, at). length value - at)") (auto split: option.splits)

declare skip_ows.simps [simp del]

fun trim_ows_start :: "bytes \<Rightarrow> bytes" where
  "trim_ows_start [] = []"
| "trim_ows_start (b # bs) = (if is_ows b then trim_ows_start bs else b # bs)"

function trim_ows_end :: "bytes \<Rightarrow> bytes" where
  "trim_ows_end value =
     (if is_some_and is_ows (last_opt value) then trim_ows_end (take (length value - 1) value) else value)"
  by pat_completeness auto
termination
  by (relation "measure length") (auto simp: last_opt_def split: if_splits)

declare trim_ows_end.simps [simp del]

definition trim_ows :: "bytes \<Rightarrow> bytes" where
  "trim_ows value = trim_ows_end (trim_ows_start value)"

definition token_end :: "bytes \<Rightarrow> nat \<Rightarrow> nat" where
  "token_end value start =
     (case position (\<lambda>b. \<not> is_token_byte b) (drop (min start (length value)) value) of
        None \<Rightarrow> length value
      | Some e \<Rightarrow> start + e)"

definition token_name :: "bytes \<Rightarrow> bytes" where
  "token_name element = take (token_end element 0) element"

function quoted_string_end :: "bytes \<Rightarrow> nat \<Rightarrow> nat option" where
  "quoted_string_end value at =
     (case slice_get value at of
        None \<Rightarrow> None
      | Some b \<Rightarrow>
          if b = DQUOTE then Some (at + 1)
          else if b = BACKSLASH then
            (if \<not> is_some_and is_line_value_byte (slice_get value (at + 1)) then None
             else quoted_string_end value (at + 2))
          else if b \<in> {HTAB, SP, CHR ''!''} \<or> byte_in CHR ''#'' CHR 0x5B b \<or> byte_in CHR 0x5D CHR 0x7E b
            \<or> byte_in CHR 0x80 CHR 0xFF b
          then quoted_string_end value (at + 1)
          else None)"
  by pat_completeness auto
termination
  by (relation "measure (\<lambda>(value, at). length value - at)") auto

declare quoted_string_end.simps [simp del]

definition parse_quoted_string :: "bytes \<Rightarrow> nat \<Rightarrow> nat option" where
  "parse_quoted_string value at = quoted_string_end value (at + 1)"

section \<open>Lists\<close>

text \<open>
  \<open>slice::split\<close> with a closure that keeps state: the predicate is asked once per byte, from
  the left.
\<close>

fun split_stateful :: "('s \<Rightarrow> 'a \<Rightarrow> bool \<times> 's) \<Rightarrow> 's \<Rightarrow> 'a list \<Rightarrow> 'a list list" where
  "split_stateful P s [] = [[]]"
| "split_stateful P s (x # xs) =
     (case P s x of
        (True, s') \<Rightarrow> [] # split_stateful P s' xs
      | (False, s') \<Rightarrow>
          (case split_stateful P s' xs of
             [] \<Rightarrow> [[x]]
           | y # ys \<Rightarrow> (x # y) # ys))"

text \<open>The closure of \<open>elements\<close>, over its captured flags \<open>(quoted, escaped)\<close>.\<close>

definition separates :: "bool \<Rightarrow> bool \<times> bool \<Rightarrow> byte \<Rightarrow> bool \<times> (bool \<times> bool)" where
  "separates quoting s b =
     (case s of (quoted, escaped) \<Rightarrow>
        if escaped then (False, (quoted, False))
        else if b = BACKSLASH \<and> quoted then (False, (quoted, True))
        else if b = DQUOTE \<and> quoting then (False, (\<not> quoted, escaped))
        else if b = CHR '','' then (\<not> quoted, (quoted, escaped))
        else (False, (quoted, escaped)))"

definition elements :: "bytes \<Rightarrow> bool \<Rightarrow> bytes list" where
  "elements value quoting = map trim_ows (split_stateful (separates quoting) (False, False) value)"

section \<open>Numbers\<close>

definition number_step :: "nat \<Rightarrow> byte \<Rightarrow> nat option \<Rightarrow> nat option" where
  "number_step radix b acc =
     (case acc of
        None \<Rightarrow> None
      | Some number \<Rightarrow>
          (case checked_mul number radix of
             None \<Rightarrow> None
           | Some m \<Rightarrow>
               (case to_digit b radix of
                  None \<Rightarrow> None
                | Some d \<Rightarrow> checked_add m d)))"

definition parse_number :: "bytes \<Rightarrow> nat \<Rightarrow> nat option" where
  "parse_number value radix = (if value = [] then None else fold (number_step radix) value (Some 0))"

section \<open>Positions\<close>

lemma skip_ows_ge: "at \<le> skip_ows v at"
proof (induction v at rule: skip_ows.induct)
  case (1 v at)
  then show ?case by (subst skip_ows.simps) (fastforce split: option.splits dest: Suc_leD)
qed

lemma skip_ows_le: "at \<le> length v \<Longrightarrow> skip_ows v at \<le> length v"
proof (induction v at rule: skip_ows.induct)
  case (1 v at)
  then show ?case by (subst skip_ows.simps) (auto split: option.splits)
qed

lemma skip_ows_stop: "slice_get v (skip_ows v at) = Some b \<Longrightarrow> \<not> is_ows b"
proof (induction v at rule: skip_ows.induct)
  case (1 v at)
  show ?case
  proof (cases "is_some_and is_ows (slice_get v at)")
    case True
    then have "skip_ows v at = skip_ows v (at + 1)" by (subst skip_ows.simps) simp
    with 1 True show ?thesis by simp
  next
    case False
    then have "skip_ows v at = at" by (subst skip_ows.simps) simp
    with 1 False show ?thesis by (auto split: option.splits)
  qed
qed

lemma skip_ows_drop:
  "at \<le> length v \<Longrightarrow> \<exists>ws. list_all is_ows ws \<and> drop at v = ws @ drop (skip_ows v at) v"
proof (induction v at rule: skip_ows.induct)
  case (1 v at)
  show ?case
  proof (cases "is_some_and is_ows (slice_get v at)")
    case True
    then have at: "at < length v" "is_ows (v ! at)" "skip_ows v at = skip_ows v (at + 1)"
      by (auto simp: skip_ows.simps [of v at] split: option.splits)
    with 1(1) [OF True] obtain ws where "list_all is_ows ws"
        "drop (at + 1) v = ws @ drop (skip_ows v (at + 1)) v" by auto
    with at show ?thesis
      by (intro exI [of _ "v ! at # ws"]) (simp add: Cons_nth_drop_Suc [symmetric])
  next
    case False
    then have "skip_ows v at = at" by (subst skip_ows.simps) simp
    then show ?thesis by (intro exI [of _ "[]"]) simp
  qed
qed

lemma token_end_ge: "start \<le> length v \<Longrightarrow> start \<le> token_end v start"
  by (auto simp: token_end_def split: option.splits)

lemma token_end_le: "start \<le> length v \<Longrightarrow> token_end v start \<le> length v"
  by (auto simp: token_end_def min_def dest!: position_Some_bound split: option.splits)

lemma token_end_beyond: "length v \<le> start \<Longrightarrow> token_end v start = length v"
  by (simp add: token_end_def)

lemma quoted_string_end_bounds: "quoted_string_end v at = Some e \<Longrightarrow> at < e \<and> e \<le> length v"
proof (induction v at arbitrary: e rule: quoted_string_end.induct)
  case (1 v at)
  show ?case
  proof (cases "slice_get v at")
    case None
    with 1(3) show ?thesis by (simp add: quoted_string_end.simps [of v at])
  next
    case (Some b)
    consider "e = at + 1" | "quoted_string_end v (at + 1) = Some e" "b \<noteq> DQUOTE" "b \<noteq> BACKSLASH"
        "b \<in> {HTAB, SP, CHR ''!''} \<or> byte_in CHR ''#'' CHR 0x5B b \<or> byte_in CHR 0x5D CHR 0x7E b
          \<or> byte_in CHR 0x80 CHR 0xFF b"
      | "quoted_string_end v (at + 2) = Some e" "b \<noteq> DQUOTE" "b = BACKSLASH"
        "is_some_and is_line_value_byte (slice_get v (at + 1))"
      using 1(3) Some by (subst (asm) quoted_string_end.simps) (auto simp del: is_some_and_def split: if_splits)
    then show ?thesis
    proof cases
      case 1
      with Some show ?thesis by simp
    next
      case 2
      with "1.IH"(2) [OF Some, of e] show ?thesis by simp
    next
      case 3
      with "1.IH"(1) [OF Some, of e] show ?thesis by simp
    qed
  qed
qed

lemma parse_quoted_string_bounds: "parse_quoted_string v at = Some e \<Longrightarrow> at < e \<and> e \<le> length v"
  unfolding parse_quoted_string_def by (drule quoted_string_end_bounds) simp

section \<open>Lists of elements\<close>

lemma split_stateful_nonempty [simp]: "split_stateful P s xs \<noteq> []"
  by (induction xs arbitrary: s) (auto split: list.splits prod.splits bool.splits)

lemma elements_nonempty [simp]: "elements v q \<noteq> []"
  by (simp add: elements_def)

lemma separates_plain: "separates False (False, False) b = (b = CHR '','', (False, False))"
  by (simp add: separates_def)

lemma split_stateful_plain:
  "split_stateful (separates False) (False, False) v = split_slice (\<lambda>b. b = CHR '','') v"
  by (induction v) (auto simp: separates_plain split: list.splits)

lemma elements_plain: "elements v False = map trim_ows (split_slice (\<lambda>b. b = CHR '','') v)"
  by (simp add: elements_def split_stateful_plain)

lemma split_slice_none: "\<forall>x \<in> set xs. \<not> P x \<Longrightarrow> split_slice P xs = [xs]"
  by (induction xs) auto

lemma split_slice_sep:
  "\<forall>x \<in> set xs. \<not> P x \<Longrightarrow> P s \<Longrightarrow> split_slice P (xs @ s # ys) = xs # split_slice P ys"
  by (induction xs) auto

lemma trim_ows_start_id: "v = [] \<or> \<not> is_ows (hd v) \<Longrightarrow> trim_ows_start v = v"
  by (cases v) auto

lemma trim_ows_end_id: "v = [] \<or> \<not> is_ows (last v) \<Longrightarrow> trim_ows_end v = v"
  by (subst trim_ows_end.simps) (auto simp: last_opt_def)

lemma trim_ows_id: "v = [] \<or> \<not> is_ows (hd v) \<and> \<not> is_ows (last v) \<Longrightarrow> trim_ows v = v"
  by (auto simp: trim_ows_def trim_ows_start_id trim_ows_end_id)

lemma trim_ows_SP [simp]: "trim_ows (SP # v) = trim_ows v"
  by (simp add: trim_ows_def is_ows_def)

text \<open>An element as a list holds it: no comma inside, no whitespace at either end.\<close>

definition trimmed :: "bytes \<Rightarrow> bool" where
  "trimmed v \<longleftrightarrow> v \<noteq> [] \<and> CHR '','' \<notin> set v \<and> \<not> is_ows (hd v) \<and> \<not> is_ows (last v)"

lemma trim_ows_trimmed: "trimmed v \<Longrightarrow> trim_ows v = v"
  by (simp add: trimmed_def trim_ows_id)

lemma trim_ows_start_props:
  "set (trim_ows_start v) \<subseteq> set v" "trim_ows_start v = [] \<or> \<not> is_ows (hd (trim_ows_start v))"
  by (induction v) auto

lemma trim_ows_end_props:
  "set (trim_ows_end v) \<subseteq> set v \<and> (trim_ows_end v = [] \<or> \<not> is_ows (last (trim_ows_end v)))
   \<and> (trim_ows_end v \<noteq> [] \<longrightarrow> hd (trim_ows_end v) = hd v)"
proof (induction v rule: trim_ows_end.induct)
  case (1 v)
  show ?case
  proof (cases "is_some_and is_ows (last_opt v)")
    case True
    let ?w = "take (length v - 1) v"
    have "trim_ows_end v = trim_ows_end ?w" using True by (subst trim_ows_end.simps) simp
    moreover have "set ?w \<subseteq> set v" by (rule set_take_subset)
    moreover have "hd ?w = hd v" if "?w \<noteq> []" using that by (cases v) auto
    moreover have "trim_ows_end [] = []" by (simp add: trim_ows_end_id)
    ultimately show ?thesis using 1 [OF True] by (cases "?w = []") auto
  next
    case False
    then have "trim_ows_end v = v" by (subst trim_ows_end.simps) simp
    with False show ?thesis by (auto simp: last_opt_def)
  qed
qed

lemma trim_ows_props:
  "trim_ows v = [] \<or> trimmed (trim_ows v)" if "CHR '','' \<notin> set v"
proof (cases "trim_ows v = []")
  case False
  let ?w = "trim_ows_start v"
  have "set (trim_ows v) \<subseteq> set v" "\<not> is_ows (last (trim_ows v))" "hd (trim_ows v) = hd ?w"
    using False trim_ows_end_props [of ?w] trim_ows_start_props(1) [of v] by (auto simp: trim_ows_def)
  moreover have "?w \<noteq> []" using False by (auto simp: trim_ows_def trim_ows_end_id)
  ultimately show ?thesis
    using that False trim_ows_start_props(2) [of v] by (auto simp: trimmed_def)
qed simp

lemma split_slice_comma: "x \<in> set (split_slice P v) \<Longrightarrow> b \<in> set x \<Longrightarrow> \<not> P b"
  by (induction v arbitrary: x) (fastforce split: if_splits list.splits)+

lemma elements_trimmed: "x \<in> set (elements v False) \<Longrightarrow> x = [] \<or> trimmed x"
  unfolding elements_plain using trim_ows_props split_slice_comma by fastforce

lemma elements_SP: "elements (SP # v) False = elements v False"
  by (cases "split_slice (\<lambda>b. b = CHR '','') v") (simp_all add: elements_plain)

lemma trimmed_no_comma: "trimmed x \<Longrightarrow> \<forall>b \<in> set x. \<not> (b = CHR '','')"
  by (auto simp: trimmed_def)

lemma elements_cons:
  "trimmed x \<Longrightarrow> elements (x @ CHR '','' # v) False = x # elements v False"
  by (simp add: elements_plain split_slice_sep [OF trimmed_no_comma] trim_ows_trimmed)

lemma elements_single: "trimmed x \<Longrightarrow> elements x False = [x]"
  by (simp add: elements_plain split_slice_none [OF trimmed_no_comma] trim_ows_trimmed)

lemma elements_join:
  "list_all trimmed xs \<Longrightarrow> xs \<noteq> [] \<Longrightarrow> elements (join '', '' xs) False = xs"
proof (induction xs)
  case (Cons x xs)
  then show ?case by (cases xs) (simp_all add: elements_single elements_cons elements_SP)
qed simp

section \<open>The value of a number\<close>

text \<open>The number a digit string denotes, without a bound.\<close>

fun digits_denote :: "nat \<Rightarrow> nat \<Rightarrow> bytes \<Rightarrow> nat option" where
  "digits_denote radix acc [] = Some acc"
| "digits_denote radix acc (b # bs) =
     (case to_digit b radix of None \<Rightarrow> None | Some d \<Rightarrow> digits_denote radix (acc * radix + d) bs)"

lemma number_step_None [simp]: "fold (number_step r) v None = None"
  by (induction v) (simp_all add: number_step_def)

lemma digits_denote_ge: "0 < r \<Longrightarrow> digits_denote r acc v = Some n \<Longrightarrow> acc \<le> n"
proof (induction v arbitrary: acc)
  case (Cons b bs)
  then obtain d where "digits_denote r (acc * r + d) bs = Some n" by (auto split: option.splits)
  with Cons have "acc * r + d \<le> n" by simp
  moreover have "acc \<le> acc * r" using Cons.prems(1) by simp
  ultimately show ?case by linarith
qed simp

lemma fold_number:
  assumes "0 < r" "acc \<le> usize_max"
  shows "fold (number_step r) v (Some acc)
     = (case digits_denote r acc v of None \<Rightarrow> None | Some n \<Rightarrow> if n \<le> usize_max then Some n else None)"
  using assms(2)
proof (induction v arbitrary: acc)
  case Nil
  then show ?case by simp
next
  case (Cons b bs)
  show ?case
  proof (cases "to_digit b r")
    case None
    then have "number_step r b (Some acc) = None" by (simp add: number_step_def split: option.splits)
    with None show ?thesis by simp
  next
    case (Some d)
    show ?thesis
    proof (cases "acc * r + d \<le> usize_max")
      case True
      then have "number_step r b (Some acc) = Some (acc * r + d)"
        using Some by (simp add: number_step_def checked_mul_def checked_add_def)
      with Cons.IH [OF True] Some show ?thesis by simp
    next
      case False
      then have "number_step r b (Some acc) = None"
        using Some by (simp add: number_step_def checked_mul_def checked_add_def)
      moreover have "\<not> n \<le> usize_max" if "digits_denote r (acc * r + d) bs = Some n" for n
        using digits_denote_ge [OF assms(1) that] False by simp
      ultimately show ?thesis using Some by (auto split: option.splits)
    qed
  qed
qed

lemma parse_number_eq:
  "0 < r \<Longrightarrow> parse_number v r =
     (if v = [] then None
      else case digits_denote r 0 v of None \<Rightarrow> None | Some n \<Rightarrow> if n \<le> usize_max then Some n else None)"
  by (simp add: parse_number_def fold_number)

lemma parse_number_bound: "0 < r \<Longrightarrow> parse_number v r = Some n \<Longrightarrow> n \<le> usize_max"
  by (auto simp: parse_number_eq split: option.splits if_splits)

lemma digits_denote_append:
  "digits_denote r acc (v @ w) = (case digits_denote r acc v of None \<Rightarrow> None | Some n \<Rightarrow> digits_denote r n w)"
  by (induction v arbitrary: acc) (auto split: option.splits)

lemma to_digit_decimal: "d < 10 \<Longrightarrow> to_digit (char_of (48 + d)) 10 = Some d"
  by (simp add: to_digit_def byte_defs)

lemma digits_denote_to_string: "digits_denote 10 0 (to_string n) = Some n"
proof (induction n rule: to_string.induct)
  case (1 n)
  show ?case
  proof (cases "n < 10")
    case True
    then show ?thesis by (subst to_string.simps) (simp add: to_digit_decimal)
  next
    case False
    with 1 show ?thesis
      by (subst to_string.simps) (simp add: digits_denote_append to_digit_decimal del: char_of_nat)
  qed
qed

lemma parse_number_to_string: "n \<le> usize_max \<Longrightarrow> parse_number (to_string n) 10 = Some n"
  by (simp add: parse_number_eq digits_denote_to_string)

end
