(* ===== verification/H11r_Fields.thy ===== *)
theory H11r_Fields
  imports H11r_Lexical H11r_Target H11r_Buffer
begin

text \<open>
  The semantics of framing and connection fields (\<open>wire/fields.rs\<close>) and the request
  validation of \<open>wire/target.rs\<close> that rests on it: one pass over a field section
  (\<open>scan\<close>) collects what the connection asks of it, and \<open>framing\<close> decides the length of the
  message body.
\<close>

section \<open>Field lookups\<close>

definition has_field :: "Headers \<Rightarrow> bytes \<Rightarrow> bool" where
  "has_field h name \<longleftrightarrow> first (get_all h name) \<noteq> None"

definition has_framing_fields :: "Headers \<Rightarrow> bool" where
  "has_framing_fields h \<longleftrightarrow> has_field h ''transfer-encoding'' \<or> has_field h ''content-length''"

definition has_token :: "Headers \<Rightarrow> bytes \<Rightarrow> bytes \<Rightarrow> bool" where
  "has_token h name token \<longleftrightarrow>
     list_ex (\<lambda>value. eq_ignore_ascii_case value token)
       (concat (map (\<lambda>value. elements value False) (get_all h name)))"

definition valid_protocol :: "bytes \<Rightarrow> bool" where
  "valid_protocol value \<longleftrightarrow>
     (let parts = split_slice (\<lambda>b. b = CHR ''/'') value
      in is_some_and valid_name (slice_get parts 0)
         \<and> is_none_or valid_name (slice_get parts 1)
         \<and> slice_get parts 2 = None)"

text \<open>\<open>collect::<Option<Vec<_>>>()\<close>: the first invalid protocol makes the whole \<open>None\<close>.\<close>

fun collect_protocols :: "bytes list \<Rightarrow> bytes list option" where
  "collect_protocols [] = Some []"
| "collect_protocols (v # vs) =
     (if \<not> valid_protocol v then None
      else case collect_protocols vs of None \<Rightarrow> None | Some ps \<Rightarrow> Some (v # ps))"

definition upgrade_protocols :: "Headers \<Rightarrow> bytes list option" where
  "upgrade_protocols h =
     (let present = has_field h ''upgrade''
      in case collect_protocols (filter (\<lambda>value. value \<noteq> [])
                (concat (map (\<lambda>value. elements value False) (get_all h ''upgrade'')))) of
           None \<Rightarrow> None
         | Some protocols \<Rightarrow> if \<not> present \<or> protocols \<noteq> [] then Some protocols else None)"

definition protocol_matches :: "bytes \<Rightarrow> bytes \<Rightarrow> bool" where
  "protocol_matches left right \<longleftrightarrow>
     (case (splitn2 (\<lambda>b. b = CHR ''/'') left, splitn2 (\<lambda>b. b = CHR ''/'') right) of
        ((l, l'), (r, r')) \<Rightarrow> eq_ignore_ascii_case l r \<and> l' = r')"

definition connection_options :: "Headers \<Rightarrow> bytes list" where
  "connection_options h =
     filter (\<lambda>value. value \<noteq> [] \<and> \<not> eq_ignore_ascii_case value ''close''
               \<and> \<not> eq_ignore_ascii_case value ''keep-alive'')
       (concat (map (\<lambda>value. elements value False) (get_all h ''connection'')))"

definition set_connection_option :: "Headers \<Rightarrow> bytes \<Rightarrow> Headers" where
  "set_connection_option h option =
     (let options = connection_options h @ [option];
          h1 = headers_retain (\<lambda>name _. \<not> eq_ignore_ascii_case name ''connection'') h
      in headers_push h1 ''Connection'' (join '', '' options))"

section \<open>Transfer codings\<close>

record Codings =
  cod_any :: bool
  cod_empty :: bool
  malformed :: bool
  last_chunked :: bool
  chunked_before_last :: bool
  other_before_last :: bool

definition codings_default :: Codings where
  "codings_default = \<lparr>cod_any = False, cod_empty = False, malformed = False, last_chunked = False,
     chunked_before_last = False, other_before_last = False\<rparr>"

definition is_registered_coding :: "bytes \<Rightarrow> bool" where
  "is_registered_coding name \<longleftrightarrow>
     list_ex (\<lambda>coding. eq_ignore_ascii_case name coding)
       [''chunked'', ''compress'', ''deflate'', ''gzip'', ''x-compress'', ''x-gzip'']"

text \<open>
  The \<open>while\<close> loop over the parameters of one coding, on \<open>(valid, parameters, at)\<close>. Its
  position grows with every turn.
\<close>

definition parameter_step :: "bytes \<Rightarrow> nat \<Rightarrow> bool \<times> nat" where
  "parameter_step value at =
     (let name = skip_ows value (at + 1);
          at1 = skip_ows value (token_end value name);
          valid1 = (at1 > name \<and> slice_get value at1 = Some CHR ''='');
          parameter = skip_ows value (at1 + 1);
          at2 = (if slice_get value parameter = Some DQUOTE
                 then (case parse_quoted_string value parameter of None \<Rightarrow> parameter | Some e \<Rightarrow> e)
                 else token_end value parameter);
          valid2 = (valid1 \<and> at2 > parameter)
      in (valid2, skip_ows value at2))"

lemma parameter_step_advances:
  assumes "at < length v"
  shows "at < snd (parameter_step v at)"
proof -
  let ?name = "skip_ows v (at + 1)"
  let ?at1 = "skip_ows v (token_end v ?name)"
  let ?parameter = "skip_ows v (?at1 + 1)"
  have "at < ?name" "?name \<le> length v" using assms skip_ows_ge [of "at + 1" v] skip_ows_le [of "at + 1" v] by auto
  then have "at < ?at1" using token_end_ge [of ?name v] skip_ows_ge [of "token_end v ?name" v] by linarith
  then have par: "at < ?parameter" using skip_ows_ge [of "?at1 + 1" v] by linarith
  have "at < token_end v ?parameter"
    using par assms token_end_ge [of ?parameter v] token_end_beyond [of v ?parameter] by linarith
  moreover have "at < (case parse_quoted_string v ?parameter of None \<Rightarrow> ?parameter | Some e \<Rightarrow> e)"
    using par parse_quoted_string_bounds [of v ?parameter] by (auto split: option.splits intro: less_trans)
  ultimately show ?thesis
    using skip_ows_ge order.strict_trans2 unfolding parameter_step_def Let_def by (auto simp: order.strict_trans2)
qed

function read_parameters :: "bytes \<Rightarrow> bool \<Rightarrow> bool \<Rightarrow> nat \<Rightarrow> bool \<times> bool \<times> nat" where
  "read_parameters value valid parameters at =
     (if valid \<and> slice_get value at = Some CHR '';'' then
        case parameter_step value at of (valid', at') \<Rightarrow> read_parameters value valid' True at'
      else (valid, parameters, at))"
  by pat_completeness auto
termination
proof (relation "measure (\<lambda>(value, valid, parameters, at). length value - at)", goal_cases)
  case (2 v ok ps i x y)
  then show ?case using parameter_step_advances [of i v] by (cases "parameter_step v i") auto
qed simp

declare read_parameters.simps [simp del]

text \<open>
  One coding of the list, from its first byte: whether it is \<open>chunked\<close>, whether it is well
  formed, and the position after it and its trailing whitespace; and how it is recorded.
\<close>

definition read_coding :: "bytes \<Rightarrow> nat \<Rightarrow> bool \<times> bool \<times> nat" where
  "read_coding value start =
     (let at1 = token_end value start;
          name = slice value start at1;
          chunked = eq_ignore_ascii_case name ''chunked'';
          at2 = skip_ows value at1
      in case read_parameters value (at1 > start) False at2 of
           (valid1, parameters, at3) \<Rightarrow>
             (let valid = (valid1 \<and> \<not> (parameters \<and> is_registered_coding name)
                    \<and> is_none_or (\<lambda>b. b = CHR '','') (slice_get value at3))
              in (chunked, valid, at3)))"

definition note_coding :: "Codings \<Rightarrow> bool \<Rightarrow> bool \<Rightarrow> Codings" where
  "note_coding c chunked valid =
     (let c1 = (if cod_any c then
                  (if last_chunked c then c\<lparr>chunked_before_last := True\<rparr>
                   else c\<lparr>other_before_last := True\<rparr>)
                else c)
      in c1\<lparr>cod_any := True, malformed := (malformed c1 \<or> \<not> valid), last_chunked := (chunked \<and> valid)\<rparr>)"

text \<open>The loop of \<open>Codings::read\<close>; a run that never returned would be \<open>None\<close>.\<close>

partial_function (option) codings_loop :: "bytes \<Rightarrow> nat \<Rightarrow> Codings \<Rightarrow> Codings option" where
  "codings_loop value at c =
     (let start = skip_ows value at in
      if is_none_or (\<lambda>b. b = CHR '','') (slice_get value start) then
        (let c1 = c\<lparr>cod_empty := True\<rparr>
         in if start = length value then Some c1 else codings_loop value (start + 1) c1)
      else
        (case read_coding value start of
           (chunked, valid, at3) \<Rightarrow>
             (let c1 = note_coding c chunked valid
              in if \<not> valid \<or> at3 = length value then Some c1 else codings_loop value (at3 + 1) c1)))"

declare codings_loop.simps [code]

definition codings_read :: "Codings \<Rightarrow> bytes \<Rightarrow> Codings" where
  "codings_read c value = the (codings_loop value 0 c)"

definition codings_framing :: "Codings \<Rightarrow> bool \<Rightarrow> RemoteProtocolError + Framing" where
  "codings_framing c response =
     (if malformed c \<or> \<not> cod_any c then Inl (remote ''invalid Transfer-Encoding field'' (Some 400))
      else if response \<and> \<not> last_chunked c then Inr CloseDelimited
      else if \<not> last_chunked c \<or> chunked_before_last c then
        Inl (remote ''chunked must be the final transfer coding'' (Some 400))
      else if other_before_last c \<and> \<not> response then
        Inl (remote ''only Transfer-Encoding: chunked is supported'' (Some 501))
      else Inr Chunked)"

section \<open>The fields of a section\<close>

record Fields =
  hosts :: nat
  fld_valid_host :: bool
  host_at :: nat
  codings :: "Codings option"
  fld_length :: "(string + nat) option"
  lengths :: nat
  fld_close :: bool
  fld_keep_alive :: bool
  fld_upgrade :: bool
  connection_te :: bool
  expect_continue :: bool
  upgrade_field :: bool
  te_field :: bool
  te_chunked :: bool
  empty_elements :: bool

definition fields_default :: Fields where
  "fields_default = \<lparr>hosts = 0, fld_valid_host = False, host_at = 0, codings = None, fld_length = None,
     lengths = 0, fld_close = False, fld_keep_alive = False, fld_upgrade = False, connection_te = False,
     expect_continue = False, upgrade_field = False, te_field = False, te_chunked = False,
     empty_elements = False\<rparr>"

definition note_empty :: "Fields \<Rightarrow> bytes \<Rightarrow> bool \<Rightarrow> Fields" where
  "note_empty f value quoting =
     f\<lparr>empty_elements := (empty_elements f
        \<or> trim_ows value \<noteq> [] \<and> list_ex (\<lambda>e. e = []) (elements value quoting))\<rparr>"

definition scan_option :: "Fields \<Rightarrow> bytes \<Rightarrow> Fields" where
  "scan_option f option =
     f\<lparr>fld_close := (fld_close f \<or> eq_ignore_ascii_case option ''close''),
       fld_keep_alive := (fld_keep_alive f \<or> eq_ignore_ascii_case option ''keep-alive''),
       fld_upgrade := (fld_upgrade f \<or> eq_ignore_ascii_case option ''upgrade''),
       connection_te := (connection_te f \<or> eq_ignore_ascii_case option ''te'')\<rparr>"

definition scan_length :: "Fields \<Rightarrow> bytes \<Rightarrow> Fields" where
  "scan_length f element =
     (let parsed = parse_number element 10
      in f\<lparr>lengths := lengths f + 1,
           fld_length := Some (case fld_length f of
               None \<Rightarrow> (case parsed of None \<Rightarrow> Inl ''invalid Content-Length'' | Some n \<Rightarrow> Inr n)
             | Some (Inr n) \<Rightarrow>
                 (if parsed = Some n then Inr n else Inl ''conflicting Content-Length fields'')
             | Some (Inl error) \<Rightarrow> Inl error)\<rparr>)"

definition scan_field :: "Fields \<Rightarrow> nat \<times> bytes \<times> bytes \<Rightarrow> Fields" where
  "scan_field f entry =
     (case entry of (at, name, value) \<Rightarrow>
        if length name = 2 \<and> eq_ignore_ascii_case name ''te'' then
          note_empty
            (f\<lparr>te_field := True,
               te_chunked := (te_chunked f
                 \<or> list_ex (\<lambda>e. eq_ignore_ascii_case (token_name e) ''chunked'') (elements value True))\<rparr>)
            value True
        else if length name = 4 \<and> eq_ignore_ascii_case name ''host'' then
          f\<lparr>hosts := hosts f + 1, fld_valid_host := (authority_port value \<noteq> None), host_at := at\<rparr>
        else if length name = 6 \<and> eq_ignore_ascii_case name ''expect'' then
          note_empty
            (f\<lparr>expect_continue := (expect_continue f
                 \<or> list_ex (\<lambda>e. eq_ignore_ascii_case e ''100-continue'') (elements value True))\<rparr>)
            value True
        else if length name = 7 \<and> eq_ignore_ascii_case name ''upgrade'' then
          note_empty (f\<lparr>upgrade_field := True\<rparr>) value False
        else if length name = 10 \<and> eq_ignore_ascii_case name ''connection'' then
          note_empty (foldl scan_option f (elements value False)) value False
        else if length name = 14 \<and> eq_ignore_ascii_case name ''content-length'' then
          foldl scan_length f (elements value False)
        else if length name = 17 \<and> eq_ignore_ascii_case name ''transfer-encoding'' then
          f\<lparr>codings := Some (codings_read
               (case codings f of None \<Rightarrow> codings_default | Some c \<Rightarrow> c) value)\<rparr>
        else f)"

definition scan :: "Headers \<Rightarrow> Fields" where
  "scan h = foldl scan_field fields_default (enumerate 0 (headers_iter h))"

definition check_send :: "Fields \<Rightarrow> LocalProtocolError + unit" where
  "check_send f =
     (if empty_elements f \<or> is_some_and cod_empty (codings f) then
        Inl (local ''a connection-level list field has an empty element'')
      else if lengths f > 1 then Inl (local ''Content-Length must be a single decimal value'')
      else if upgrade_field f \<and> \<not> fld_upgrade f then Inl (local ''Upgrade requires Connection: upgrade'')
      else if te_chunked f then Inl (local ''TE cannot name the chunked coding'')
      else if te_field f \<and> \<not> connection_te f then Inl (local ''TE requires Connection: TE'')
      else Inr ())"

definition has_framing :: "Fields \<Rightarrow> bool" where
  "has_framing f \<longleftrightarrow> codings f \<noteq> None \<or> fld_length f \<noteq> None"

definition has_transfer_encoding :: "Fields \<Rightarrow> bool" where
  "has_transfer_encoding f \<longleftrightarrow> codings f \<noteq> None"

definition valid_host :: "Fields \<Rightarrow> Version \<Rightarrow> bool" where
  "valid_host f version \<longleftrightarrow>
     (if hosts f = 0 then version = Http10 else if hosts f = 1 then fld_valid_host f else False)"

definition persistent :: "Fields \<Rightarrow> Version \<Rightarrow> bool" where
  "persistent f version \<longleftrightarrow> \<not> fld_close f \<and> (version = Http11 \<or> fld_keep_alive f)"

definition expects_continue :: "Fields \<Rightarrow> Version \<Rightarrow> Framing \<Rightarrow> bool" where
  "expects_continue f version framing \<longleftrightarrow> version = Http11 \<and> framing \<noteq> Fixed 0 \<and> expect_continue f"

definition framing :: "Fields \<Rightarrow> Version \<Rightarrow> bool \<Rightarrow> RemoteProtocolError + Framing" where
  "framing f version response =
     (case (codings f, fld_length f) of
        (Some _, Some _) \<Rightarrow>
          Inl (remote ''Transfer-Encoding and Content-Length cannot be combined'' (Some 400))
      | (Some c, None) \<Rightarrow>
          (if version = Http10 then Inl (remote ''Transfer-Encoding is not valid HTTP/1.0 framing'' (Some 400))
           else codings_framing c response)
      | (None, Some (Inr n)) \<Rightarrow> Inr (Fixed n)
      | (None, Some (Inl m)) \<Rightarrow> Inl (remote m (Some 400))
      | (None, None) \<Rightarrow> if response then Inr CloseDelimited else Inr (Fixed 0))"

section \<open>Validation before sending\<close>

definition validate_headers :: "Headers \<Rightarrow> LocalProtocolError + unit" where
  "validate_headers h =
     (if \<not> headers_is_valid h then Inl (local ''invalid HTTP header field'') else Inr ())"

definition validate_reason :: "bytes \<Rightarrow> LocalProtocolError + unit" where
  "validate_reason reason =
     (if list_all is_line_value_byte reason then Inr () else Inl (local ''invalid HTTP reason phrase''))"

definition forbidden_trailers :: "bytes list" where
  "forbidden_trailers = [''content-length'', ''transfer-encoding'', ''host'', ''connection'',
     ''trailer'', ''upgrade'', ''expect'', ''te'']"

definition validate_trailers :: "Headers \<Rightarrow> LocalProtocolError + unit" where
  "validate_trailers trailers =
     (case validate_headers trailers of
        Inl e \<Rightarrow> Inl e
      | Inr _ \<Rightarrow>
          if list_ex (\<lambda>(name, _). list_ex (\<lambda>forbidden. eq_ignore_ascii_case name forbidden) forbidden_trailers)
               (headers_iter trailers)
          then Inl (local ''field is not permitted in an HTTP trailer'')
          else Inr ())"

definition validate_request :: "Request \<Rightarrow> Fields \<Rightarrow> LocalProtocolError + unit" where
  "validate_request request f =
     (if \<not> valid_request_target (as_bytes (req_method request)) (req_target request) then
        Inl (local ''invalid request target for the request method'')
      else case validate_headers (req_headers request) of
             Inl e \<Rightarrow> Inl e
           | Inr _ \<Rightarrow>
               (case check_send f of
                  Inl e \<Rightarrow> Inl e
                | Inr _ \<Rightarrow>
                    if \<not> valid_host f Http11 then
                      Inl (local ''request has a missing, duplicate, or invalid Host field'')
                    else Inr ()))"

section \<open>Transfer codings: the loop ends\<close>

lemma parameter_step_le:
  assumes "at < length v" and "parameter_step v at = (True, at')"
  shows "at' \<le> length v"
proof -
  let ?name = "skip_ows v (at + 1)"
  let ?at1 = "skip_ows v (token_end v ?name)"
  let ?par = "skip_ows v (?at1 + 1)"
  let ?at2 = "if slice_get v ?par = Some DQUOTE
              then (case parse_quoted_string v ?par of None \<Rightarrow> ?par | Some e \<Rightarrow> e) else token_end v ?par"
  have at2: "?par < ?at2" and at': "at' = skip_ows v ?at2"
    using assms(2) unfolding parameter_step_def Let_def Pair_inject simp_thms by blast+
  have "?at2 \<le> length v"
  proof (cases "slice_get v ?par = Some DQUOTE")
    case True
    with at2 show ?thesis
      using parse_quoted_string_bounds [of v ?par] by (auto split: option.splits)
  next
    case False
    with at2 show ?thesis
      using token_end_le [of ?par v] token_end_beyond [of v ?par] by (cases "?par \<le> length v") auto
  qed
  then show ?thesis unfolding at' by (rule skip_ows_le)
qed

lemma read_parameters_ge: "read_parameters v valid ps at = (valid', ps', at') \<Longrightarrow> at \<le> at'"
proof (induction v valid ps at rule: read_parameters.induct)
  case (1 v valid ps at)
  show ?case
  proof (cases "valid \<and> slice_get v at = Some CHR '';''")
    case True
    obtain ok i where step: "parameter_step v at = (ok, i)" by fastforce
    with True parameter_step_advances [of at v] have "at < i" by simp
    moreover have "i \<le> at'"
      using 1 True step by (subst (asm) (2) read_parameters.simps) simp
    ultimately show ?thesis by simp
  next
    case False
    with 1(2) show ?thesis by (subst (asm) read_parameters.simps) auto
  qed
qed

lemma read_parameters_le:
  "read_parameters v valid ps at = (True, ps', at') \<Longrightarrow> at \<le> length v \<Longrightarrow> at' \<le> length v"
proof (induction v valid ps at rule: read_parameters.induct)
  case (1 v valid ps at)
  show ?case
  proof (cases "valid \<and> slice_get v at = Some CHR '';''")
    case True
    obtain ok i where step: "parameter_step v at = (ok, i)" by fastforce
    from 1(2) True step have run: "read_parameters v ok True i = (True, ps', at')"
      by (subst (asm) read_parameters.simps) simp
    then have ok by (subst (asm) read_parameters.simps) (auto split: if_splits)
    with True step parameter_step_le [of at v i] have "i \<le> length v" by simp
    with 1(1) [OF True step [symmetric]] run show ?thesis by simp
  next
    case False
    with 1(2,3) show ?thesis by (subst (asm) read_parameters.simps) auto
  qed
qed

lemma read_parameters_none:
  "read_parameters v valid ps at = (valid', False, at') \<Longrightarrow> at' = at \<and> valid' = valid"
proof (induction v valid ps at rule: read_parameters.induct)
  case (1 v valid ps at)
  show ?case
  proof (cases "valid \<and> slice_get v at = Some CHR '';''")
    case True
    obtain ok i where step: "parameter_step v at = (ok, i)" by fastforce
    from 1(2) True step have "read_parameters v ok True i = (valid', False, at')"
      by (subst (asm) read_parameters.simps) simp
    moreover have "fst (snd (read_parameters v ok True j))" for j ok
    proof (induction v ok True j rule: read_parameters.induct)
      case (1 v ok j)
      then show ?case by (subst read_parameters.simps) (auto split: prod.splits)
    qed
    ultimately show ?thesis by (metis fst_conv snd_conv)
  next
    case False
    with 1(2) show ?thesis by (subst (asm) read_parameters.simps) auto
  qed
qed

lemma read_coding_bounds:
  assumes "start < length v" and "read_coding v start = (ch, True, at)"
  shows "start < at \<and> at \<le> length v"
proof -
  let ?at1 = "token_end v start"
  let ?at2 = "skip_ows v ?at1"
  from assms(2) obtain ps where run: "read_parameters v (?at1 > start) False ?at2 = (True, ps, at)"
    by (auto simp: read_coding_def Let_def split: prod.splits)
  from run have "start < ?at1" by (subst (asm) read_parameters.simps) (auto split: if_splits)
  moreover have "?at2 \<le> length v" using assms(1) token_end_le [of start v] by (intro skip_ows_le) simp
  ultimately show ?thesis
    using read_parameters_ge [OF run] read_parameters_le [OF run] skip_ows_ge [of ?at1 v] by linarith
qed

text \<open>The loop, turn by turn.\<close>

lemma codings_loop_empty:
  "skip_ows v at = length v \<Longrightarrow> codings_loop v at c = Some (c\<lparr>cod_empty := True\<rparr>)"
  by (subst codings_loop.simps) (simp add: Let_def slice_get_def)

lemma codings_loop_comma:
  "slice_get v (skip_ows v at) = Some CHR '','' \<Longrightarrow>
   codings_loop v at c = codings_loop v (skip_ows v at + 1) (c\<lparr>cod_empty := True\<rparr>)"
  by (subst codings_loop.simps) (simp add: Let_def slice_get_def split: if_splits)

lemma codings_loop_coding:
  "slice_get v (skip_ows v at) = Some b \<Longrightarrow> b \<noteq> CHR '','' \<Longrightarrow> read_coding v (skip_ows v at) = (ch, ok, i) \<Longrightarrow>
   codings_loop v at c =
     (if \<not> ok \<or> i = length v then Some (note_coding c ch ok) else codings_loop v (i + 1) (note_coding c ch ok))"
  by (subst codings_loop.simps) (simp add: Let_def slice_get_def split: if_splits)

lemma codings_loop_total: "at \<le> length v \<Longrightarrow> \<exists>c'. codings_loop v at c = Some c'"
proof (induction "length v - at" arbitrary: at c rule: less_induct)
  case less
  let ?start = "skip_ows v at"
  have start: "at \<le> ?start" "?start \<le> length v"
    using less.prems skip_ows_ge skip_ows_le by auto
  show ?case
  proof (cases "slice_get v ?start")
    case None
    with start show ?thesis by (simp add: codings_loop_empty)
  next
    case (Some b)
    show ?thesis
    proof (cases "b = CHR '',''")
      case True
      have "length v - (?start + 1) < length v - at" "?start + 1 \<le> length v" using Some start by auto
      from less.hyps [OF this] Some True show ?thesis by (simp add: codings_loop_comma)
    next
      case False
      obtain ch ok i where r: "read_coding v ?start = (ch, ok, i)" by (cases "read_coding v ?start")
      have "ok \<Longrightarrow> at < i \<and> i \<le> length v" using Some start r read_coding_bounds [of ?start v ch i] by auto
      with less.hyps [of "i + 1"] show ?thesis
        by (cases "ok \<and> i < length v") (auto simp: codings_loop_coding [OF Some False r])
    qed
  qed
qed

lemma codings_read_loop: "codings_loop v 0 c = Some (codings_read c v)"
  using codings_loop_total [of 0 v c] by (auto simp: codings_read_def)

section \<open>Transfer codings: what an accepted list says\<close>

text \<open>The elements of a list that are not empty: its transfer codings, with their parameters.\<close>

definition named :: "bytes \<Rightarrow> bytes list" where
  "named v = filter (\<lambda>e. e \<noteq> []) (elements v False)"

definition clean :: "Codings \<Rightarrow> bool" where
  "clean c \<longleftrightarrow> \<not> malformed c \<and> \<not> chunked_before_last c \<and> \<not> other_before_last c
     \<and> (cod_any c \<longrightarrow> last_chunked c)"

lemma elements_ows: "list_all is_ows ws \<Longrightarrow> elements (ws @ v) False = elements v False"
proof (induction ws)
  case (Cons b ws)
  then have "b \<noteq> CHR '',''" "is_ows b" by (auto simp: is_ows_def)
  with Cons show ?case
    by (cases "split_slice (\<lambda>b. b = CHR '','') (ws @ v)") (simp_all add: elements_plain trim_ows_def)
qed simp

lemma named_skip: "at \<le> length v \<Longrightarrow> named (drop at v) = named (drop (skip_ows v at) v)"
  using skip_ows_drop [of at v] by (auto simp: named_def elements_ows)

lemma trim_ows_Nil: "trim_ows [] = []"
  by (simp add: trim_ows_id)

lemma named_Nil: "named [] = []"
  by (simp add: named_def elements_plain trim_ows_Nil)

lemma named_comma: "slice_get v i = Some CHR '','' \<Longrightarrow> named (drop i v) = named (drop (i + 1) v)"
  by (auto simp: named_def elements_plain trim_ows_Nil Cons_nth_drop_Suc [symmetric])

lemma trim_ows_end_append: "list_all is_ows ws \<Longrightarrow> trim_ows_end (x @ ws) = trim_ows_end x"
proof (induction ws rule: rev_induct)
  case (snoc b ws)
  then have "trim_ows_end (x @ ws @ [b]) = trim_ows_end (x @ ws)"
    by (subst trim_ows_end.simps) (simp add: last_opt_def)
  with snoc show ?case by simp
qed simp

lemma trim_ows_append: "trimmed x \<Longrightarrow> list_all is_ows ws \<Longrightarrow> trim_ows (x @ ws) = x"
proof -
  assume x: "trimmed x" and ws: "list_all is_ows ws"
  from x have "trim_ows_start (x @ ws) = x @ ws" by (intro trim_ows_start_id) (simp add: trimmed_def)
  moreover from x have "trim_ows_end x = x" by (intro trim_ows_end_id) (simp add: trimmed_def)
  ultimately show ?thesis using trim_ows_end_append [OF ws, of x] by (simp only: trim_ows_def)
qed

text \<open>A trimmed name, whitespace and then the end of the value or a comma: one element.\<close>

lemma named_name:
  assumes "trimmed x" and "list_all is_ows ws"
  shows "named (x @ ws) = [x]" and "named (x @ ws @ CHR '','' # v) = x # named v"
proof -
  have "\<not> is_ows CHR '',''" by (simp add: is_ows_def)
  then have "CHR '','' \<notin> set ws" using assms(2) unfolding list_all_iff by blast
  then have no: "\<forall>b \<in> set (x @ ws). \<not> (b = CHR '','')" using assms(1) by (auto simp: trimmed_def)
  have x: "x \<noteq> []" using assms(1) by (simp add: trimmed_def)
  show "named (x @ ws) = [x]"
    using x by (simp add: named_def elements_plain split_slice_none [OF no] trim_ows_append [OF assms])
  show "named (x @ ws @ CHR '','' # v) = x # named v"
    using x split_slice_sep [OF no, of "CHR '',''" v] by (simp add: named_def elements_plain trim_ows_append [OF assms])
qed

lemma eq_chunked_trimmed:
  assumes "eq_ignore_ascii_case name ''chunked''"
  shows "trimmed name"
proof -
  have "\<not> is_ows b \<and> b \<noteq> CHR '',''" if "b \<in> set name" for b
  proof -
    have "to_ascii_lowercase b \<in> set (map to_ascii_lowercase ''chunked'')"
      using that assms unfolding eq_ignore_ascii_case_def by (metis imageI set_map)
    then show ?thesis by (auto simp: byte_defs)
  qed
  moreover have "name \<noteq> []" using eq_ignore_ascii_case_length [OF assms] by auto
  ultimately show ?thesis by (auto simp: trimmed_def)
qed

lemma clean_note: "clean (note_coding c ch ok) \<longleftrightarrow> clean c \<and> \<not> cod_any c \<and> ch \<and> ok"
  by (auto simp: clean_def note_coding_def Let_def)

lemma read_coding_chunked:
  assumes "start < length v" and "read_coding v start = (True, True, at)"
  shows "\<exists>name. eq_ignore_ascii_case name ''chunked'' \<and>
     named (drop start v) = name # (if at = length v then [] else named (drop (at + 1) v))"
proof -
  let ?at1 = "token_end v start"
  let ?name = "slice v start ?at1"
  from assms(2) obtain ok ps where run: "read_parameters v (?at1 > start) False (skip_ows v ?at1) = (ok, ps, at)"
      and name: "eq_ignore_ascii_case ?name ''chunked''" and "\<not> (ps \<and> is_registered_coding ?name)"
      and next_is: "is_none_or (\<lambda>b. b = CHR '','') (slice_get v at)"
    by (auto simp: read_coding_def Let_def split: prod.splits)
  then have "\<not> ps" by (auto simp: is_registered_coding_def)
  with run have at: "at = skip_ows v ?at1" using read_parameters_none [of v _ False] by simp
  have le: "start \<le> ?at1" "?at1 \<le> length v" using assms(1) token_end_ge token_end_le by auto
  from skip_ows_drop [OF le(2)] obtain ws where ws: "list_all is_ows ws" "drop ?at1 v = ws @ drop at v" unfolding at by blast
  have "drop start v = ?name @ drop ?at1 v"
    using le by (simp add: slice_def) (metis append_take_drop_id drop_drop le_add_diff_inverse2)
  then have split: "drop start v = ?name @ ws @ drop at v" by (simp add: ws(2))
  note named = named_name [OF eq_chunked_trimmed [OF name] ws(1)]
  have "at \<le> length v" using le(2) by (simp add: at skip_ows_le)
  then consider "at = length v" | "at < length v" "v ! at = CHR '',''"
    using next_is by (fastforce simp: slice_get_def split: if_splits)
  then show ?thesis
  proof cases
    case 1
    with named(1) name split show ?thesis by auto
  next
    case 2
    then have "drop at v = CHR '','' # drop (at + 1) v" by (simp add: Cons_nth_drop_Suc [symmetric])
    with 2 named(2) name split show ?thesis by auto
  qed
qed

text \<open>
  A clean list adds no element to codings that already hold the one coding, and none or the
  single element \<open>chunked\<close> otherwise.
\<close>

definition adds :: "Codings \<Rightarrow> bytes list \<Rightarrow> Codings \<Rightarrow> bool" where
  "adds c es c' \<longleftrightarrow> clean c \<and>
     (if cod_any c = cod_any c' then es = []
      else cod_any c' \<and> (\<exists>e. es = [e] \<and> eq_ignore_ascii_case e ''chunked''))"

lemma codings_loop_clean:
  "codings_loop v at c = Some c' \<Longrightarrow> at \<le> length v \<Longrightarrow> clean c' \<Longrightarrow> adds c (named (drop at v)) c'"
proof (induction "length v - at" arbitrary: at c rule: less_induct)
  case less
  let ?start = "skip_ows v at"
  have start: "at \<le> ?start" "?start \<le> length v" using less.prems skip_ows_ge skip_ows_le by auto
  have sig: "named (drop at v) = named (drop ?start v)" using less.prems by (intro named_skip)
  show ?case
  proof (cases "slice_get v ?start")
    case None
    then have "named (drop ?start v) = []" by (simp add: named_Nil)
    with None less.prems start show ?thesis
      by (auto simp: codings_loop_empty sig adds_def clean_def)
  next
    case (Some b)
    show ?thesis
    proof (cases "b = CHR '',''")
      case True
      have "length v - (?start + 1) < length v - at" "?start + 1 \<le> length v" using Some start by auto
      from less.hyps [OF this(1) _ this(2), of "c\<lparr>cod_empty := True\<rparr>"] less.prems Some True show ?thesis
        by (simp add: codings_loop_comma sig named_comma adds_def clean_def split: if_splits)
    next
      case False
      obtain ch ok i where r: "read_coding v ?start = (ch, ok, i)" by (cases "read_coding v ?start")
      let ?c = "note_coding c ch ok"
      have adds: "adds ?c (if ok \<and> i \<noteq> length v then named (drop (i + 1) v) else []) c'"
      proof (cases "ok \<and> i \<noteq> length v")
        case True
        with read_coding_bounds [of ?start v ch i] r start Some
        have "length v - (i + 1) < length v - at" "i + 1 \<le> length v" by auto
        from less.hyps [OF this(1) _ this(2)] less.prems True show ?thesis
          by (simp add: codings_loop_coding [OF Some False r])
      next
        case False
        with less.prems show ?thesis
          by (auto simp: codings_loop_coding [OF Some \<open>b \<noteq> _\<close> r] adds_def)
      qed
      then have ok: "clean c" "\<not> cod_any c" ch ok by (auto simp: adds_def clean_note)
      have any: "cod_any ?c" by (simp add: note_coding_def Let_def)
      with adds have rest: "cod_any c'" "i \<noteq> length v \<Longrightarrow> named (drop (i + 1) v) = []"
        using ok by (auto simp: adds_def split: if_splits)
      with read_coding_chunked [of ?start v i] r ok Some obtain name
        where "eq_ignore_ascii_case name ''chunked''" "named (drop ?start v) = [name]" by (auto split: if_splits)
      with rest ok show ?thesis by (auto simp: adds_def sig)
    qed
  qed
qed

lemma codings_read_clean: "clean (codings_read c v) \<Longrightarrow> adds c (named v) (codings_read c v)"
  using codings_loop_clean [OF codings_read_loop, of v c] by simp


lemma adds_trans: "adds c s c1 \<Longrightarrow> adds c1 s' c' \<Longrightarrow> adds c (s @ s') c'"
  by (auto simp: adds_def split: if_splits)

section \<open>What the scan collects\<close>

definition values_of :: "(bytes \<times> bytes) list \<Rightarrow> bytes \<Rightarrow> bytes list" where
  "values_of fs name = map snd (filter (\<lambda>(field, _). eq_ignore_ascii_case field name) fs)"

definition list_elements :: "bytes list \<Rightarrow> bytes list" where
  "list_elements vs = concat (map (\<lambda>v. elements v False) vs)"

definition read_coding_value :: "Codings option \<Rightarrow> bytes \<Rightarrow> Codings option" where
  "read_coding_value c v = Some (codings_read (case c of None \<Rightarrow> codings_default | Some c \<Rightarrow> c) v)"

lemma values_of_simps [simp]:
  "values_of [] name = []"
  "values_of ((n, v) # fs) name = (if eq_ignore_ascii_case n name then v # values_of fs name else values_of fs name)"
  by (simp_all add: values_of_def)

lemma list_elements_simps [simp]:
  "list_elements [] = []" "list_elements (v # vs) = elements v False @ list_elements vs"
  by (simp_all add: list_elements_def)

lemma list_elements_Nil [simp]: "list_elements vs = [] \<longleftrightarrow> vs = []"
  by (cases vs) auto

lemma get_all_values: "get_all h name = values_of (headers_iter h) name"
  by (simp add: get_all_def values_of_def)

lemma has_field_iff: "has_field h name \<longleftrightarrow> get_all h name \<noteq> []"
  by (auto simp: has_field_def first_def split: list.splits)

lemma has_token_iff:
  "has_token h name token \<longleftrightarrow> list_ex (\<lambda>e. eq_ignore_ascii_case e token) (list_elements (get_all h name))"
  by (simp add: has_token_def list_elements_def)

lemma foldl_scan_option [simp]:
  "codings (foldl scan_option f es) = codings f" "fld_length (foldl scan_option f es) = fld_length f"
  "hosts (foldl scan_option f es) = hosts f"
  "fld_close (foldl scan_option f es) \<longleftrightarrow> fld_close f \<or> list_ex (\<lambda>e. eq_ignore_ascii_case e ''close'') es"
  "fld_keep_alive (foldl scan_option f es) \<longleftrightarrow>
     fld_keep_alive f \<or> list_ex (\<lambda>e. eq_ignore_ascii_case e ''keep-alive'') es"
  by (induction es arbitrary: f) (simp_all add: scan_option_def disj_assoc)

lemma foldl_scan_length [simp]:
  "codings (foldl scan_length f es) = codings f"
  "hosts (foldl scan_length f es) = hosts f"
  "fld_close (foldl scan_length f es) = fld_close f"
  "fld_keep_alive (foldl scan_length f es) = fld_keep_alive f"
  by (induction es arbitrary: f) (simp_all add: scan_length_def Let_def)

definition length_step :: "(string + nat) option \<Rightarrow> bytes \<Rightarrow> (string + nat) option" where
  "length_step l element = fld_length (scan_length (fields_default\<lparr>fld_length := l\<rparr>) element)"

lemma fld_length_scan_length: "fld_length (foldl scan_length f es) = foldl length_step (fld_length f) es"
  by (induction es arbitrary: f) (simp_all add: length_step_def scan_length_def Let_def fields_default_def)

lemmas scan_field_simps = scan_field_def note_empty_def

lemma scan_field_codings:
  "codings (scan_field f (i, name, v)) =
     (if eq_ignore_ascii_case name ''transfer-encoding'' then read_coding_value (codings f) v else codings f)"
  by (auto simp: scan_field_simps read_coding_value_def dest: eq_ignore_ascii_case_length)

lemma scan_field_length:
  "fld_length (scan_field f (i, name, v)) =
     (if eq_ignore_ascii_case name ''content-length''
      then foldl length_step (fld_length f) (elements v False) else fld_length f)"
  by (auto simp: scan_field_simps fld_length_scan_length dest: eq_ignore_ascii_case_length)

lemma scan_field_close:
  "fld_close (scan_field f (i, name, v)) \<longleftrightarrow>
     fld_close f \<or> eq_ignore_ascii_case name ''connection''
       \<and> list_ex (\<lambda>e. eq_ignore_ascii_case e ''close'') (elements v False)"
  by (auto simp: scan_field_simps dest: eq_ignore_ascii_case_length)

lemma scan_field_keep_alive:
  "fld_keep_alive (scan_field f (i, name, v)) \<longleftrightarrow>
     fld_keep_alive f \<or> eq_ignore_ascii_case name ''connection''
       \<and> list_ex (\<lambda>e. eq_ignore_ascii_case e ''keep-alive'') (elements v False)"
  by (auto simp: scan_field_simps dest: eq_ignore_ascii_case_length)

lemma foldl_scan_field:
  "codings (foldl scan_field f (enumerate k fs))
     = foldl read_coding_value (codings f) (values_of fs ''transfer-encoding'')"
  "fld_length (foldl scan_field f (enumerate k fs))
     = foldl length_step (fld_length f) (list_elements (values_of fs ''content-length''))"
  "fld_close (foldl scan_field f (enumerate k fs)) \<longleftrightarrow>
     fld_close f \<or> list_ex (\<lambda>e. eq_ignore_ascii_case e ''close'') (list_elements (values_of fs ''connection''))"
  "fld_keep_alive (foldl scan_field f (enumerate k fs)) \<longleftrightarrow>
     fld_keep_alive f
     \<or> list_ex (\<lambda>e. eq_ignore_ascii_case e ''keep-alive'') (list_elements (values_of fs ''connection''))"
  subgoal by (induction fs arbitrary: f k) (simp_all add: split_paired_all scan_field_codings)
  subgoal by (induction fs arbitrary: f k) (simp_all add: split_paired_all scan_field_length)
  subgoal by (induction fs arbitrary: f k) (simp_all add: split_paired_all scan_field_close disj_assoc)
  subgoal by (induction fs arbitrary: f k) (simp_all add: split_paired_all scan_field_keep_alive disj_assoc)
  done

lemma scan_facts:
  "codings (scan h) = foldl read_coding_value None (get_all h ''transfer-encoding'')"
  "fld_length (scan h) = foldl length_step None (list_elements (get_all h ''content-length''))"
  "fld_close (scan h) \<longleftrightarrow> has_token h ''connection'' ''close''"
  "fld_keep_alive (scan h) \<longleftrightarrow> has_token h ''connection'' ''keep-alive''"
  by (simp_all add: scan_def foldl_scan_field get_all_values has_token_iff)
     (simp_all add: fields_default_def)

lemma codings_None_iff: "codings (scan h) = None \<longleftrightarrow> get_all h ''transfer-encoding'' = []"
proof -
  have "foldl read_coding_value (Some c) vs \<noteq> None" for c vs
    by (induction vs arbitrary: c) (auto simp: read_coding_value_def)
  then show ?thesis
    by (cases "get_all h ''transfer-encoding''") (auto simp: scan_facts read_coding_value_def)
qed

lemma length_step_simps [simp]:
  "length_step None e =
     Some (case parse_number e 10 of None \<Rightarrow> Inl ''invalid Content-Length'' | Some n \<Rightarrow> Inr n)"
  "length_step (Some (Inl m)) e = Some (Inl m)"
  "length_step (Some (Inr n)) e =
     Some (if parse_number e 10 = Some n then Inr n else Inl ''conflicting Content-Length fields'')"
  by (simp_all add: length_step_def scan_length_def Let_def fields_default_def)

lemma length_steps_Inl [simp]: "foldl length_step (Some (Inl m)) es = Some (Inl m)"
  by (induction es) simp_all

lemma length_steps_Inr:
  "foldl length_step (Some (Inr n)) es =
     Some (if list_all (\<lambda>e. parse_number e 10 = Some n) es then Inr n
           else Inl ''conflicting Content-Length fields'')"
  by (induction es) simp_all

lemma length_steps_Some: "foldl length_step (Some l) es \<noteq> None"
  by (cases l) (simp_all add: length_steps_Inr)

lemma fld_length_None_iff: "fld_length (scan h) = None \<longleftrightarrow> get_all h ''content-length'' = []"
proof (cases "list_elements (get_all h ''content-length'')")
  case Nil
  then show ?thesis by (simp add: scan_facts)
next
  case (Cons e es)
  then have "get_all h ''content-length'' \<noteq> []" by auto
  with Cons show ?thesis by (simp only: scan_facts foldl_Cons length_step_simps length_steps_Some)
qed

lemma fld_length_Inr:
  "fld_length (scan h) = Some (Inr n) \<longleftrightarrow>
     get_all h ''content-length'' \<noteq> []
     \<and> list_all (\<lambda>e. parse_number e 10 = Some n) (list_elements (get_all h ''content-length''))"
proof (cases "list_elements (get_all h ''content-length'')")
  case Nil
  then show ?thesis by (simp add: scan_facts)
next
  case (Cons e es)
  then have "get_all h ''content-length'' \<noteq> []" by auto
  with Cons show ?thesis
    by (auto simp: scan_facts length_steps_Inr split: option.splits if_splits)
qed

lemma read_coding_values_clean:
  "foldl read_coding_value (Some c) vs = Some c' \<Longrightarrow> clean c' \<Longrightarrow> adds c (concat (map named vs)) c'"
proof (induction vs arbitrary: c)
  case Nil
  then show ?case by (simp add: adds_def)
next
  case (Cons v vs)
  then have "adds (codings_read c v) (concat (map named vs)) c'" by (simp add: read_coding_value_def)
  moreover from this have "adds c (named v) (codings_read c v)"
    by (intro codings_read_clean) (simp add: adds_def)
  ultimately show ?case using adds_trans by fastforce
qed

lemma named_list: "filter (\<lambda>e. e \<noteq> []) (list_elements vs) = concat (map named vs)"
  by (induction vs) (simp_all add: named_def)

lemma request_codings_exact:
  assumes "codings (scan h) = Some c" and "codings_framing c False = Inr Chunked"
  shows "\<exists>e. filter (\<lambda>e. e \<noteq> []) (list_elements (get_all h ''transfer-encoding'')) = [e] \<and> eq_ignore_ascii_case e ''chunked''"
proof -
  from assms(2) have c: "clean c" "cod_any c"
    by (auto simp: codings_framing_def clean_def split: if_splits)
  from assms(1) obtain v vs where vs: "get_all h ''transfer-encoding'' = v # vs"
    using codings_None_iff [of h] by (cases "get_all h ''transfer-encoding''") auto
  with assms(1) have "foldl read_coding_value (Some codings_default) (v # vs) = Some c"
    by (simp add: scan_facts read_coding_value_def)
  from read_coding_values_clean [OF this c(1)] c(2) vs show ?thesis
    by (simp add: adds_def codings_default_def named_list del: list_elements_simps)
qed

lemma framing_cases:
  "framing (scan h) v r = Inr Chunked \<Longrightarrow>
     v = Http11 \<and> get_all h ''content-length'' = []
     \<and> (\<exists>c. codings (scan h) = Some c \<and> codings_framing c r = Inr Chunked)"
  "framing (scan h) v r = Inr (Fixed n) \<Longrightarrow>
     get_all h ''transfer-encoding'' = []
     \<and> (if get_all h ''content-length'' = [] then \<not> r \<and> n = 0
        else list_all (\<lambda>e. parse_number e 10 = Some n) (list_elements (get_all h ''content-length'')))"
  "framing (scan h) v r = Inr CloseDelimited \<Longrightarrow> r \<and> get_all h ''content-length'' = []"
proof -
  have fixed: "codings_framing c r \<noteq> Inr (Fixed n)" for c by (simp add: codings_framing_def)
  have v: "v \<noteq> Http10 \<longleftrightarrow> v = Http11" by (cases v) auto
  show "framing (scan h) v r = Inr Chunked \<Longrightarrow> v = Http11 \<and> get_all h ''content-length'' = []
     \<and> (\<exists>c. codings (scan h) = Some c \<and> codings_framing c r = Inr Chunked)"
    using v fld_length_None_iff [of h]
    by (auto simp: framing_def split: option.splits sum.splits if_splits)
  show "framing (scan h) v r = Inr (Fixed n) \<Longrightarrow> get_all h ''transfer-encoding'' = []
     \<and> (if get_all h ''content-length'' = [] then \<not> r \<and> n = 0
        else list_all (\<lambda>e. parse_number e 10 = Some n) (list_elements (get_all h ''content-length'')))"
    using fixed codings_None_iff [of h] fld_length_None_iff [of h] fld_length_Inr [of h n]
    by (auto simp: framing_def split: option.splits sum.splits if_splits)
  show "framing (scan h) v r = Inr CloseDelimited \<Longrightarrow> r \<and> get_all h ''content-length'' = []"
    using fld_length_None_iff [of h]
    by (auto simp: framing_def codings_framing_def split: option.splits sum.splits if_splits)
qed


section \<open>The persistence option\<close>

lemma trimmed_options: "list_all trimmed (connection_options h)"
  using elements_trimmed by (fastforce simp: connection_options_def list_all_iff)

lemma values_of_append: "values_of (fs @ gs) name = values_of fs name @ values_of gs name"
  by (simp add: values_of_def)

lemma set_connection_option_iter:
  assumes "headers_inv h"
  shows "headers_iter (set_connection_option h opt)
     = filter (\<lambda>(n, _). \<not> eq_ignore_ascii_case n ''connection'') (headers_iter h)
       @ [(''Connection'', join '', '' (connection_options h @ [opt]))]"
  using headers.replace_iter [OF assms] by (simp add: set_connection_option_def Let_def)

lemma set_connection_option_inv: "headers_inv h \<Longrightarrow> headers_inv (set_connection_option h opt)"
  by (simp add: set_connection_option_def Let_def headers.push_inv headers.retain_inv)

lemma eq_Connection: "eq_ignore_ascii_case ''Connection'' ''connection''"
  by code_simp

lemma set_connection_option_elements:
  assumes "headers_inv h" and "trimmed opt"
  shows "list_elements (get_all (set_connection_option h opt) ''connection'') = connection_options h @ [opt]"
proof -
  have "values_of (filter (\<lambda>(n, _). \<not> eq_ignore_ascii_case n ''connection'') fs) ''connection'' = []" for fs
    by (induction fs) auto
  then have "get_all (set_connection_option h opt) ''connection'' = [join '', '' (connection_options h @ [opt])]"
    by (simp add: get_all_values set_connection_option_iter [OF assms(1)] values_of_append eq_Connection)
  then show ?thesis using elements_join [of "connection_options h @ [opt]"] assms(2) trimmed_options [of h] by simp
qed

lemma trimmed_close: "trimmed ''close''" and trimmed_keep_alive: "trimmed ''keep-alive''"
  by (simp_all add: trimmed_def is_ows_def)

lemma options_no_persistence:
  "\<not> list_ex (\<lambda>e. eq_ignore_ascii_case e ''close'') (connection_options h)"
  "\<not> list_ex (\<lambda>e. eq_ignore_ascii_case e ''keep-alive'') (connection_options h)"
  by (auto simp: connection_options_def list_ex_iff)

lemma set_option_tokens:
  assumes "headers_inv h"
  shows "has_token (set_connection_option h ''close'') ''connection'' ''close''"
    and "\<not> has_token (set_connection_option h ''keep-alive'') ''connection'' ''close''"
    and "has_token (set_connection_option h ''keep-alive'') ''connection'' ''keep-alive''"
  using options_no_persistence [of h]
  by (simp_all add: has_token_iff set_connection_option_elements [OF assms] trimmed_close trimmed_keep_alive
        eq_ignore_ascii_case_def)

section \<open>Properties\<close>

text \<open>
  C20: message framing is never ambiguous, so two recipients cannot disagree on where a
  message ends: a chunked body means HTTP/1.1 and no Content-Length; a fixed length means no
  Transfer-Encoding, and a Content-Length list in which every element is that same number
  (or, in a request, no such field and length 0); only a response without Content-Length is
  delimited by the close.
\<close>

theorem framing_unambiguous:
  assumes "framing (scan h) v response = Inr f"
  shows "case f of
      Chunked \<Rightarrow> v = Http11 \<and> get_all h ''transfer-encoding'' \<noteq> [] \<and> get_all h ''content-length'' = []
    | Fixed n \<Rightarrow> get_all h ''transfer-encoding'' = []
        \<and> (if get_all h ''content-length'' = [] then \<not> response \<and> n = 0
           else list_all (\<lambda>e. parse_number e 10 = Some n) (list_elements (get_all h ''content-length'')))
    | CloseDelimited \<Rightarrow> response \<and> get_all h ''content-length'' = []"
  using assms framing_cases [of h v response] codings_None_iff [of h] by (cases f) auto

theorem framing_unambiguous_witness:
  "list_all (\<lambda>e. parse_number e 10 = Some 5)
     (list_elements (get_all (headers_from [(''Content-Length'', ''5, 05'')]) ''content-length''))"
proof -
  let ?h = "headers_from [(''Content-Length'', ''5, 05'')]"
  have 1: "get_all ?h ''content-length'' = [''5, 05'']" "get_all ?h ''transfer-encoding'' = []"
    by code_simp+
  have 2: "elements ''5, 05'' False = [''5'', ''05'']"
    using elements_join [of "[''5'', ''05'']"] by (simp add: trimmed_def is_ows_def)
  have "parse_number ''5'' 10 = Some 5" "parse_number ''05'' 10 = Some 5"
    by (simp_all add: parse_number_eq to_digit_def byte_defs usize_max_def)
  with 1 2 have "framing (scan ?h) Http11 False = Inr (Fixed 5)"
    using codings_None_iff [of ?h] fld_length_Inr [of ?h 5] by (simp add: framing_def)
  from framing_unambiguous [OF this] 1 show ?thesis by simp
qed

text \<open>
  C29: a request body is chunked only if \<open>chunked\<close> is the one transfer coding: of the elements
  of all Transfer-Encoding fields, taken between commas and trimmed, exactly one is not empty,
  and that one is \<open>chunked\<close>, in any case and without parameters.
\<close>

theorem request_chunked_exact:
  assumes "framing (scan h) v False = Inr Chunked"
  shows "\<exists>e. filter (\<lambda>e. e \<noteq> []) (list_elements (get_all h ''transfer-encoding'')) = [e] \<and> eq_ignore_ascii_case e ''chunked''"
  using framing_cases(1) [OF assms] request_codings_exact by blast

theorem request_chunked_exact_witness:
  "\<exists>e. filter (\<lambda>e. e \<noteq> []) (list_elements
       (get_all (headers_from [(''Transfer-Encoding'', '' ,Chunked ''), (''transfer-encoding'', '','')]) ''transfer-encoding'')) = [e]
     \<and> eq_ignore_ascii_case e ''chunked''"
proof -
  have "framing (scan (headers_from [(''Transfer-Encoding'', '' ,Chunked ''), (''transfer-encoding'', '','')])) Http11 False
      = Inr Chunked"
    by code_simp
  from request_chunked_exact [OF this] show ?thesis .
qed

text \<open>
  Reading a Transfer-Encoding list returns, whatever bytes the peer sends.
\<close>

theorem codings_read_terminates: "\<exists>c'. codings_loop v 0 c = Some c'"
  using codings_loop_total [of 0 v c] by simp

text \<open>
  C30: setting a persistence option decides persistence in both versions. The options of
  \<open>Connection\<close> are then the former ones other than \<open>close\<close> and \<open>keep-alive\<close>, in their order, and
  the new one after them; every other field is as it was, in its place among the others.
\<close>

theorem set_connection_option_decides:
  assumes "headers_inv h" and "opt = ''close'' \<or> opt = ''keep-alive''"
  shows "(persistent (scan (set_connection_option h opt)) version \<longleftrightarrow> opt = ''keep-alive'')
    \<and> list_elements (get_all (set_connection_option h opt) ''connection'')
      = filter (\<lambda>e. e \<noteq> [] \<and> \<not> eq_ignore_ascii_case e ''close'' \<and> \<not> eq_ignore_ascii_case e ''keep-alive'')
          (list_elements (get_all h ''connection'')) @ [opt]
    \<and> filter (\<lambda>(n, _). \<not> eq_ignore_ascii_case n ''connection'') (headers_iter (set_connection_option h opt))
      = filter (\<lambda>(n, _). \<not> eq_ignore_ascii_case n ''connection'') (headers_iter h)"
proof (intro conjI)
  show "persistent (scan (set_connection_option h opt)) version \<longleftrightarrow> opt = ''keep-alive''"
    using set_option_tokens [OF assms(1)] assms(2) by (auto simp: persistent_def scan_facts)
  have "trimmed opt" using assms(2) trimmed_close trimmed_keep_alive by auto
  from set_connection_option_elements [OF assms(1) this]
  show "list_elements (get_all (set_connection_option h opt) ''connection'')
      = filter (\<lambda>e. e \<noteq> [] \<and> \<not> eq_ignore_ascii_case e ''close'' \<and> \<not> eq_ignore_ascii_case e ''keep-alive'')
          (list_elements (get_all h ''connection'')) @ [opt]"
    by (simp add: connection_options_def list_elements_def)
  show "filter (\<lambda>(n, _). \<not> eq_ignore_ascii_case n ''connection'') (headers_iter (set_connection_option h opt))
      = filter (\<lambda>(n, _). \<not> eq_ignore_ascii_case n ''connection'') (headers_iter h)"
    by (simp add: set_connection_option_iter [OF assms(1)] eq_Connection)
qed

theorem set_connection_option_decides_witness:
  "\<not> persistent (scan (set_connection_option (headers_from [(''Connection'', ''keep-alive, x'')]) ''close'')) Http10
   \<and> list_elements (get_all (set_connection_option (headers_from [(''Connection'', ''close, x'')]) ''keep-alive'') ''connection'')
     = [''x'', ''keep-alive'']"
proof -
  have "filter (\<lambda>e. e \<noteq> [] \<and> \<not> eq_ignore_ascii_case e ''close'' \<and> \<not> eq_ignore_ascii_case e ''keep-alive'')
      (list_elements (get_all (headers_from [(''Connection'', ''close, x'')]) ''connection'')) = [''x'']"
    by code_simp
  with set_connection_option_decides [of "headers_from [(''Connection'', ''keep-alive, x'')]" "''close''" Http10]
    set_connection_option_decides [of "headers_from [(''Connection'', ''close, x'')]" "''keep-alive''" Http10]
  show ?thesis by simp
qed

end
