(* ===== verification/H11r_Head.thy ===== *)
theory H11r_Head
  imports H11r_Fields "HOL-Library.Multiset"
begin

text \<open>
  Start lines and field sections: parsing and serialization (\<open>wire/head.rs\<close>) and trailers
  (\<open>parse_trailers\<close> of \<open>wire/chunked.rs\<close>).

  The syntax authority, the crate \<open>httparse\<close>, is not part of the repository: it is the
  parameter \<open>httparse\<close> of the definitions, a record of the three functions they call and of
  the text of its errors. What the sources rely on (the parsed parts are slices of the input,
  in order; a complete request has a token as its method; a complete response has a status
  line of the documented form) is the predicate \<open>httparse_ok\<close>. A run of the code that would
  panic, by a failed \<open>expect\<close> or a slice out of range, is the value \<open>Panic\<close>.
\<close>

section \<open>The interface of httparse\<close>

text \<open>A slice of the input, by its offset and length.\<close>

record part =
  part_at :: nat
  part_len :: nat

record hp_header =
  hp_name :: part
  hp_value :: part

datatype hp_error = TooManyHeaders | SyntaxError nat

record hp_request =
  hpq_method :: "bytes option"
  hpq_path :: "bytes option"
  hpq_version :: "nat option"
  hpq_headers :: "hp_header list"

record hp_response =
  hpr_version :: "nat option"
  hpr_code :: "16 word option"
  hpr_headers :: "hp_header list"

record hp_config =
  obsolete_multiline_headers :: bool
  ignore_invalid_headers :: bool
  spaces_after_header_name :: bool
  multiple_spaces_in_status :: bool

text \<open>\<open>None\<close> is \<open>Status::Partial\<close>; \<open>Some (end, _)\<close> is \<open>Status::Complete(end)\<close>.\<close>

record httparse =
  hp_parse_request :: "bytes \<Rightarrow> nat \<Rightarrow> hp_error + (nat \<times> hp_request) option"
  hp_parse_response :: "hp_config \<Rightarrow> bytes \<Rightarrow> nat \<Rightarrow> hp_error + (nat \<times> hp_response) option"
  hp_parse_headers :: "bytes \<Rightarrow> nat \<Rightarrow> hp_error + (nat \<times> hp_header list) option"
  hp_display :: "hp_error \<Rightarrow> string"

definition part_end :: "part \<Rightarrow> nat" where
  "part_end p = part_at p + part_len p"

definition part_bytes :: "bytes \<Rightarrow> part \<Rightarrow> bytes" where
  "part_bytes buf p = slice buf (part_at p) (part_end p)"

datatype recv_error = Remote RemoteProtocolError | Panic

text \<open>
  The slots \<open>httparse\<close> writes the fields to: an array of \<open>DEFAULT_MAX_HEADER_COUNT\<close> of them, or a
  vector when the limit is above that. A slot is two slices, 32 bytes on a 64-bit target, and a
  vector of more than \<open>isize::MAX\<close> bytes is a panic (capacity overflow). An allocation that is
  possible at all is taken to succeed.
\<close>

definition SLOT_SIZE :: nat where
  "SLOT_SIZE = 32"

definition slots_fit :: "nat \<Rightarrow> bool" where
  "slots_fit max_headers \<longleftrightarrow>
     \<not> (max_headers > DEFAULT_MAX_HEADER_COUNT \<and> max_headers * SLOT_SIZE > isize_max)"

section \<open>Field sections\<close>

definition copy_section :: "bytes \<Rightarrow> hp_header list \<Rightarrow> recv_error + Headers" where
  "copy_section sect headers =
     (let start = (case headers of [] \<Rightarrow> 0 | h # _ \<Rightarrow> part_at (hp_name h))
      in if \<not> list_all (\<lambda>h. start \<le> part_at (hp_name h) \<and> start \<le> part_at (hp_value h)) headers
         then Inl Panic
         else
           (let field = (\<lambda>h.
                  let name = part_at (hp_name h) - start; value = part_at (hp_value h) - start
                  in ((name, name + part_len (hp_name h)), (value, value + part_len (hp_value h))));
                sect_end = foldl (\<lambda>e h. max e (start + (part_at (hp_value h) - start) + part_len (hp_value h)))
                             start headers
            in if sect_end > length sect then Inl Panic
               else Inr (from_section (slice sect start sect_end) (map field headers))))"

function unfold_from :: "bytes \<Rightarrow> bytes \<Rightarrow> nat \<Rightarrow> bytes" where
  "unfold_from data normalized at =
     (if at < length data then
        if data ! at = LF \<and> is_some_and is_ows (slice_get data (at + 1)) then
          (let popped = (if last_opt normalized = Some CR then butlast normalized else normalized)
           in unfold_from data (popped @ [SP]) (skip_ows data (at + 1)))
        else unfold_from data (normalized @ [data ! at]) (at + 1)
      else normalized)"
  by pat_completeness auto
termination
proof (relation "measure (\<lambda>(data, normalized, at). length data - at)", goal_cases)
  case (2 d n i x)
  then show ?case using skip_ows_ge [of "i + 1" d] by auto
qed auto

declare unfold_from.simps [simp del]

fun windows2 :: "'a list \<Rightarrow> ('a \<times> 'a) list" where
  "windows2 (a # b # xs) = (a, b) # windows2 (b # xs)"
| "windows2 _ = []"

definition normalize_obs_fold :: "bytes \<Rightarrow> bytes" where
  "normalize_obs_fold data =
     (if \<not> list_ex (\<lambda>(a, b). a = LF \<and> is_ows b) (windows2 data) then data
      else unfold_from data [] 0)"

definition copy_headers :: "bytes \<Rightarrow> hp_header list \<Rightarrow> bool \<Rightarrow> recv_error + Headers" where
  "copy_headers sect headers unfold =
     (if \<not> (unfold \<and> list_ex (\<lambda>h. LF \<in> set (part_bytes sect (hp_value h))) headers)
      then copy_section sect headers
      else Inr (foldl (\<lambda>copied h.
                  headers_push copied (part_bytes sect (hp_name h))
                    (normalize_obs_fold (part_bytes sect (hp_value h))))
                (headers_with_capacity (length headers)
                   (sum_list (map (\<lambda>h. part_len (hp_name h) + part_len (hp_value h)) headers)))
                headers))"

definition version_of :: "nat option \<Rightarrow> Version" where
  "version_of minor = (if minor = Some 0 then Http10 else Http11)"

section \<open>Request and response heads\<close>

definition parse_request_head ::
  "httparse \<Rightarrow> bytes \<Rightarrow> nat \<Rightarrow> recv_error + (nat \<times> Request) option" where
  "parse_request_head hp head max_headers =
     (if \<not> slots_fit max_headers then Inl Panic else
      case hp_parse_request hp head max_headers of
        Inl error \<Rightarrow>
          Inl (Remote (remote (''invalid request head: '' @ hp_display hp error)
                 (Some (if error = TooManyHeaders then 431 else 400))))
      | Inr None \<Rightarrow> Inr None
      | Inr (Some (ended, hp_parsed)) \<Rightarrow>
          (let http_version = version_of (hpq_version hp_parsed)
           in case method_from_bytes (case hpq_method hp_parsed of None \<Rightarrow> [] | Some m \<Rightarrow> m) of
                Inl _ \<Rightarrow> Inl Panic
              | Inr method \<Rightarrow>
                  (let target = (case hpq_path hp_parsed of None \<Rightarrow> [] | Some p \<Rightarrow> p)
                   in case copy_headers head (hpq_headers hp_parsed) False of
                        Inl e \<Rightarrow> Inl e
                      | Inr headers \<Rightarrow>
                          Inr (Some (ended, \<lparr>req_method = method, req_target = target,
                                           req_headers = headers, req_version = http_version\<rparr>)))))"

text \<open>
  The first non-empty line of a head with its offset: \<open>split\<close> at LF, \<open>strip_suffix\<close> CR,
  \<open>find\<close>. The offset of a line is that of the slice \<open>split\<close> returns.
\<close>

fun lines_from :: "nat \<Rightarrow> bytes list \<Rightarrow> (nat \<times> bytes) list" where
  "lines_from at [] = []"
| "lines_from at (l # ls) = (at, l) # lines_from (at + length l + 1) ls"

definition strip_cr :: "bytes \<Rightarrow> bytes" where
  "strip_cr line = (case strip_suffix [CR] line of None \<Rightarrow> line | Some l \<Rightarrow> l)"

definition start_line :: "bytes \<Rightarrow> (nat \<times> bytes) option" where
  "start_line head =
     find (\<lambda>(_, line). line \<noteq> [])
       (map (\<lambda>(at, line). (at, strip_cr line)) (lines_from 0 (split_slice (\<lambda>b. b = LF) head)))"

definition blank_gap :: "bytes \<Rightarrow> bool" where
  "blank_gap gap \<longleftrightarrow> list_all (\<lambda>b. b = SP \<or> b = HTAB \<or> b = CR \<or> b = LF) gap"

text \<open>\<open>None\<close> is a slice out of range.\<close>

fun dropped_from :: "bytes \<Rightarrow> nat \<Rightarrow> nat \<Rightarrow> hp_header list \<Rightarrow> bool option" where
  "dropped_from head from ended [] =
     (if slice_ok head from ended then Some (\<not> blank_gap (slice head from ended)) else None)"
| "dropped_from head from ended (h # hs) =
     (if \<not> slice_ok head from (part_at (hp_name h)) then None
      else if \<not> blank_gap (slice head from (part_at (hp_name h))) then Some True
      else dropped_from head (part_end (hp_value h)) ended hs)"

definition dropped_lines :: "bytes \<Rightarrow> nat \<times> bytes \<Rightarrow> nat \<Rightarrow> hp_header list \<Rightarrow> bool option" where
  "dropped_lines head status_line ended hs =
     dropped_from head (fst status_line + length (snd status_line)) ended hs"

text \<open>The closure \<open>spaces\<close>: the position after a run of spaces, \<open>None\<close> when \<open>at\<close> is out of range.\<close>

definition spaces :: "bytes \<Rightarrow> nat \<Rightarrow> nat option" where
  "spaces line at =
     (if at \<le> length line then Some (at + length (takeWhile (\<lambda>b. b = SP) (drop at line))) else None)"

text \<open>\<open>line.get(at..).unwrap_or_default()\<close>\<close>

definition get_from :: "bytes \<Rightarrow> nat \<Rightarrow> bytes" where
  "get_from line at = (if at \<le> length line then drop at line else [])"

definition reason_of :: "bytes \<Rightarrow> bool \<Rightarrow> bytes option" where
  "reason_of line lenient =
     (if lenient then
        (case spaces line 8 of
           None \<Rightarrow> None
         | Some at \<Rightarrow>
             (case spaces line (at + 3) of
                None \<Rightarrow> None
              | Some at' \<Rightarrow> Some (get_from line at')))
      else Some (get_from line 13))"

definition response_config :: "bool \<Rightarrow> hp_config" where
  "response_config lenient =
     \<lparr>obsolete_multiline_headers = True, ignore_invalid_headers = lenient,
      spaces_after_header_name = lenient, multiple_spaces_in_status = lenient\<rparr>"

definition parse_response_head ::
  "httparse \<Rightarrow> bytes \<Rightarrow> nat \<Rightarrow> bool \<Rightarrow> recv_error + (nat \<times> Response \<times> bool) option" where
  "parse_response_head hp head max_headers lenient =
     (if \<not> slots_fit max_headers then Inl Panic else
      case hp_parse_response hp (response_config lenient) head max_headers of
        Inl error \<Rightarrow> Inl (Remote (remote (''invalid response head: '' @ hp_display hp error) None))
      | Inr None \<Rightarrow> Inr None
      | Inr (Some (ended, hp_parsed)) \<Rightarrow>
          (let http_version = version_of (hpr_version hp_parsed)
           in case from_u16 (case hpr_code hp_parsed of None \<Rightarrow> 0 | Some c \<Rightarrow> c) of
                Inl _ \<Rightarrow> Inl (Remote (remote ''invalid response status'' None))
              | Inr status \<Rightarrow>
                  if ended > length head then Inl Panic
                  else
                    (let line = (case start_line (take ended head) of None \<Rightarrow> (0, []) | Some l \<Rightarrow> l)
                     in case reason_of (snd line) lenient of
                          None \<Rightarrow> Inl Panic
                        | Some reason \<Rightarrow>
                            (case (if lenient then dropped_lines head line ended (hpr_headers hp_parsed)
                                   else Some False) of
                               None \<Rightarrow> Inl Panic
                             | Some dropped \<Rightarrow>
                                 (case copy_headers head (hpr_headers hp_parsed) True of
                                    Inl e \<Rightarrow> Inl e
                                  | Inr headers \<Rightarrow>
                                      Inr (Some (ended, \<lparr>resp_status = status, resp_reason = reason,
                                         resp_headers = headers, resp_version = http_version\<rparr>, dropped)))))))"

definition start_line_unfinished :: "bytes \<Rightarrow> bool" where
  "start_line_unfinished data \<longleftrightarrow>
     is_some_and (\<lambda>line. \<not> ends_with line [LF])
       (find (\<lambda>line. line \<noteq> [LF] \<and> line \<noteq> CRLF) (split_inclusive (\<lambda>b. b = LF) data))"

definition parse_trailers ::
  "httparse \<Rightarrow> bytes \<Rightarrow> nat \<Rightarrow> bool \<Rightarrow> recv_error + (nat \<times> Headers) option" where
  "parse_trailers hp data max_headers normalize_folding =
     (let original_end = fst (poll progress_default data False);
          data1 = take (case original_end of None \<Rightarrow> length data | Some e \<Rightarrow> e) data;
          normalized = (if normalize_folding then normalize_obs_fold data1 else data1)
      in if \<not> slots_fit max_headers then Inl Panic else
         case hp_parse_headers hp normalized max_headers of
           Inl error \<Rightarrow> Inl (Remote (remote (''invalid trailer field: '' @ hp_display hp error) (Some 400)))
         | Inr None \<Rightarrow> Inr None
         | Inr (Some (parsed_end, headers)) \<Rightarrow>
             (case copy_headers normalized headers False of
                Inl e \<Rightarrow> Inl e
              | Inr copied \<Rightarrow>
                  Inr (Some (case original_end of None \<Rightarrow> parsed_end | Some e \<Rightarrow> e, copied))))"

section \<open>Serialization\<close>

definition write_field :: "bytes \<Rightarrow> bytes \<times> bytes \<Rightarrow> bytes" where
  "write_field out field = out @ fst field @ '': '' @ snd field @ CRLF"

definition write_headers :: "bytes \<Rightarrow> Headers \<Rightarrow> bytes" where
  "write_headers out h = foldl write_field out (headers_iter h)"

definition head_len :: "nat \<Rightarrow> Headers \<Rightarrow> nat" where
  "head_len start_len h =
     start_len + sum_list (map (\<lambda>(name, value). length name + length value + 4) (headers_iter h)) + 2"

text \<open>The capacities the vectors of the two heads are made with.\<close>

definition request_capacity :: "Request \<Rightarrow> nat" where
  "request_capacity r = head_len (length (as_bytes (req_method r)) + length (req_target r) + 12) (req_headers r)"

definition response_capacity :: "bytes \<Rightarrow> Headers \<Rightarrow> nat" where
  "response_capacity reason h = head_len (15 + length reason) h"

definition serialize_request :: "Request \<Rightarrow> nat \<Rightarrow> bytes" where
  "serialize_request r at_host =
     (let out0 = as_bytes (req_method r) @ [SP] @ req_target r @ '' HTTP/'' @ version_wire (req_version r) @ CRLF;
          out1 = (case slice_get (headers_iter (req_headers r)) at_host of
                    Some host \<Rightarrow> write_field out0 host
                  | None \<Rightarrow> out0);
          out2 = foldl (\<lambda>out (at, field). if at \<noteq> at_host then write_field out field else out) out1
                   (enumerate 0 (headers_iter (req_headers r)))
      in out2 @ CRLF)"

definition status_digits :: "StatusCode \<Rightarrow> bytes" where
  "status_digits s =
     (let n = unat (as_u16 s)
      in [char_of (48 + n div 100), char_of (48 + n div 10 mod 10), char_of (48 + n mod 10)])"

definition serialize_response :: "Version \<Rightarrow> StatusCode \<Rightarrow> bytes \<Rightarrow> Headers \<Rightarrow> bytes" where
  "serialize_response version status reason h =
     (let out0 = ''HTTP/'' @ version_wire version @ [SP] @ status_digits status @ [SP] @ reason @ CRLF
      in write_headers out0 h @ CRLF)"

section \<open>What the sources rely on\<close>

text \<open>The names and values of parsed fields are disjoint slices in the order of the section.\<close>

fun headers_ok :: "nat \<Rightarrow> nat \<Rightarrow> hp_header list \<Rightarrow> bool" where
  "headers_ok from ended [] = (from \<le> ended)"
| "headers_ok from ended (h # hs) =
     (from \<le> part_at (hp_name h) \<and> part_end (hp_name h) \<le> part_at (hp_value h)
      \<and> headers_ok (part_end (hp_value h)) ended hs)"

definition status_line_ok :: "bytes \<Rightarrow> bool" where
  "status_line_ok line \<longleftrightarrow>
     (\<exists>version gap code rest. line = version @ gap @ code @ rest \<and> length version = 8
        \<and> list_all (\<lambda>b. b = SP) gap \<and> length code = 3 \<and> list_all is_ascii_digit code)"

definition request_ok :: "bytes \<Rightarrow> nat \<Rightarrow> nat \<times> hp_request \<Rightarrow> bool" where
  "request_ok head n r \<longleftrightarrow>
     0 < fst r \<and> fst r \<le> length head \<and> length (hpq_headers (snd r)) \<le> n
     \<and> headers_ok 0 (fst r) (hpq_headers (snd r))
     \<and> is_some_and (\<lambda>m. m \<noteq> [] \<and> list_all is_tchar m) (hpq_method (snd r))"

definition response_ok :: "bytes \<Rightarrow> nat \<Rightarrow> nat \<times> hp_response \<Rightarrow> bool" where
  "response_ok head n r \<longleftrightarrow>
     0 < fst r \<and> fst r \<le> length head \<and> length (hpr_headers (snd r)) \<le> n
     \<and> is_some_and (\<lambda>l. status_line_ok (snd l)
          \<and> headers_ok (fst l + length (snd l)) (fst r) (hpr_headers (snd r)))
        (start_line (take (fst r) head))"

definition trailers_ok :: "bytes \<Rightarrow> nat \<Rightarrow> nat \<times> hp_header list \<Rightarrow> bool" where
  "trailers_ok data n r \<longleftrightarrow>
     0 < fst r \<and> fst r \<le> length data \<and> length (snd r) \<le> n \<and> headers_ok 0 (fst r) (snd r)"

definition httparse_ok :: "httparse \<Rightarrow> bool" where
  "httparse_ok hp \<longleftrightarrow>
     (\<forall>head n r. hp_parse_request hp head n = Inr (Some r) \<longrightarrow> request_ok head n r)
     \<and> (\<forall>config head n r. hp_parse_response hp config head n = Inr (Some r) \<longrightarrow> response_ok head n r)
     \<and> (\<forall>data n r. hp_parse_headers hp data n = Inr (Some r) \<longrightarrow> trailers_ok data n r)"

section \<open>Copying parsed fields\<close>

lemma headers_ok_le: "headers_ok from e hs \<Longrightarrow> from \<le> e"
  by (induction hs arbitrary: "from") (force simp: part_end_def)+

lemma headers_ok_in:
  "headers_ok from e hs \<Longrightarrow> h \<in> set hs \<Longrightarrow>
   from \<le> part_at (hp_name h) \<and> part_end (hp_name h) \<le> part_at (hp_value h) \<and> part_end (hp_value h) \<le> e"
proof (induction hs arbitrary: "from")
  case (Cons g hs)
  then show ?case using headers_ok_le [of "part_end (hp_value g)" e hs] by (fastforce simp: part_end_def)
qed simp

lemma foldl_max:
  fixes g :: "'a \<Rightarrow> nat"
  shows "s \<le> foldl (\<lambda>e h. max e (g h)) s hs"
    and "h \<in> set hs \<Longrightarrow> g h \<le> foldl (\<lambda>e h. max e (g h)) s hs"
    and "s \<le> b \<Longrightarrow> \<forall>h \<in> set hs. g h \<le> b \<Longrightarrow> foldl (\<lambda>e h. max e (g h)) s hs \<le> b"
proof -
  have ge: "s \<le> foldl (\<lambda>e h. max e (g h)) s hs" for s hs
  proof (induction hs arbitrary: s)
    case (Cons a hs)
    from Cons [of "max s (g a)"] show ?case by simp
  qed simp
  then show "s \<le> foldl (\<lambda>e h. max e (g h)) s hs" .
  show "h \<in> set hs \<Longrightarrow> g h \<le> foldl (\<lambda>e h. max e (g h)) s hs"
  proof (induction hs arbitrary: s)
    case (Cons a hs)
    with ge [of "max s (g a)" hs] show ?case by auto
  qed simp
  show "s \<le> b \<Longrightarrow> \<forall>h \<in> set hs. g h \<le> b \<Longrightarrow> foldl (\<lambda>e h. max e (g h)) s hs \<le> b"
    by (induction hs arbitrary: s) auto
qed

lemma slice_slice: "s \<le> a \<Longrightarrow> b \<le> e \<Longrightarrow> slice (slice v s e) (a - s) (b - s) = slice v a b"
  by (simp add: slice_def drop_take min_def)

definition parsed_fields :: "bytes \<Rightarrow> hp_header list \<Rightarrow> (bytes \<times> bytes) list" where
  "parsed_fields sect hs = map (\<lambda>h. (part_bytes sect (hp_name h), part_bytes sect (hp_value h))) hs"

lemma copy_section_ok:
  assumes "headers_ok from e hs" and "e \<le> length sect"
  shows "\<exists>h. copy_section sect hs = Inr h \<and> headers_inv h \<and> headers_iter h = parsed_fields sect hs"
proof (cases hs)
  case Nil
  then show ?thesis
    by (simp add: copy_section_def from_section_def headers_inv_def headers_iter_def parsed_fields_def)
next
  case (Cons h0 rest)
  define start where "start = part_at (hp_name h0)"
  define stop where "stop = foldl (\<lambda>e h. max e (start + (part_at (hp_value h) - start) + part_len (hp_value h))) start hs"
  have in_hs: "start \<le> part_at (hp_name h) \<and> part_end (hp_name h) \<le> part_at (hp_value h) \<and> part_end (hp_value h) \<le> e"
    if "h \<in> set hs" for h
    using that assms(1) Cons headers_ok_in [of start e hs h] by (auto simp: start_def)
  have starts: "start \<le> part_at (hp_name h)" "start \<le> part_at (hp_value h)" if "h \<in> set hs" for h
    using in_hs [OF that] by (auto simp: part_end_def)
  have "start \<le> e" using in_hs [of h0] Cons by (simp add: part_end_def)
  then have stop_le: "stop \<le> e"
    unfolding stop_def using in_hs starts by (intro foldl_max(3)) (auto simp: part_end_def)
  have value_le: "part_end (hp_value h) \<le> stop" if "h \<in> set hs" for h
    using foldl_max(2) [OF that, of "\<lambda>h. start + (part_at (hp_value h) - start) + part_len (hp_value h)" start]
      starts [OF that] by (simp add: stop_def part_end_def)
  have name_le: "part_end (hp_name h) \<le> stop" if "h \<in> set hs" for h
    using in_hs [OF that] value_le [OF that] by (simp add: part_end_def)
  let ?field = "\<lambda>h. let name = part_at (hp_name h) - start; value = part_at (hp_value h) - start
                  in ((name, name + part_len (hp_name h)), (value, value + part_len (hp_value h)))"
  let ?h = "from_section (slice sect start stop) (map ?field hs)"
  have copy: "copy_section sect hs = Inr ?h"
    using starts stop_le assms(2)
    by (auto simp: copy_section_def Let_def Cons list_all_iff start_def [symmetric] stop_def)
  have len: "length (slice sect start stop) = stop - start"
    using stop_le assms(2) by (simp add: slice_def)
  have "headers_inv ?h"
    using value_le name_le starts
    by (simp add: headers_inv_def from_section_def list_all_iff Let_def slice_ok_def len part_end_def diff_le_mono)
  moreover have "headers_iter ?h = parsed_fields sect hs"
    using starts value_le name_le
    by (auto simp: slice_slice headers_iter_def from_section_def parsed_fields_def field_at_def Let_def part_bytes_def
        part_end_def)
  ultimately show ?thesis using copy by blast
qed


section \<open>Obsolete line folding\<close>

definition has_fold :: "bytes \<Rightarrow> bool" where
  "has_fold v \<longleftrightarrow> list_ex (\<lambda>(a, b). a = LF \<and> is_ows b) (windows2 v)"

lemma windows2_nth: "i + 1 < length v \<Longrightarrow> (v ! i, v ! (i + 1)) \<in> set (windows2 v)"
proof (induction v arbitrary: i rule: windows2.induct)
  case (1 a b xs)
  then show ?case by (cases i) auto
qed auto

lemma windows2_set: "(a, b) \<in> set (windows2 v) \<Longrightarrow> a \<in> set v"
  by (induction v rule: windows2.induct) auto

lemma unfold_from_plain:
  "\<not> has_fold v \<Longrightarrow> at \<le> length v \<Longrightarrow> unfold_from v n at = n @ drop at v"
proof (induction v n at rule: unfold_from.induct)
  case (1 v n at)
  show ?case
  proof (cases "at < length v")
    case True
    with 1(3) have fold: "\<not> (v ! at = LF \<and> is_some_and is_ows (slice_get v (at + 1)))"
      using windows2_nth [of at v] by (fastforce simp: has_fold_def list_ex_iff split: option.splits)
    have "unfold_from v n at = unfold_from v (n @ [v ! at]) (at + 1)"
      by (subst unfold_from.simps) (simp only: True fold if_True if_False)
    with 1(2) [OF True fold] 1(3) True show ?thesis by (simp add: Cons_nth_drop_Suc)
  next
    case False
    with 1(4) show ?thesis by (subst unfold_from.simps) simp
  qed
qed

lemma normalize_obs_fold_eq: "normalize_obs_fold v = unfold_from v [] 0"
  by (simp add: normalize_obs_fold_def has_fold_def [symmetric] unfold_from_plain)

lemma normalize_plain: "LF \<notin> set v \<Longrightarrow> normalize_obs_fold v = v"
proof -
  assume "LF \<notin> set v"
  then have "\<not> has_fold v" using windows2_set by (fastforce simp: has_fold_def list_ex_iff)
  then show ?thesis by (simp add: normalize_obs_fold_def has_fold_def [symmetric])
qed

text \<open>A folded value: every CR begins a CRLF, every LF is followed by whitespace.\<close>

definition folded :: "bytes \<Rightarrow> bool" where
  "folded v \<longleftrightarrow> (\<forall>i < length v.
     (v ! i = CR \<longrightarrow> slice_get v (i + 1) = Some LF)
     \<and> (v ! i = LF \<longrightarrow> is_some_and is_ows (slice_get v (i + 1))))"

definition unfolding_to :: "bytes \<Rightarrow> bytes \<Rightarrow> nat \<Rightarrow> bool" where
  "unfolding_to v n at \<longleftrightarrow> LF \<notin> set n \<and> CR \<notin> set (butlast n)
     \<and> (last_opt n = Some CR \<longrightarrow> slice_get v at = Some LF)"

lemma unfold_from_lines:
  "folded v \<Longrightarrow> unfolding_to v n at \<Longrightarrow> CR \<notin> set (unfold_from v n at) \<and> LF \<notin> set (unfold_from v n at)"
proof (induction v n at rule: unfold_from.induct)
  case (1 v n at)
  have no_cr: "CR \<notin> set n" if "last_opt n \<noteq> Some CR"
    using that 1(4) by (cases n rule: rev_cases) (auto simp: unfolding_to_def last_opt_def)
  consider (stop) "\<not> at < length v" | (fold) "at < length v" "v ! at = LF" | (copy) "at < length v" "v ! at \<noteq> LF"
    by blast
  then show ?case
  proof cases
    case stop
    with 1(4) no_cr show ?thesis by (subst (1 2) unfold_from.simps) (auto simp: unfolding_to_def)
  next
    case fold
    with 1(3) have ows: "v ! at = LF \<and> is_some_and is_ows (slice_get v (at + 1))" by (auto simp: folded_def)
    let ?n = "(if last_opt n = Some CR then butlast n else n) @ [SP]"
    have "unfolding_to v ?n (skip_ows v (at + 1))"
      using 1(4) no_cr by (auto simp: unfolding_to_def last_opt_def dest: in_set_butlastD)
    moreover have "unfold_from v n at = unfold_from v ?n (skip_ows v (at + 1))"
      using fold(1) ows by (subst unfold_from.simps) (simp add: Let_def)
    ultimately show ?thesis using 1(1) [OF fold(1) ows refl 1(3)] by simp
  next
    case copy
    then have "last_opt n \<noteq> Some CR" using 1(4) by (auto simp: unfolding_to_def)
    with copy 1(3,4) no_cr have "unfolding_to v (n @ [v ! at]) (at + 1)"
      by (auto simp: unfolding_to_def last_opt_def folded_def)
    moreover have "unfold_from v n at = unfold_from v (n @ [v ! at]) (at + 1)"
      using copy by (subst unfold_from.simps) simp
    ultimately show ?thesis using 1(2) [OF copy(1) _ 1(3)] copy by simp
  qed
qed

lemma copy_headers_ok:
  assumes "headers_ok from e hs" and "e \<le> length sect"
  shows "\<exists>h. copy_headers sect hs unfold = Inr h \<and> headers_inv h \<and>
     headers_iter h = map (\<lambda>(n, v). (n, if unfold then normalize_obs_fold v else v)) (parsed_fields sect hs)"
proof (cases "unfold \<and> list_ex (\<lambda>h. LF \<in> set (part_bytes sect (hp_value h))) hs")
  case False
  then have "map (\<lambda>(n, v). (n, if unfold then normalize_obs_fold v else v)) (parsed_fields sect hs)
     = parsed_fields sect hs"
    by (auto simp: parsed_fields_def list_ex_iff normalize_plain)
  with False copy_section_ok [OF assms] show ?thesis by (simp add: copy_headers_def)
next
  case True
  let ?fs = "map (\<lambda>(n, v). (n, normalize_obs_fold v)) (parsed_fields sect hs)"
  have "foldl (\<lambda>c h. headers_push c (part_bytes sect (hp_name h))
           (normalize_obs_fold (part_bytes sect (hp_value h)))) h0 hs
     = headers_extend h0 ?fs" for h0
    by (simp add: headers_extend_def parsed_fields_def foldl_map)
  moreover have "headers_with_capacity k l = headers_new" for k l
    by (simp add: headers_with_capacity_def headers_new_def)
  ultimately have "copy_headers sect hs unfold = Inr (headers_from ?fs)"
    using True by (simp add: copy_headers_def headers_from_def)
  with True show ?thesis by (simp add: case_prod_beta)
qed

section \<open>When parsing panics\<close>

lemma slots_fit_iff: "slots_fit n \<longleftrightarrow> n < 2 ^ 58"
  by (auto simp: slots_fit_def SLOT_SIZE_def isize_max_def DEFAULT_MAX_HEADER_COUNT_def)

lemma parse_request_head_ok:
  assumes "httparse_ok hp"
  shows "parse_request_head hp head n = Inl Panic \<longleftrightarrow> \<not> slots_fit n"
    and "parse_request_head hp head n = Inr (Some (e, r)) \<Longrightarrow>
      0 < e \<and> e \<le> length head \<and> headers_inv (req_headers r) \<and> headers_len (req_headers r) \<le> n"
proof -
  have *: "\<exists>m h. method_from_bytes (case hpq_method q of None \<Rightarrow> [] | Some m \<Rightarrow> m) = Inr m
      \<and> copy_headers head (hpq_headers q) False = Inr h \<and> headers_inv h \<and> headers_len h \<le> n
      \<and> 0 < e \<and> e \<le> length head"
    if "hp_parse_request hp head n = Inr (Some (e, q))" for e q
  proof -
    from assms that have ok: "request_ok head n (e, q)" by (simp add: httparse_ok_def)
    then have hs: "headers_ok 0 e (hpq_headers q)" "e \<le> length head" "0 < e" "length (hpq_headers q) \<le> n"
      by (simp_all add: request_ok_def)
    from ok obtain m where "hpq_method q = Some m" "m \<noteq> []" "list_all is_tchar m"
      by (auto simp: request_ok_def split: option.splits)
    then have "method_from_bytes (case hpq_method q of None \<Rightarrow> [] | Some m \<Rightarrow> m) = Inr (Method m)"
      by (simp add: method_from_bytes_Inr)
    with hs copy_headers_ok [OF hs(1,2), of False] show ?thesis
      by (auto simp: headers_len_iter parsed_fields_def)
  qed
  show "parse_request_head hp head n = Inl Panic \<longleftrightarrow> \<not> slots_fit n"
    using * by (fastforce simp: parse_request_head_def Let_def split: sum.splits option.splits)
  show "parse_request_head hp head n = Inr (Some (e, r)) \<Longrightarrow>
      0 < e \<and> e \<le> length head \<and> headers_inv (req_headers r) \<and> headers_len (req_headers r) \<le> n"
    by (auto simp: parse_request_head_def Let_def split: sum.splits option.splits if_splits dest!: *)
qed

lemma reason_of_ok:
  assumes "status_line_ok line"
  shows "\<exists>r. reason_of line lenient = Some r"
proof -
  from assms obtain version gap code rest where line: "line = version @ gap @ code @ rest"
      "length version = 8" "list_all (\<lambda>b. b = SP) gap" "length code = 3" "list_all is_ascii_digit code"
    unfolding status_line_ok_def by blast
  then have "code \<noteq> []" by auto
  with line have "hd (code @ rest) \<noteq> SP" "code @ rest \<noteq> []"
    by (auto simp: neq_Nil_conv is_ascii_digit_def byte_in_def)
  then have "takeWhile (\<lambda>b. b = SP) (code @ rest) = []" by (cases "code @ rest") auto
  then have "takeWhile (\<lambda>b. b = SP) (gap @ code @ rest) = gap"
    using line(3) by (auto simp: takeWhile_append2 list_all_iff)
  then have "spaces line 8 = Some (8 + length gap)" using line by (simp add: spaces_def)
  moreover have "8 + length gap + 3 \<le> length line" using line by simp
  ultimately show ?thesis by (simp add: reason_of_def spaces_def)
qed

lemma dropped_from_ok:
  "headers_ok from e hs \<Longrightarrow> e \<le> length head \<Longrightarrow> \<exists>d. dropped_from head from e hs = Some d"
proof (induction hs arbitrary: "from")
  case (Cons h hs)
  then have "part_at (hp_name h) \<le> e" using headers_ok_in [of "from" e "h # hs" h] by (auto simp: part_end_def)
  with Cons show ?case by (auto simp: slice_ok_def)
qed (simp add: slice_ok_def)

lemma headers_ok_mono: "headers_ok from e hs \<Longrightarrow> from' \<le> from \<Longrightarrow> headers_ok from' e hs"
  by (cases hs) auto

lemma parse_response_head_ok:
  assumes "httparse_ok hp"
  shows "parse_response_head hp head n lenient = Inl Panic \<longleftrightarrow> \<not> slots_fit n"
    and "parse_response_head hp head n lenient = Inr (Some (e, r, d)) \<Longrightarrow>
      0 < e \<and> e \<le> length head \<and> headers_inv (resp_headers r) \<and> headers_len (resp_headers r) \<le> n
      \<and> status_ok (resp_status r)"
proof -
  have *: "\<exists>l reason d h. start_line (take e head) = Some l \<and> reason_of (snd l) lenient = Some reason
      \<and> dropped_lines head l e (hpr_headers q) = Some d
      \<and> copy_headers head (hpr_headers q) True = Inr h \<and> headers_inv h \<and> headers_len h \<le> n
      \<and> 0 < e \<and> e \<le> length head"
    if "hp_parse_response hp (response_config lenient) head n = Inr (Some (e, q))" for e q
  proof -
    from assms that have ok: "response_ok head n (e, q)" by (simp add: httparse_ok_def)
    then obtain l where l: "start_line (take e head) = Some l" "status_line_ok (snd l)"
        "headers_ok (fst l + length (snd l)) e (hpr_headers q)" "0 < e" "e \<le> length head"
        "length (hpr_headers q) \<le> n"
      by (auto simp: response_ok_def split: option.splits)
    from copy_headers_ok [OF l(3,5), of True] l(6) obtain h
      where "copy_headers head (hpr_headers q) True = Inr h" "headers_inv h" "headers_len h \<le> n"
      by (auto simp: headers_len_iter parsed_fields_def)
    with l reason_of_ok [OF l(2), of lenient] dropped_from_ok [OF l(3,5)] show ?thesis
      by (auto simp: dropped_lines_def)
  qed
  have parse: "\<exists>reason d h. headers_inv h \<and> headers_len h \<le> n \<and> 0 < e \<and> e \<le> length head \<and>
      parse_response_head hp head n lenient =
        (case from_u16 (case hpr_code q of None \<Rightarrow> 0 | Some c \<Rightarrow> c) of
           Inl _ \<Rightarrow> Inl (Remote (remote ''invalid response status'' None))
         | Inr status \<Rightarrow> Inr (Some (e, \<lparr>resp_status = status, resp_reason = reason, resp_headers = h,
                resp_version = version_of (hpr_version q)\<rparr>, d)))"
    if q: "hp_parse_response hp (response_config lenient) head n = Inr (Some (e, q))" and fit: "slots_fit n" for e q
  proof -
    from * [OF q] obtain l reason d h where
      "start_line (take e head) = Some l" "reason_of (snd l) lenient = Some reason"
      "dropped_lines head l e (hpr_headers q) = Some d" "copy_headers head (hpr_headers q) True = Inr h"
      and h: "headers_inv h" "headers_len h \<le> n" "0 < e" "e \<le> length head" by blast
    then have "parse_response_head hp head n lenient =
        (case from_u16 (case hpr_code q of None \<Rightarrow> 0 | Some c \<Rightarrow> c) of
           Inl _ \<Rightarrow> Inl (Remote (remote ''invalid response status'' None))
         | Inr status \<Rightarrow> Inr (Some (e, \<lparr>resp_status = status, resp_reason = reason, resp_headers = h,
                resp_version = version_of (hpr_version q)\<rparr>, lenient \<and> d)))"
      using q fit by (simp add: parse_response_head_def Let_def split: sum.split)
    with h show ?thesis by blast
  qed
  show "parse_response_head hp head n lenient = Inl Panic \<longleftrightarrow> \<not> slots_fit n"
  proof (cases "slots_fit n \<and> (\<exists>e q. hp_parse_response hp (response_config lenient) head n = Inr (Some (e, q)))")
    case True
    then show ?thesis using parse by (fastforce split: sum.splits)
  next
    case False
    then show ?thesis by (auto simp: parse_response_head_def split: sum.splits option.splits)
  qed
  assume r: "parse_response_head hp head n lenient = Inr (Some (e, r, d))"
  then obtain e' q where "hp_parse_response hp (response_config lenient) head n = Inr (Some (e', q))" "slots_fit n"
    by (auto simp: parse_response_head_def split: sum.splits option.splits if_splits)
  from parse [OF this] r show "0 < e \<and> e \<le> length head \<and> headers_inv (resp_headers r)
      \<and> headers_len (resp_headers r) \<le> n \<and> status_ok (resp_status r)"
    by (cases "from_u16 (case hpr_code q of None \<Rightarrow> 0 | Some c \<Rightarrow> c)") (auto dest: from_u16_Inr [THEN iffD1])
qed

lemma unfold_from_length: "at \<le> length v \<Longrightarrow> length (unfold_from v n at) + at \<le> length n + length v"
proof (induction v n at rule: unfold_from.induct)
  case (1 v n at)
  consider (stop) "\<not> at < length v"
    | (fold) "at < length v" "v ! at = LF \<and> is_some_and is_ows (slice_get v (at + 1))"
    | (copy) "at < length v" "\<not> (v ! at = LF \<and> is_some_and is_ows (slice_get v (at + 1)))"
    by blast
  then show ?case
  proof cases
    case stop
    with 1(3) show ?thesis by (subst unfold_from.simps) simp
  next
    case fold
    let ?n = "if last_opt n = Some CR then butlast n else n"
    have "unfold_from v n at = unfold_from v (?n @ [SP]) (skip_ows v (at + 1))"
      using fold by (subst unfold_from.simps) (simp only: if_True Let_def simp_thms)
    moreover have "skip_ows v (at + 1) \<le> length v" "at + 1 \<le> skip_ows v (at + 1)"
      using fold skip_ows_le [of "at + 1" v] skip_ows_ge [of "at + 1" v] by auto
    ultimately show ?thesis using 1(1) [OF fold refl] by (auto split: if_splits)
  next
    case copy
    have "unfold_from v n at = unfold_from v (n @ [v ! at]) (at + 1)"
      by (subst unfold_from.simps) (simp only: copy if_True if_False)
    with 1(2) [OF copy] copy show ?thesis by simp
  qed
qed

lemma normalize_length: "length (normalize_obs_fold v) \<le> length v"
  using unfold_from_length [of 0 v "[]"] by (simp add: normalize_obs_fold_eq)

lemma parse_trailers_ok:
  assumes "httparse_ok hp"
  shows "parse_trailers hp d n nf = Inl Panic \<longleftrightarrow> \<not> slots_fit n"
    and "parse_trailers hp d n nf = Inr (Some (e, h)) \<Longrightarrow>
      0 < e \<and> e \<le> length d \<and> headers_inv h \<and> headers_len h \<le> n"
proof -
  let ?ended = "fst (poll progress_default d False)"
  let ?d = "take (case ?ended of None \<Rightarrow> length d | Some e \<Rightarrow> e) d"
  let ?n = "if nf then normalize_obs_fold ?d else ?d"
  have end_ok: "?ended = Some e \<Longrightarrow> 0 < e \<and> e \<le> length d" for e using poll_bound by blast
  have len: "length ?n \<le> length d" using normalize_length [of ?d] by (auto intro: order.trans)
  have *: "\<exists>h. copy_headers ?n hs False = Inr h \<and> headers_inv h \<and> headers_len h \<le> n \<and> 0 < e \<and> e \<le> length d"
    if "hp_parse_headers hp ?n n = Inr (Some (e, hs))" for e hs
  proof -
    from assms that have "trailers_ok ?n n (e, hs)" unfolding httparse_ok_def by blast
    then have ok: "headers_ok 0 e hs" "e \<le> length ?n" "0 < e" "length hs \<le> n" by (simp_all add: trailers_ok_def)
    from copy_headers_ok [OF ok(1,2), of False] ok len show ?thesis
      by (auto simp: headers_len_iter parsed_fields_def)
  qed
  show "parse_trailers hp d n nf = Inl Panic \<longleftrightarrow> \<not> slots_fit n"
    unfolding parse_trailers_def Let_def using *
    by (fastforce split: sum.splits option.splits)
  show "parse_trailers hp d n nf = Inr (Some (e, h)) \<Longrightarrow>
      0 < e \<and> e \<le> length d \<and> headers_inv h \<and> headers_len h \<le> n"
    unfolding parse_trailers_def Let_def using * end_ok
    by (fastforce split: sum.splits option.splits if_splits)
qed


section \<open>The text of a head\<close>

text \<open>A head is a list of lines, each ended by CRLF, of which the last is empty.\<close>

definition line_text :: "bytes list \<Rightarrow> bytes" where
  "line_text ls = concat (map (\<lambda>l. l @ CRLF) ls)"

definition field_line :: "bytes \<times> bytes \<Rightarrow> bytes" where
  "field_line f = fst f @ '': '' @ snd f"

definition single_line :: "bytes \<Rightarrow> bool" where
  "single_line l \<longleftrightarrow> CR \<notin> set l \<and> LF \<notin> set l"

definition request_line :: "Request \<Rightarrow> bytes" where
  "request_line r = as_bytes (req_method r) @ '' '' @ req_target r @ '' HTTP/'' @ version_wire (req_version r)"

definition status_line :: "Version \<Rightarrow> StatusCode \<Rightarrow> bytes \<Rightarrow> bytes" where
  "status_line v s reason = ''HTTP/'' @ version_wire v @ '' '' @ status_digits s @ '' '' @ reason"

definition move_to_front :: "nat \<Rightarrow> 'a list \<Rightarrow> 'a list" where
  "move_to_front i xs = (if i < length xs then xs ! i # take i xs @ drop (Suc i) xs else xs)"

lemma line_text_simps [simp]:
  "line_text [] = []" "line_text (l # ls) = l @ CRLF @ line_text ls"
  "line_text (ls @ ms) = line_text ls @ line_text ms"
  by (simp_all add: line_text_def)

lemma write_field_line: "write_field out f = out @ line_text [field_line f]"
  by (simp add: write_field_def field_line_def)

lemma foldl_write_field: "foldl write_field out fs = out @ line_text (map field_line fs)"
  by (induction fs arbitrary: out) (simp_all add: write_field_line)

lemma foldl_write_other:
  "foldl (\<lambda>out (at, f). if at \<noteq> i then write_field out f else out) out (enumerate k fs)
   = out @ line_text (map field_line
       (if k \<le> i then take (i - k) fs @ drop (Suc (i - k)) fs else fs))"
proof (induction fs arbitrary: out k)
  case (Cons f fs)
  show ?case
  proof (cases "k < i")
    case True
    then have "i - k = Suc (i - Suc k)" by simp
    with True Cons show ?thesis by (simp add: write_field_line)
  next
    case False
    with Cons show ?thesis by (cases "k = i") (simp_all add: write_field_line)
  qed
qed simp

lemma serialize_request_text:
  "serialize_request r i =
     line_text (request_line r # map field_line (move_to_front i (headers_iter (req_headers r))) @ [[]])"
  by (simp add: serialize_request_def Let_def foldl_write_other move_to_front_def request_line_def
      write_field_line slice_get_def)

lemma write_headers_text: "write_headers out h = out @ line_text (map field_line (headers_iter h))"
  by (simp add: write_headers_def foldl_write_field)

lemma serialize_response_text:
  "serialize_response v s reason h =
     line_text (status_line v s reason # map field_line (headers_iter h) @ [[]])"
  by (simp add: serialize_response_def Let_def write_headers_text status_line_def)

lemma split_line_text:
  "list_all single_line ls \<Longrightarrow>
   split_slice (\<lambda>b. b = LF) (line_text ls) = map (\<lambda>l. l @ [CR]) ls @ [[]]"
proof (induction ls)
  case (Cons l ls)
  then have "\<forall>b \<in> set (l @ [CR]). \<not> (b = LF)" by (auto simp: single_line_def)
  from split_slice_sep [OF this, of LF "line_text ls"] Cons show ?case by simp
qed simp

lemma tchar_single_line: "list_all is_tchar v \<Longrightarrow> single_line v"
proof -
  have "\<not> is_tchar CR" "\<not> is_tchar LF" by (simp_all add: byte_defs)
  then show "list_all is_tchar v \<Longrightarrow> single_line v" by (auto simp: single_line_def list_all_iff)
qed

lemma line_value_single_line: "list_all is_line_value_byte v \<Longrightarrow> single_line v"
proof -
  have "\<not> is_line_value_byte CR" "\<not> is_line_value_byte LF" by (simp_all add: byte_defs)
  then show "list_all is_line_value_byte v \<Longrightarrow> single_line v" by (auto simp: single_line_def list_all_iff)
qed

lemma valid_field_single_line:
  assumes "valid_name (fst f)" and "valid_value (snd f)"
  shows "single_line (field_line f)"
proof -
  have "single_line (fst f)" using assms(1) by (simp add: valid_name_def tchar_single_line cong: list.pred_cong)
  moreover have "single_line (snd f)"
    using assms(2) line_value_single_line [of "snd f"] by (auto simp: valid_value_iff single_line_def)
  ultimately show ?thesis by (simp add: single_line_def field_line_def)
qed

lemma valid_fields_lines: "valid_fields fs \<Longrightarrow> list_all single_line (map field_line fs)"
  using valid_field_single_line by (fastforce simp: valid_fields_def list_all_iff)

lemma set_move_to_front [simp]: "set (move_to_front i xs) = set xs"
proof (cases "i < length xs")
  case True
  then have "set xs = set (take i xs @ xs ! i # drop (Suc i) xs)" by (simp add: id_take_nth_drop [symmetric])
  with True show ?thesis by (simp add: move_to_front_def)
qed (simp add: move_to_front_def)

lemma validate_headers_Inr: "headers_inv h \<Longrightarrow> validate_headers h = Inr () \<longleftrightarrow> valid_fields (headers_iter h)"
  by (simp add: validate_headers_def headers_is_valid_iff)

section \<open>The host field\<close>

lemma scan_field_hosts:
  "hosts (scan_field f (i, n, v)) = (if eq_ignore_ascii_case n ''host'' then Suc (hosts f) else hosts f)"
  "host_at (scan_field f (i, n, v)) = (if eq_ignore_ascii_case n ''host'' then i else host_at f)"
proof -
  have *: "host_at (foldl scan_option f es) = host_at f" "host_at (foldl scan_length f es) = host_at f" for f es
    by (induction es arbitrary: f) (simp_all add: scan_option_def scan_length_def Let_def)
  show "hosts (scan_field f (i, n, v)) = (if eq_ignore_ascii_case n ''host'' then Suc (hosts f) else hosts f)"
    by (auto simp: scan_field_simps dest: eq_ignore_ascii_case_length)
  show "host_at (scan_field f (i, n, v)) = (if eq_ignore_ascii_case n ''host'' then i else host_at f)"
    by (auto simp: scan_field_simps * dest: eq_ignore_ascii_case_length)
qed

lemma foldl_scan_hosts:
  "hosts (foldl scan_field f (enumerate k fs)) = hosts f + length (values_of fs ''host'')"
  by (induction fs arbitrary: f k) (simp_all add: split_paired_all scan_field_hosts)

lemma foldl_scan_host_at:
  "values_of fs ''host'' = [] \<Longrightarrow> host_at (foldl scan_field f (enumerate k fs)) = host_at f"
  "values_of fs ''host'' \<noteq> [] \<Longrightarrow> \<exists>i < length fs.
     host_at (foldl scan_field f (enumerate k fs)) = k + i \<and> eq_ignore_ascii_case (fst (fs ! i)) ''host''"
proof -
  show none: "values_of fs ''host'' = [] \<Longrightarrow> host_at (foldl scan_field f (enumerate k fs)) = host_at f" for fs f k
    by (induction fs arbitrary: f k) (auto simp: scan_field_hosts split: if_splits)
  show "values_of fs ''host'' \<noteq> [] \<Longrightarrow> \<exists>i < length fs.
     host_at (foldl scan_field f (enumerate k fs)) = k + i \<and> eq_ignore_ascii_case (fst (fs ! i)) ''host''"
  proof (induction fs arbitrary: f k)
    case (Cons g fs)
    obtain n v where g: "g = (n, v)" by (cases g)
    show ?case
    proof (cases "values_of fs ''host'' = []")
      case True
      with Cons.prems g none [OF True] show ?thesis
        by (intro exI [of _ 0]) (auto simp: scan_field_hosts split: if_splits)
    next
      case False
      from Cons.IH [OF False, of "scan_field f (k, g)" "Suc k"] obtain i where "i < length fs"
        "host_at (foldl scan_field (scan_field f (k, g)) (enumerate (Suc k) fs)) = Suc k + i"
        "eq_ignore_ascii_case (fst (fs ! i)) ''host''" by blast
      then show ?thesis by (intro exI [of _ "Suc i"]) simp
    qed
  qed simp
qed

lemma scan_host:
  assumes "valid_host (scan h) Http11"
  shows "length (get_all h ''host'') = 1 \<and> host_at (scan h) < length (headers_iter h)
    \<and> eq_ignore_ascii_case (fst (headers_iter h ! host_at (scan h))) ''host''"
proof -
  from assms have len: "length (get_all h ''host'') = 1"
    by (auto simp: valid_host_def scan_def foldl_scan_hosts get_all_values fields_default_def split: if_splits)
  then have "values_of (headers_iter h) ''host'' \<noteq> []" by (auto simp: get_all_values)
  from foldl_scan_host_at(2) [OF this, of fields_default 0] len show ?thesis by (auto simp: scan_def)
qed


lemma target_single_line: "valid_request_target m v \<Longrightarrow> single_line v"
proof -
  assume "valid_request_target m v"
  then have "list_all (\<lambda>b. is_ascii_graphic b \<and> b \<noteq> CHR ''#'') v"
    by (auto simp: valid_request_target_def split: if_splits)
  moreover have "\<not> is_ascii_graphic CR" "\<not> is_ascii_graphic LF" by (simp_all add: byte_defs)
  ultimately show ?thesis by (auto simp: single_line_def list_all_iff)
qed

lemma version_wire_single_line: "single_line (version_wire v)"
  by (cases v) (simp_all add: single_line_def)

lemma status_digits_single_line: "status_ok s \<Longrightarrow> single_line (status_digits s)"
proof -
  assume "status_ok s"
  then have n: "unat (as_u16 s) div 100 < 10" by (simp add: status_ok_def less_mult_imp_div_less)
  have d: "char_of (48 + d) \<noteq> CR" "char_of (48 + d) \<noteq> LF" if "d < 10" for d :: nat
    using that by (auto dest!: arg_cong [where f = "of_char :: char \<Rightarrow> nat"])
  have m: "k mod 10 < 10" for k :: nat by simp
  show ?thesis
    using d [OF n] d [OF m, of "unat (as_u16 s) div 10"] d [OF m, of "unat (as_u16 s)"]
    by (simp add: single_line_def status_digits_def Let_def eq_commute)
qed

text \<open>Every method comes from \<open>Method::from_bytes\<close> or is one of the constants.\<close>

definition method_ok :: "Method \<Rightarrow> bool" where
  [inv_defs]: "method_ok m \<longleftrightarrow> as_bytes m \<noteq> [] \<and> list_all is_tchar (as_bytes m)"

lemma validate_request_Inr:
  "validate_request r f = Inr () \<longleftrightarrow>
     valid_request_target (as_bytes (req_method r)) (req_target r) \<and> validate_headers (req_headers r) = Inr ()
     \<and> check_send f = Inr () \<and> valid_host f Http11"
  by (auto simp: validate_request_def split: sum.splits if_splits)

lemma request_lines_single:
  assumes "headers_inv (req_headers r)" and "method_ok (req_method r)" and "validate_request r f = Inr ()"
  shows "list_all single_line
    (request_line r # map field_line (move_to_front i (headers_iter (req_headers r))) @ [[]])"
proof -
  from assms have valid: "valid_fields (headers_iter (req_headers r))"
      "single_line (req_target r)" "single_line (as_bytes (req_method r))"
    using target_single_line tchar_single_line by (auto simp: validate_request_Inr validate_headers_Inr method_ok_def)
  then have "valid_fields (move_to_front i (headers_iter (req_headers r)))"
    by (simp add: valid_fields_def list_all_iff)
  with valid show ?thesis
    using version_wire_single_line [of "req_version r"]
    by (simp add: valid_fields_lines) (simp add: single_line_def request_line_def)
qed

section \<open>A sample instance\<close>

text \<open>
  A parser of one literal request, one literal response and the empty trailer section, which
  shows that \<open>httparse_ok\<close> can hold.
\<close>

definition sample_request :: bytes where
  "sample_request = ''POST /a HTTP/1.1'' @ CRLF @ ''Host: x'' @ CRLF @ ''Transfer-Encoding: chunked'' @ CRLF @ CRLF"

definition sample_response :: bytes where
  "sample_response = ''HTTP/1.1 200 OK'' @ CRLF @ ''Content-Length: 5'' @ CRLF @ CRLF"

definition sample_httparse :: httparse where
  "sample_httparse =
     \<lparr>hp_parse_request = (\<lambda>head n.
        if starts_with head sample_request \<and> 2 \<le> n then
          Inr (Some (57, \<lparr>hpq_method = Some ''POST'', hpq_path = Some ''/a'', hpq_version = Some 1,
            hpq_headers =
              [\<lparr>hp_name = \<lparr>part_at = 18, part_len = 4\<rparr>, hp_value = \<lparr>part_at = 24, part_len = 1\<rparr>\<rparr>,
               \<lparr>hp_name = \<lparr>part_at = 27, part_len = 17\<rparr>, hp_value = \<lparr>part_at = 46, part_len = 7\<rparr>\<rparr>]\<rparr>))
        else Inr None),
      hp_parse_response = (\<lambda>config head n.
        if starts_with head sample_response \<and> 1 \<le> n then
          Inr (Some (38, \<lparr>hpr_version = Some 1, hpr_code = Some 200,
            hpr_headers =
              [\<lparr>hp_name = \<lparr>part_at = 17, part_len = 14\<rparr>, hp_value = \<lparr>part_at = 33, part_len = 1\<rparr>\<rparr>]\<rparr>))
        else Inr None),
      hp_parse_headers = (\<lambda>data n. if starts_with data CRLF then Inr (Some (2, [])) else Inr None),
      hp_display = (\<lambda>error. ''error'')\<rparr>"

lemma sample_lengths: "length sample_request = 57" "length sample_response = 38"
  by (simp_all add: sample_request_def sample_response_def)

lemma sample_start_line: "start_line sample_response = Some (0, ''HTTP/1.1 200 OK'')"
  by code_simp

lemma sample_httparse_ok: "httparse_ok sample_httparse"
proof -
  have "status_line_ok ''HTTP/1.1 200 OK''"
    unfolding status_line_ok_def
    by (rule exI [of _ "''HTTP/1.1''"], rule exI [of _ "'' ''"], rule exI [of _ "''200''"], rule exI [of _ "'' OK''"])
       (simp add: byte_defs)
  moreover have "list_all is_tchar ''POST''" by (simp add: byte_defs)
  ultimately show ?thesis
    by (auto simp: httparse_ok_def sample_httparse_def request_ok_def response_ok_def trailers_ok_def part_end_def
        starts_with_iff sample_start_line sample_lengths split: if_splits)
qed


lemma status_digits_200: "status_digits (StatusCode 200) = ''200''"
  by code_simp

section \<open>Properties\<close>

text \<open>
  C31: a request head that passes validation is exactly its lines: splitting the bytes at LF
  gives the request line, one line per field with Host first, and the empty line, each ended
  by CR. No target, name or value can smuggle a line of its own.
\<close>

theorem request_head_lines:
  assumes "headers_inv (req_headers r)" and "method_ok (req_method r)"
    and "validate_request r (scan (req_headers r)) = Inr ()"
  shows "\<exists>host rest. eq_ignore_ascii_case (fst host) ''host''
    \<and> mset (host # rest) = mset (headers_iter (req_headers r))
    \<and> split_slice (\<lambda>b. b = LF) (serialize_request r (host_at (scan (req_headers r))))
      = map (\<lambda>l. l @ [CR]) (request_line r # field_line host # map field_line rest @ [[]]) @ [[]]"
proof -
  let ?fs = "headers_iter (req_headers r)" and ?i = "host_at (scan (req_headers r))"
  have host: "?i < length ?fs" "eq_ignore_ascii_case (fst (?fs ! ?i)) ''host''"
    using assms(3) scan_host [of "req_headers r"] by (auto simp: validate_request_Inr)
  have "mset (?fs ! ?i # take ?i ?fs @ drop (Suc ?i) ?fs) = mset (take ?i ?fs @ ?fs ! ?i # drop (Suc ?i) ?fs)" by simp
  also have "\<dots> = mset ?fs" using host(1) by (simp add: id_take_nth_drop [symmetric])
  finally have "mset (?fs ! ?i # take ?i ?fs @ drop (Suc ?i) ?fs) = mset ?fs" .
  moreover have "move_to_front ?i ?fs = ?fs ! ?i # take ?i ?fs @ drop (Suc ?i) ?fs"
    using host(1) by (simp add: move_to_front_def)
  ultimately show ?thesis
    using host(2) split_line_text [OF request_lines_single [OF assms, of ?i]]
    by (intro exI [of _ "?fs ! ?i"] exI [of _ "take ?i ?fs @ drop (Suc ?i) ?fs"])
       (simp add: serialize_request_text)
qed

theorem request_head_lines_witness:
  "\<exists>rest. split_slice (\<lambda>b. b = LF)
     (serialize_request \<lparr>req_method = method_get, req_target = ''/'', req_headers = headers_from
        [(''A'', ''b''), (''Host'', ''x'')], req_version = Http11\<rparr> 1)
   = (''GET / HTTP/1.1'' @ [CR]) # rest"
proof -
  let ?r = "\<lparr>req_method = method_get, req_target = ''/'', req_headers = headers_from
        [(''A'', ''b''), (''Host'', ''x'')], req_version = Http11\<rparr>"
  have 1: "validate_request ?r (scan (req_headers ?r)) = Inr ()" by code_simp
  have 2: "host_at (scan (req_headers ?r)) = 1" by code_simp
  have 3: "method_ok (req_method ?r)" by code_simp
  have 4: "headers_inv (req_headers ?r)" by simp
  have 5: "request_line ?r = ''GET / HTTP/1.1''" by code_simp
  from request_head_lines [OF 4 3 1] show ?thesis unfolding 2 5 by force
qed

text \<open>
  C32: a response head whose fields and reason phrase pass validation is exactly its lines,
  so no reason phrase, field name or value can split the response.
\<close>

theorem response_head_lines:
  assumes "headers_inv h" and "status_ok s"
    and "validate_headers h = Inr ()" and "validate_reason reason = Inr ()"
  shows "split_slice (\<lambda>b. b = LF) (serialize_response v s reason h)
    = map (\<lambda>l. l @ [CR]) (status_line v s reason # map field_line (headers_iter h) @ [[]]) @ [[]]"
proof -
  have "single_line reason"
    using assms(4) line_value_single_line by (auto simp: validate_reason_def split: if_splits)
  then have "single_line (status_line v s reason)"
    using version_wire_single_line [of v] status_digits_single_line [OF assms(2)]
    by (simp add: status_line_def single_line_def)
  moreover have "list_all single_line (map field_line (headers_iter h))"
    using assms(1,3) by (intro valid_fields_lines) (simp add: validate_headers_Inr)
  ultimately have "list_all single_line (status_line v s reason # map field_line (headers_iter h) @ [[]])"
    by (simp add: single_line_def)
  from split_line_text [OF this] show ?thesis by (simp only: serialize_response_text)
qed

theorem response_head_lines_witness:
  "split_slice (\<lambda>b. b = LF) (serialize_response Http11 (StatusCode 200) ''OK'' (headers_from [(''A'', ''b'')]))
   = [''HTTP/1.1 200 OK'' @ [CR], ''A: b'' @ [CR], [CR], []]"
proof -
  let ?h = "headers_from [(''A'', ''b'')]"
  have "validate_headers ?h = Inr ()" "validate_reason ''OK'' = Inr ()" "status_ok (StatusCode 200)" by code_simp+
  from response_head_lines [OF headers_from_inv this(3,1,2), of Http11] show ?thesis
    using status_digits_200 by (simp add: status_line_def field_line_def)
qed

text \<open>
  C33: the capacity computed before a head is written is its exact length, so writing it
  never reallocates.
\<close>

theorem head_capacity_exact:
  "length (serialize_request r i) = request_capacity r
   \<and> length (serialize_response v s reason h) = response_capacity reason h"
proof -
  have len: "length (line_text (map field_line fs)) = sum_list (map (\<lambda>(n, v). length n + length v + 4) fs)" for fs
    by (induction fs) (auto simp: field_line_def)
  have "sum_list (map f (move_to_front i fs)) = sum_list (map f fs)" for f :: "bytes \<times> bytes \<Rightarrow> nat" and fs
  proof (cases "i < length fs")
    case True
    then have "sum_list (map f fs) = sum_list (map f (take i fs @ fs ! i # drop (Suc i) fs))"
      by (simp only: id_take_nth_drop [symmetric])
    with True show ?thesis by (simp add: move_to_front_def)
  qed (simp add: move_to_front_def)
  moreover have "length (version_wire v) = 3" for v by (cases v) simp_all
  ultimately show ?thesis
    by (simp add: request_capacity_def response_capacity_def serialize_request_text serialize_response_text len head_len_def request_line_def status_line_def
        status_digits_def Let_def)
qed

text \<open>
  C34: parsing a request head, a response head or trailers panics exactly when the vector of
  slots for the limit on fields cannot exist (from \<open>2 ^ 58\<close> fields on), whatever the bytes are;
  and it reports only what is there: the end is within the bytes given and past at least one
  of them, there are no more fields than the limit, and every field range is within the
  copied section.
\<close>

theorem head_parsing_safe:
  assumes "httparse_ok hp"
  shows "(slots_fit n \<longleftrightarrow> n < 2 ^ 58)
    \<and> (parse_request_head hp head n = Inl Panic \<longleftrightarrow> \<not> slots_fit n)
    \<and> (parse_response_head hp head n lenient = Inl Panic \<longleftrightarrow> \<not> slots_fit n)
    \<and> (parse_trailers hp head n unfold = Inl Panic \<longleftrightarrow> \<not> slots_fit n)
    \<and> (parse_request_head hp head n = Inr (Some (e1, req)) \<longrightarrow>
         0 < e1 \<and> e1 \<le> length head \<and> headers_inv (req_headers req) \<and> headers_len (req_headers req) \<le> n)
    \<and> (parse_response_head hp head n lenient = Inr (Some (e2, resp, d)) \<longrightarrow>
         0 < e2 \<and> e2 \<le> length head \<and> headers_inv (resp_headers resp) \<and> headers_len (resp_headers resp) \<le> n
         \<and> status_ok (resp_status resp))
    \<and> (parse_trailers hp head n unfold = Inr (Some (e3, h)) \<longrightarrow>
         0 < e3 \<and> e3 \<le> length head \<and> headers_inv h \<and> headers_len h \<le> n)"
  using parse_request_head_ok [OF assms] parse_response_head_ok [OF assms] parse_trailers_ok [OF assms] slots_fit_iff by auto

theorem head_parsing_safe_witness:
  "parse_request_head sample_httparse sample_request 100 \<noteq> Inl Panic
   \<and> parse_request_head sample_httparse sample_request (2 ^ 58) = Inl Panic"
  using head_parsing_safe [OF sample_httparse_ok, of 100 sample_request]
    head_parsing_safe [OF sample_httparse_ok, of "2 ^ 58" sample_request] by simp

text \<open>
  C35: unfolding a folded field value, in which every CR begins a CRLF and every LF is
  followed by whitespace, leaves no line break in it; and the shortcut for values without
  folding changes nothing.
\<close>

theorem unfolded_is_single_line:
  assumes "folded v"
  shows "single_line (normalize_obs_fold v) \<and> normalize_obs_fold v = unfold_from v [] 0"
  using unfold_from_lines [OF assms, of "[]" 0]
  by (simp add: normalize_obs_fold_eq single_line_def unfolding_to_def last_opt_def)

theorem unfolded_is_single_line_witness:
  "normalize_obs_fold (''a'' @ CRLF @ ''  b'') = ''a b''
   \<and> single_line (normalize_obs_fold (''a'' @ CRLF @ ''  b''))"
proof -
  have "folded (''a'' @ CRLF @ ''  b'')" by code_simp
  from unfolded_is_single_line [OF this] show ?thesis by code_simp
qed

end
