(* ===== verification/H11r_Chunked.thy ===== *)
theory H11r_Chunked
  imports H11r_Head
begin

text \<open>
  Chunk-size lines of \<open>wire/chunked.rs\<close>: the size with its extensions, the search for the end
  of the line, and the round trip with the prefix that \<open>DataPrefix::chunk_size\<close> writes.
  (\<open>parse_number\<close> is in \<open>H11r_Lexical\<close>, \<open>parse_trailers\<close> in \<open>H11r_Head\<close>.)
\<close>

section \<open>Chunk-size lines\<close>

text \<open>The inner \<open>while\<close> loops over token bytes.\<close>

function skip_token :: "bytes \<Rightarrow> nat \<Rightarrow> nat" where
  "skip_token line at =
     (if is_some_and is_token_byte (slice_get line at) then skip_token line (at + 1) else at)"
  by pat_completeness auto
termination
  by (relation "measure (\<lambda>(line, at). length line - at)") (auto split: option.splits)

declare skip_token.simps [simp del]

lemma skip_token_ge: "at \<le> skip_token line at"
proof (induction line at rule: skip_token.induct)
  case (1 line at)
  then show ?case by (subst skip_token.simps) (fastforce split: option.splits dest: Suc_leD)
qed

text \<open>One extension: the position after it, \<open>None\<close> when the line is malformed.\<close>

definition chunk_extension :: "bytes \<Rightarrow> nat \<Rightarrow> nat option" where
  "chunk_extension line at =
     (let at1 = skip_ows line at in
      if slice_get line at1 \<noteq> Some CHR '';'' then None
      else
        (let name = skip_ows line (at1 + 1);
             after_name = skip_token line name
         in if after_name = name then None
            else
              (let at2 = skip_ows line after_name
               in if slice_get line at2 = Some CHR ''='' then
                    (let value = skip_ows line (at2 + 1)
                     in if slice_get line value = Some DQUOTE then parse_quoted_string line value
                        else
                          (let at3 = skip_token line value
                           in if at3 = value then None else Some at3))
                  else if at2 \<noteq> after_name \<and> slice_get line at2 \<noteq> Some CHR '';'' then None
                  else Some at2)))"

lemma chunk_extension_advances: "chunk_extension line at = Some at' \<Longrightarrow> at < at'"
proof -
  assume ext: "chunk_extension line at = Some at'"
  let ?at1 = "skip_ows line at"
  let ?name = "skip_ows line (?at1 + 1)"
  let ?after = "skip_token line ?name"
  let ?at2 = "skip_ows line ?after"
  have le: "at \<le> ?at1" "?at1 + 1 \<le> ?name" "?name \<le> ?after" "?after \<le> ?at2"
    by (simp_all add: skip_ows_ge skip_token_ge)
  have "?at2 + 1 \<le> skip_ows line (?at2 + 1)"
    "skip_ows line (?at2 + 1) \<le> skip_token line (skip_ows line (?at2 + 1))"
    by (simp_all only: skip_ows_ge skip_token_ge)
  with ext le show ?thesis
    using parse_quoted_string_bounds [of line "skip_ows line (?at2 + 1)" at']
    unfolding chunk_extension_def Let_def by (auto split: if_splits simp del: slice_get_Some)
qed

function chunk_extensions :: "bytes \<Rightarrow> nat \<Rightarrow> bool" where
  "chunk_extensions line at =
     (if at < length line then
        (case chunk_extension line at of None \<Rightarrow> False | Some at' \<Rightarrow> chunk_extensions line at')
      else True)"
  by pat_completeness auto
termination
proof (relation "measure (\<lambda>(line, at). length line - at)", goal_cases)
  case (2 l i j)
  then show ?case using chunk_extension_advances [of l i j] by auto
qed simp

declare chunk_extensions.simps [simp del]

definition chunk_digits :: "bytes \<Rightarrow> nat" where
  "chunk_digits line = length (takeWhile is_ascii_hexdigit line)"

definition parse_chunk_header :: "bytes \<Rightarrow> nat option" where
  "parse_chunk_header line =
     (let digits = chunk_digits line
      in case parse_number (take digits line) 16 of
           None \<Rightarrow> None
         | Some n \<Rightarrow> if chunk_extensions line digits then Some n else None)"

section \<open>The end of a line\<close>

text \<open>\<open>data[start..]\<close> panics when \<open>start\<close> is out of range: the outer \<open>None\<close>.\<close>

definition find_crlf :: "bytes \<Rightarrow> nat \<Rightarrow> nat option option" where
  "find_crlf data start =
     (if start > length data then None
      else Some (map_option (\<lambda>at. start + at + 2)
             (position (\<lambda>pair. pair = (CR, LF)) (windows2 (drop start data)))))"

definition incomplete_line_len :: "bytes \<Rightarrow> nat" where
  "incomplete_line_len data = length data - (if last_opt data = Some CR then 1 else 0)"

section \<open>Searching for the end of the line\<close>

lemma length_windows2 [simp]: "length (windows2 v) = length v - 1"
  by (induction v rule: windows2.induct) auto

lemma nth_windows2: "i + 1 < length v \<Longrightarrow> windows2 v ! i = (v ! i, v ! (i + 1))"
proof (induction v arbitrary: i rule: windows2.induct)
  case (1 a b xs)
  then show ?case by (cases i) auto
qed auto

definition crlf_at :: "bytes \<Rightarrow> nat \<Rightarrow> bool" where
  "crlf_at d i \<longleftrightarrow> i + 1 < length d \<and> d ! i = CR \<and> d ! (i + 1) = LF"

lemma find_crlf_Some:
  assumes "start \<le> length d"
  shows "find_crlf d start = Some (Some e) \<longleftrightarrow>
    (\<exists>i \<ge> start. e = i + 2 \<and> crlf_at d i \<and> (\<forall>j. start \<le> j \<and> j < i \<longrightarrow> \<not> crlf_at d j))"
proof -
  have w: "k < length (windows2 (drop start d)) \<and> windows2 (drop start d) ! k = (CR, LF) \<longleftrightarrow> crlf_at d (start + k)" for k
    by (auto simp: crlf_at_def nth_windows2)
  have pos: "position (\<lambda>pair. pair = (CR, LF)) (windows2 (drop start d)) = Some k \<longleftrightarrow>
      crlf_at d (start + k) \<and> (\<forall>j < k. \<not> crlf_at d (start + j))" for k
  proof -
    have "windows2 (drop start d) ! j = (CR, LF) \<longleftrightarrow> crlf_at d (start + j)"
      if "k < length (windows2 (drop start d))" "j < k" for j
      using w [of j] that by simp
    then show ?thesis using w [of k] by (auto simp: position_Some)
  qed
  have "find_crlf d start = Some (Some e) \<longleftrightarrow> (\<exists>k. e = start + k + 2 \<and>
      position (\<lambda>pair. pair = (CR, LF)) (windows2 (drop start d)) = Some k)"
    using assms by (auto simp: find_crlf_def)
  also have "\<dots> \<longleftrightarrow> (\<exists>k. e = start + k + 2 \<and> crlf_at d (start + k) \<and> (\<forall>j < k. \<not> crlf_at d (start + j)))"
    by (simp only: pos)
  also have "\<dots> \<longleftrightarrow> (\<exists>i \<ge> start. e = i + 2 \<and> crlf_at d i \<and> (\<forall>j. start \<le> j \<and> j < i \<longrightarrow> \<not> crlf_at d j))"
  proof
    assume "\<exists>k. e = start + k + 2 \<and> crlf_at d (start + k) \<and> (\<forall>j < k. \<not> crlf_at d (start + j))"
    then obtain k where k: "e = start + k + 2" "crlf_at d (start + k)" "\<forall>j < k. \<not> crlf_at d (start + j)" by blast
    have "\<not> crlf_at d j" if "start \<le> j" "j < start + k" for j
      using k(3) [rule_format, of "j - start"] that by simp
    with k(1,2) show "\<exists>i \<ge> start. e = i + 2 \<and> crlf_at d i \<and> (\<forall>j. start \<le> j \<and> j < i \<longrightarrow> \<not> crlf_at d j)"
      by (intro exI [of _ "start + k"]) auto
  next
    assume "\<exists>i \<ge> start. e = i + 2 \<and> crlf_at d i \<and> (\<forall>j. start \<le> j \<and> j < i \<longrightarrow> \<not> crlf_at d j)"
    then obtain i where "start \<le> i" "e = i + 2" "crlf_at d i" "\<forall>j. start \<le> j \<and> j < i \<longrightarrow> \<not> crlf_at d j" by blast
    then show "\<exists>k. e = start + k + 2 \<and> crlf_at d (start + k) \<and> (\<forall>j < k. \<not> crlf_at d (start + j))"
      by (intro exI [of _ "i - start"]) auto
  qed
  finally show ?thesis .
qed

lemma find_crlf_None:
  assumes "start \<le> length d"
  shows "find_crlf d start = Some None \<longleftrightarrow> (\<forall>j \<ge> start. \<not> crlf_at d j)"
proof
  assume none: "find_crlf d start = Some None"
  show "\<forall>j \<ge> start. \<not> crlf_at d j"
  proof (rule ccontr)
    assume "\<not> (\<forall>j \<ge> start. \<not> crlf_at d j)"
    then have ex: "\<exists>j. start \<le> j \<and> crlf_at d j" by blast
    let ?i = "LEAST j. start \<le> j \<and> crlf_at d j"
    have "start \<le> ?i \<and> crlf_at d ?i" using LeastI_ex [OF ex] .
    moreover have "\<not> crlf_at d j" if "start \<le> j" "j < ?i" for j using that not_less_Least by blast
    ultimately have "find_crlf d start = Some (Some (?i + 2))" using find_crlf_Some [OF assms] by blast
    with none show False by simp
  qed
next
  assume none: "\<forall>j \<ge> start. \<not> crlf_at d j"
  obtain r where r: "find_crlf d start = Some r" using assms by (simp add: find_crlf_def)
  with none find_crlf_Some [OF assms] show "find_crlf d start = Some None" by (cases r) auto
qed

lemma find_crlf_total: "start \<le> length d \<Longrightarrow> \<exists>r. find_crlf d start = Some r"
  by (simp add: find_crlf_def)

lemma find_crlf_bounds: "find_crlf d start = Some (Some e) \<Longrightarrow> start + 2 \<le> e \<and> e \<le> length d"
proof -
  assume f: "find_crlf d start = Some (Some e)"
  then have "start \<le> length d" by (simp add: find_crlf_def split: if_splits)
  from find_crlf_Some [OF this, of e] f show ?thesis by (auto simp: crlf_at_def)
qed

lemma crlf_at_append: "crlf_at (d @ x) j \<Longrightarrow> j + 1 < length d \<Longrightarrow> crlf_at d j"
  by (auto simp: crlf_at_def nth_append)

text \<open>Bytes already searched, all but the last, need not be searched again.\<close>

lemma find_crlf_resume:
  assumes "find_crlf d start = Some None" and "start \<le> length d - 1"
  shows "find_crlf (d @ x) (length d - 1) = find_crlf (d @ x) start"
proof -
  have le: "start \<le> length d" "length d - 1 \<le> length (d @ x)" "start \<le> length (d @ x)" using assms(2) by auto
  have none: "\<not> crlf_at (d @ x) j" if "start \<le> j" "j < length d - 1" for j
  proof -
    have "j + 1 < length d" using that(2) by simp
    with crlf_at_append [of d x j] find_crlf_None [OF le(1), THEN iffD1, OF assms(1)] that(1) show ?thesis by blast
  qed
  obtain r s where r: "find_crlf (d @ x) (length d - 1) = Some r" and s: "find_crlf (d @ x) start = Some s"
    using find_crlf_total [OF le(2)] find_crlf_total [OF le(3)] by blast
  let ?at = "\<lambda>k e i. k \<le> i \<and> e = i + 2 \<and> crlf_at (d @ x) i \<and> (\<forall>j. k \<le> j \<and> j < i \<longrightarrow> \<not> crlf_at (d @ x) j)"
  have "?at (length d - 1) e i \<longleftrightarrow> ?at start e i" for e i
  proof
    assume at: "?at (length d - 1) e i"
    have "\<not> crlf_at (d @ x) j" if "start \<le> j" "j < i" for j
    proof (cases "j < length d - 1")
      case True
      with none that(1) show ?thesis by blast
    next
      case False
      with at that(2) show ?thesis by (simp only: not_less simp_thms)
    qed
    moreover have "start \<le> i" using at assms(2) by linarith
    ultimately show "?at start e i" using at by blast
  next
    assume at: "?at start e i"
    with none [of i] have "length d - 1 \<le> i" by (meson not_le)
    moreover have "\<not> crlf_at (d @ x) j" if "length d - 1 \<le> j" "j < i" for j
      using at that assms(2) order.trans by blast
    ultimately show "?at (length d - 1) e i" using at by blast
  qed
  then have "r = Some e \<longleftrightarrow> s = Some e" for e
    using find_crlf_Some [OF le(2), of e, unfolded r option.inject]
      find_crlf_Some [OF le(3), of e, unfolded s option.inject] by (simp only:)
  then have "r = s" by (metis option.exhaust)
  with r s show ?thesis by simp
qed

section \<open>The chunk-size prefix\<close>

definition hex_digits :: "nat \<Rightarrow> nat \<Rightarrow> bytes" where
  "hex_digits k n = map (\<lambda>at. hex_digit ((n div 2 ^ (4 * (k - 1 - at))) mod 16)) [0..<k]"

lemma hex_digits_Suc: "hex_digits (Suc k) n = hex_digits k (n div 16) @ [hex_digit (n mod 16)]"
proof -
  have "n div 2 ^ (4 * (Suc k - 1 - at)) = n div 16 div 2 ^ (4 * (k - 1 - at))" if "at < k" for at
  proof -
    from that have "4 * (Suc k - 1 - at) = 4 + 4 * (k - 1 - at)" by simp
    then show ?thesis by (simp add: power_add div_mult2_eq)
  qed
  then show ?thesis by (simp add: hex_digits_def)
qed

lemma hex_digit_cases:
  assumes "d < 16"
  shows "to_digit (hex_digit d) 16 = Some d \<and> is_ascii_hexdigit (hex_digit d)"
proof -
  have "list_all (\<lambda>d. to_digit (hex_digit d) 16 = Some d \<and> is_ascii_hexdigit (hex_digit d)) [0..<16]"
    by code_simp
  with assms show ?thesis by (simp add: list_all_iff)
qed

lemma hex_digits_denote: "digits_denote 16 0 (hex_digits k n) = Some (n mod 16 ^ k)"
proof (induction k arbitrary: n)
  case 0
  then show ?case by (simp add: hex_digits_def)
next
  case (Suc k)
  have "n div 16 mod 16 ^ k * 16 + n mod 16 = n mod 16 ^ Suc k"
    using mod_mult2_eq [of n 16 "16 ^ k"] by (simp add: mult.commute)
  with Suc show ?case using hex_digit_cases [of "n mod 16"] by (simp add: hex_digits_Suc digits_denote_append)
qed

lemma hex_digits_hexdigit: "list_all is_ascii_hexdigit (hex_digits k n)"
  using hex_digit_cases by (simp add: hex_digits_def list_all_iff)

lemma significant_bits_bound: "n < 2 ^ significant_bits n"
proof (induction n rule: significant_bits.induct)
  case (1 n)
  show ?case
  proof (cases "n = 0")
    case False
    with 1 have "n div 2 < 2 ^ significant_bits (n div 2)" by simp
    with False show ?thesis by (subst significant_bits.simps) simp
  qed simp
qed

lemma significant_bits_le: "n < 2 ^ k \<Longrightarrow> significant_bits n \<le> k"
proof (induction k arbitrary: n)
  case 0
  then show ?case by (simp add: significant_bits.simps)
next
  case (Suc k)
  then have "significant_bits (n div 2) \<le> k" by (intro Suc.IH) auto
  then show ?case by (subst significant_bits.simps) simp
qed

lemma chunk_size_digits_bound:
  assumes "n \<le> usize_max"
  shows "1 \<le> chunk_size_digits n \<and> chunk_size_digits n \<le> 16 \<and> n < 16 ^ chunk_size_digits n"
proof -
  from assms have bits: "significant_bits n \<le> 64" by (intro significant_bits_le) (simp add: usize_max_def)
  then have digits: "chunk_size_digits n = max ((significant_bits n + 3) div 4) 1"
    by (simp add: chunk_size_digits_def div_ceil_def leading_zeros_def usize_bits_def)
  then have "significant_bits n \<le> 4 * chunk_size_digits n" by simp
  then have "n < 2 ^ (4 * chunk_size_digits n)"
    using significant_bits_bound [of n] power_increasing [of "significant_bits n" "4 * chunk_size_digits n" "2::nat"]
    by (meson less_le_trans one_le_numeral)
  then have "n < 16 ^ chunk_size_digits n" by (simp add: power_mult)
  with bits digits show ?thesis by simp
qed

lemma prefix_bytes_chunk_size:
  "prefix_bytes (chunk_size n) = hex_digits (chunk_size_digits n) n @ CRLF"
  by (simp add: prefix_bytes_def chunk_size_def Let_def hex_digits_def)

lemma takeWhile_all: "list_all P v \<Longrightarrow> takeWhile P v = v"
  by (simp add: list_all_iff)

lemma parse_chunk_header_hex:
  assumes "n \<le> usize_max"
  shows "parse_chunk_header (hex_digits (chunk_size_digits n) n) = Some n"
proof -
  let ?v = "hex_digits (chunk_size_digits n) n"
  have "?v \<noteq> []" using chunk_size_digits_bound [OF assms] by (simp add: hex_digits_def)
  moreover have "chunk_digits ?v = length ?v" by (simp add: chunk_digits_def takeWhile_all hex_digits_hexdigit)
  moreover have "chunk_extensions ?v (length ?v)" by (subst chunk_extensions.simps) simp
  ultimately show ?thesis
    using chunk_size_digits_bound [OF assms] assms
    by (simp add: parse_chunk_header_def Let_def parse_number_eq hex_digits_denote)
qed

lemma find_crlf_line:
  assumes "CR \<notin> set l"
  shows "find_crlf (l @ CRLF @ rest) 0 = Some (Some (length l + 2))"
proof -
  have "\<not> crlf_at (l @ CRLF @ rest) j" if "j < length l" for j
    using that assms by (auto simp: crlf_at_def nth_append in_set_conv_nth)
  then show ?thesis by (auto simp: find_crlf_Some crlf_at_def nth_append)
qed

lemma hex_digits_no_cr: "CR \<notin> set (hex_digits k n)"
proof -
  have "\<not> is_ascii_hexdigit CR" by (simp add: byte_defs)
  with hex_digits_hexdigit [of k n] show ?thesis by (auto simp: list_all_iff)
qed

section \<open>Properties\<close>

text \<open>
  C36: a chunk-size prefix reads back: whatever follows it, the receiver finds the end of
  its line and reads exactly the length it was made for, for every 64-bit length; and it
  fits its 18-byte array.
\<close>

theorem chunk_prefix_roundtrip:
  assumes "n \<le> usize_max"
  shows "\<exists>line. prefix_bytes (chunk_size n) = line @ CRLF
    \<and> find_crlf (prefix_bytes (chunk_size n) @ rest) 0 = Some (Some (length line + 2))
    \<and> parse_chunk_header line = Some n
    \<and> length (dp_bytes (chunk_size n)) = 18 \<and> dp_len (chunk_size n) \<le> 18"
proof -
  let ?line = "hex_digits (chunk_size_digits n) n"
  have "find_crlf (?line @ CRLF @ rest) 0 = Some (Some (length ?line + 2))"
    by (rule find_crlf_line [OF hex_digits_no_cr])
  moreover have "length (dp_bytes (chunk_size n)) = 18 \<and> dp_len (chunk_size n) \<le> 18"
    using chunk_size_digits_bound [OF assms] by (simp add: chunk_size_def Let_def)
  ultimately show ?thesis
    using parse_chunk_header_hex [OF assms] by (intro exI [of _ ?line]) (simp add: prefix_bytes_chunk_size)
qed

theorem chunk_prefix_roundtrip_witness:
  "find_crlf (prefix_bytes (chunk_size 255) @ ''x'') 0 = Some (Some 4) \<and> parse_chunk_header ''ff'' = Some 255"
proof -
  have 1: "255 \<le> usize_max" by (simp add: usize_max_def)
  have 2: "prefix_bytes (chunk_size 255) = ''ff'' @ CRLF" by code_simp
  from chunk_prefix_roundtrip [OF 1, of "''x''"] obtain line where
    "''ff'' @ CRLF = line @ CRLF" "find_crlf (prefix_bytes (chunk_size 255) @ ''x'') 0 = Some (Some (length line + 2))"
    "parse_chunk_header line = Some 255" unfolding 2 by blast
  then show ?thesis by (metis append_same_eq length_Cons list.size(3) numeral_2_eq_2 numeral_Bit0 plus_1_eq_Suc one_add_one)
qed

text \<open>
  Resuming the search for the end of a chunk-size line one byte before the end of the
  bytes already searched finds what a search from the start finds, however the line arrives.
\<close>

theorem find_crlf_incremental:
  assumes "find_crlf d 0 = Some None"
  shows "find_crlf (d @ x) (length d - 1) = find_crlf (d @ x) 0"
  using find_crlf_resume [OF assms] by simp

theorem find_crlf_incremental_witness:
  "find_crlf (''5'' @ [CR] @ [LF]) 1 = find_crlf (''5'' @ [CR] @ [LF]) 0"
proof -
  have "find_crlf (''5'' @ [CR]) 0 = Some None" by code_simp
  from find_crlf_incremental [OF this, of "[LF]"] show ?thesis by simp
qed

end
