(* ===== verification/H11r_Connection.thy ===== *)
theory H11r_Connection
  imports H11r_State H11r_Chunked
begin

text \<open>
  The connection of \<open>connection/mod.rs\<close>: its fields, the queries, the helpers that receiving
  and sending share, and the operations \<open>start_next_cycle\<close> and \<open>close\<close>.

  A method that takes \<open>&mut self\<close> is a function from a connection to the connection after it
  and its result.
\<close>

section \<open>State\<close>

datatype RequestKind = KindOther | KindHead | KindConnect

definition from_method :: "bytes \<Rightarrow> RequestKind" where
  "from_method method =
     (if method = ''HEAD'' then KindHead else if method = ''CONNECT'' then KindConnect else KindOther)"

datatype Polled =
    PolledEvent Event
  | PolledData nat bool bool
  | PolledNeedData
  | PolledPaused

record Cycle =
  progress :: SectionProgress
  cyc_reader :: Reader
  writer :: "Framing option"
  chunk_extension_bytes :: nat
  request_kind :: "RequestKind option"
  upgrade_proposals :: "bytes list"
  waiting_for_continue :: bool
  continue_before_upgrade :: bool

record Connection =
  role :: Role
  conn_state :: ConnectionState
  limits :: Limits
  lenient :: bool
  conn_input :: Buffer
  held :: nat
  eof :: bool
  peer_version :: "Version option"
  cycle :: Cycle

definition cycle_default :: Cycle where
  "cycle_default = \<lparr>progress = progress_default, cyc_reader = ReadHead, writer = None,
     chunk_extension_bytes = 0, request_kind = None, upgrade_proposals = [],
     waiting_for_continue = False, continue_before_upgrade = False\<rparr>"

definition connection_new :: "Role \<Rightarrow> Limits \<Rightarrow> Connection" where
  "connection_new r l = \<lparr>role = r, conn_state = connection_state_new, limits = l, lenient = False,
     conn_input = buffer_default, held = 0, eof = False, peer_version = None, cycle = cycle_default\<rparr>"

definition make_lenient :: "Connection \<Rightarrow> Connection" where
  "make_lenient c = c\<lparr>lenient := True\<rparr>"

section \<open>Queries\<close>

definition local_state :: "Connection \<Rightarrow> State" where
  "local_state c = role_state (conn_state c) (role c)"

definition peer_state :: "Connection \<Rightarrow> State" where
  "peer_state c = role_state (conn_state c) (peer (role c))"

definition keep_alive :: "Connection \<Rightarrow> bool" where
  "keep_alive c \<longleftrightarrow>
     cs_keep_alive (conn_state c)
     \<and> list_all (\<lambda>s. s \<notin> {MustClose, Closed, Error, SwitchedProtocol}) [local_state c, peer_state c]"

definition peer_http_version :: "Connection \<Rightarrow> Version option" where
  "peer_http_version c = peer_version c"

definition client_is_waiting_for_100_continue :: "Connection \<Rightarrow> bool" where
  "client_is_waiting_for_100_continue c = waiting_for_continue (cycle c)"

abbreviation input_bytes :: "Connection \<Rightarrow> bytes" where
  "input_bytes c \<equiv> as_slice (conn_input c)"

definition trailing_data :: "Connection \<Rightarrow> bytes \<times> bool" where
  "trailing_data c = (input_bytes c, eof c)"

section \<open>Helpers of receiving and sending\<close>

definition advance_peer :: "Connection \<Rightarrow> StateEvent \<Rightarrow> Connection \<times> (RemoteProtocolError + unit)" where
  "advance_peer c e =
     (case process_event (conn_state c) (peer (role c)) e of
        Inl _ \<Rightarrow> (c, Inl (remote ''event is invalid in the peer state'' (Some 400)))
      | Inr s \<Rightarrow> (c\<lparr>conn_state := s\<rparr>, Inr ()))"

definition advance_local :: "Connection \<Rightarrow> StateEvent \<Rightarrow> Connection \<times> (LocalProtocolError + unit)" where
  "advance_local c e =
     (case process_event (conn_state c) (role c) e of
        Inl _ \<Rightarrow> (c, Inl (local ''event is invalid in the local state''))
      | Inr s \<Rightarrow> (c\<lparr>conn_state := s\<rparr>, Inr ()))"

definition request_is :: "Connection \<Rightarrow> RequestKind \<Rightarrow> bool" where
  "request_is c kind \<longleftrightarrow> request_kind (cycle c) = Some kind"

definition opens_tunnel :: "Connection \<Rightarrow> StatusCode \<Rightarrow> bool" where
  "opens_tunnel c status \<longleftrightarrow> request_is c KindConnect \<and> is_success status"

definition response_has_no_body :: "Connection \<Rightarrow> StatusCode \<Rightarrow> bool" where
  "response_has_no_body c status \<longleftrightarrow>
     as_u16 status \<in> {204, 304} \<or> request_is c KindHead \<or> opens_tunnel c status"

definition final_response_event :: "Connection \<Rightarrow> StatusCode \<Rightarrow> StateEvent" where
  "final_response_event c status =
     (if opens_tunnel c status then ProtocolSwitch Connect else Response)"

definition valid_upgrade_response :: "Connection \<Rightarrow> Version \<Rightarrow> Headers \<Rightarrow> bool" where
  "valid_upgrade_response c version h \<longleftrightarrow>
     version = Http11 \<and> has_token h ''connection'' ''upgrade''
     \<and> is_some_and (\<lambda>selected. selected \<noteq> []
          \<and> list_all (\<lambda>s. list_ex (\<lambda>offered. protocol_matches offered s) (upgrade_proposals (cycle c))) selected)
        (upgrade_protocols h)"

definition informational_event :: "Connection \<Rightarrow> StatusCode \<Rightarrow> Version \<Rightarrow> Headers \<Rightarrow> StateEvent option" where
  "informational_event c status version h =
     (if as_u16 status \<noteq> 101 then Some InformationalResponse
      else if \<not> continue_before_upgrade (cycle c) \<and> valid_upgrade_response c version h
      then Some (ProtocolSwitch Upgrade) else None)"

definition conn_disable_keep_alive :: "Connection \<Rightarrow> Connection" where
  "conn_disable_keep_alive c = c\<lparr>conn_state := disable_keep_alive (conn_state c)\<rparr>"

definition record_request ::
  "Connection \<Rightarrow> Method \<Rightarrow> Version \<Rightarrow> Fields \<Rightarrow> Framing \<Rightarrow> bytes list \<Rightarrow> Connection" where
  "record_request c method version f body_framing upgrades =
     (let c1 = (if \<not> persistent f version then conn_disable_keep_alive c else c);
          waiting = expects_continue f version body_framing
      in c1\<lparr>cycle := (cycle c1)\<lparr>request_kind := Some (from_method (as_bytes method)),
              waiting_for_continue := waiting,
              continue_before_upgrade := (waiting \<and> upgrades \<noteq> []),
              upgrade_proposals := upgrades\<rparr>\<rparr>)"

definition record_informational :: "Connection \<Rightarrow> StatusCode \<Rightarrow> Connection" where
  "record_informational c status =
     (if as_u16 status = 100
      then c\<lparr>cycle := (cycle c)\<lparr>waiting_for_continue := False, continue_before_upgrade := False\<rparr>\<rparr>
      else c)"

definition record_response :: "Connection \<Rightarrow> Connection" where
  "record_response c =
     c\<lparr>cycle := (cycle c)\<lparr>waiting_for_continue := False, continue_before_upgrade := False,
        upgrade_proposals := []\<rparr>\<rparr>"

definition request_event :: "Method \<Rightarrow> bytes list \<Rightarrow> StateEvent" where
  "request_event method upgrades = Request (from_flags (method = method_connect) (upgrades \<noteq> []))"

definition content_forbidden :: "Method \<Rightarrow> Framing \<Rightarrow> bool" where
  "content_forbidden method body_framing \<longleftrightarrow>
     body_framing \<noteq> Fixed 0 \<and> method \<in> set [method_connect, method_trace]"

section \<open>Cycles and closing\<close>

definition start_next_cycle :: "Connection \<Rightarrow> Connection \<times> (LocalProtocolError + unit)" where
  "start_next_cycle c =
     (if role c = Client \<and> peer_state c = Done \<and> input_bytes c \<noteq> [] then
        (conn_disable_keep_alive c,
         Inl (local ''unsolicited bytes follow the response; the connection is not reusable''))
      else
        (case state_start_next_cycle (conn_state c) of
           Inl _ \<Rightarrow> (c, Inl (local ''connection is not reusable''))
         | Inr s \<Rightarrow> (c\<lparr>conn_state := s, cycle := cycle_default\<rparr>, Inr ())))"

definition close :: "Connection \<Rightarrow> Connection \<times> (LocalProtocolError + unit)" where
  "close c =
     (case advance_local c ConnectionClosed of
        (c1, Inl e) \<Rightarrow> (c1, Inl e)
      | (c1, Inr _) \<Rightarrow> (c1\<lparr>cycle := (cycle c1)\<lparr>writer := None\<rparr>\<rparr>, Inr ()))"

section \<open>The invariant\<close>

text \<open>What a step of one actor, or of the connection, leaves of the other actor's phase.\<close>

definition phase_kept :: "Role \<Rightarrow> ConnectionState \<Rightarrow> ConnectionState \<Rightarrow> bool" where
  "phase_kept r s t \<longleftrightarrow>
     (role_state t r = SendBody \<longleftrightarrow> role_state s r = SendBody)
     \<and> (role_state s r \<in> {SwitchedProtocol, Error} \<longrightarrow> role_state t r = role_state s r)"

lemma phase_kept_settle: "phase_kept r s (settle s)"
  by (cases r) (auto simp: phase_kept_def settle_simps)

lemma phase_kept_trans: "phase_kept r s t \<Longrightarrow> phase_kept r t u \<Longrightarrow> phase_kept r s u"
  by (auto simp: phase_kept_def)

lemma phase_kept_set: "r \<noteq> r' \<Longrightarrow> phase_kept r s (set_role_state s r' x)"
  by (cases r; cases r') (auto simp: phase_kept_def set_role_state_def)

lemma phase_kept_event:
  assumes "process_event s r' e = Inr t" and "r \<noteq> r'"
  shows "phase_kept r s t"
proof -
  have "t = s \<or> (\<exists>u. t = settle u \<and> phase_kept r s u)"
    using assms by (cases e; cases r; cases r')
      (auto simp: process_event_eqs phase_kept_def set_role_state_def)
  then show ?thesis
    using phase_kept_trans phase_kept_settle by (metis phase_kept_def)
qed

lemma phase_kept_disable: "phase_kept r s (disable_keep_alive s)"
  using phase_kept_settle [of r "s\<lparr>cs_keep_alive := False\<rparr>"]
  by (cases r) (simp_all add: disable_keep_alive_def stabilize_settle phase_kept_def)

lemma phase_kept_error: "r \<noteq> r' \<Longrightarrow> phase_kept r s (process_error s r')"
  using phase_kept_settle [of r "set_role_state (s\<lparr>cs_keep_alive := False\<rparr>) r' Error"]
    phase_kept_set [of r r' "s\<lparr>cs_keep_alive := False\<rparr>" Error]
  by (cases r; cases r') (simp_all add: process_error_def stabilize_settle phase_kept_def)

lemma peer_neq [simp]: "peer r \<noteq> r" "r \<noteq> peer r"
  by (cases r; simp)+

definition reader_wf :: "Reader \<Rightarrow> nat \<Rightarrow> bool" where
  "reader_wf rd available =
     (case rd of
        ReadChunked (Size scanned) \<Rightarrow> scanned \<le> available
      | ReadChunked (ChunkData n _) \<Rightarrow> 0 < n
      | _ \<Rightarrow> True)"

text \<open>
  \<open>conn_base\<close> holds at all times; \<open>conn_inv\<close>, between the calls, ties the reader to the
  phase of the peer as well.
\<close>

definition conn_base :: "Connection \<Rightarrow> bool" where
  [inv_defs]: "conn_base c \<longleftrightarrow>
     buffer_inv (conn_input c) \<and> progress_inv (progress (cycle c)) \<and> lifecycle_inv (conn_state c)
     \<and> (writer (cycle c) \<noteq> None \<longleftrightarrow> local_state c = SendBody)
     \<and> reader_wf (cyc_reader (cycle c)) (length (input_bytes c))"

definition reader_phase :: "Reader \<Rightarrow> State \<Rightarrow> bool" where
  "reader_phase rd s \<longleftrightarrow>
     (s = SendBody \<longrightarrow> rd \<noteq> ReadHead)
     \<and> (rd \<noteq> ReadHead \<longrightarrow> s \<in> {SendBody, SwitchedProtocol, Error})"

definition conn_inv :: "Connection \<Rightarrow> bool" where
  [inv_defs]: "conn_inv c \<longleftrightarrow> conn_base c \<and> reader_phase (cyc_reader (cycle c)) (peer_state c)"

lemma conn_inv_new: "conn_inv (connection_new r l)"
  by (cases r) (simp_all add: conn_inv_def conn_base_def connection_new_def cycle_default_def
      lifecycle_inv_new [unfolded connection_state_new_def] local_state_def peer_state_def connection_state_new_def reader_wf_def reader_phase_def)

lemma reader_phase_kept: "phase_kept r s t \<Longrightarrow> reader_phase rd (role_state s r) \<Longrightarrow> reader_phase rd (role_state t r)"
  by (auto simp: phase_kept_def reader_phase_def)

text \<open>A change of the lifecycle state alone.\<close>

lemma conn_base_state:
  "conn_base c \<Longrightarrow> lifecycle_inv s \<Longrightarrow> phase_kept (role c) (conn_state c) s \<Longrightarrow> conn_base (c\<lparr>conn_state := s\<rparr>)"
  by (auto simp: conn_base_def local_state_def phase_kept_def)

lemma conn_inv_state:
  "conn_inv c \<Longrightarrow> lifecycle_inv s \<Longrightarrow> phase_kept (role c) (conn_state c) s \<Longrightarrow>
   phase_kept (peer (role c)) (conn_state c) s \<Longrightarrow> conn_inv (c\<lparr>conn_state := s\<rparr>)"
  by (auto simp: conn_inv_def conn_base_state peer_state_def intro: reader_phase_kept)

lemma conn_base_lifecycle: "conn_base c \<Longrightarrow> lifecycle_inv (conn_state c)"
  by (simp add: conn_base_def)

lemma conn_base_disable: "conn_base c \<Longrightarrow> conn_base (conn_disable_keep_alive c)"
  by (simp add: conn_disable_keep_alive_def conn_base_state phase_kept_disable lifecycle_inv_disable conn_base_lifecycle)

lemma conn_inv_disable: "conn_inv c \<Longrightarrow> conn_inv (conn_disable_keep_alive c)"
  unfolding conn_disable_keep_alive_def
  by (intro conn_inv_state phase_kept_disable lifecycle_inv_disable) (simp_all add: conn_inv_def conn_base_lifecycle)

lemma conn_disable_fields [simp]:
  "role (conn_disable_keep_alive c) = role c" "limits (conn_disable_keep_alive c) = limits c"
  "conn_input (conn_disable_keep_alive c) = conn_input c" "eof (conn_disable_keep_alive c) = eof c"
  "cycle (conn_disable_keep_alive c) = cycle c" "held (conn_disable_keep_alive c) = held c"
  "peer_version (conn_disable_keep_alive c) = peer_version c" "lenient (conn_disable_keep_alive c) = lenient c"
  by (simp_all add: conn_disable_keep_alive_def)

lemma advance_local_cases:
  assumes "advance_local c e = (c', r)"
  obtains "r = Inl (local ''event is invalid in the local state'')" "c' = c"
  | s where "r = Inr ()" "process_event (conn_state c) (role c) e = Inr s" "c' = c\<lparr>conn_state := s\<rparr>"
  using assms by (auto simp: advance_local_def split: sum.splits)

lemma advance_peer_cases:
  assumes "advance_peer c e = (c', r)"
  obtains "r = Inl (remote ''event is invalid in the peer state'' (Some 400))" "c' = c"
  | s where "r = Inr ()" "process_event (conn_state c) (peer (role c)) e = Inr s" "c' = c\<lparr>conn_state := s\<rparr>"
  using assms by (auto simp: advance_peer_def split: sum.splits)

lemma advance_peer_base: "conn_base c \<Longrightarrow> advance_peer c e = (c', r) \<Longrightarrow> conn_base c'"
proof (erule advance_peer_cases)
  fix s assume base: "conn_base c" and s: "process_event (conn_state c) (peer (role c)) e = Inr s"
    and c': "c' = c\<lparr>conn_state := s\<rparr>"
  show "conn_base c'"
    unfolding c' using base lifecycle_inv_event [OF conn_base_lifecycle [OF base] s] phase_kept_event [OF s]
    by (intro conn_base_state) simp_all
qed simp

section \<open>Preservation by the shared operations\<close>

lemma state_done_next: "state_start_next_cycle s = Inr t \<Longrightarrow> t = connection_state_new"
  by (auto simp: state_start_next_cycle_def split: if_splits)

lemma start_next_cycle_inv: "conn_inv c \<Longrightarrow> conn_inv (fst (start_next_cycle c))"
proof -
  assume inv: "conn_inv c"
  have "conn_inv (c\<lparr>conn_state := connection_state_new, cycle := cycle_default\<rparr>)"
    using inv by (cases "role c")
      (simp_all add: conn_inv_def conn_base_def cycle_default_def
        lifecycle_inv_new [unfolded connection_state_new_def] local_state_def peer_state_def
        connection_state_new_def reader_wf_def reader_phase_def)
  with inv show ?thesis
    by (auto simp: start_next_cycle_def conn_inv_disable dest: state_done_next split: sum.splits)
qed

lemma close_inv: "conn_inv c \<Longrightarrow> conn_inv (fst (close c))"
proof -
  assume inv: "conn_inv c"
  obtain c' r where a: "advance_local c ConnectionClosed = (c', r)" by fastforce
  show ?thesis
  proof (rule advance_local_cases [OF a])
    assume "r = Inl (local ''event is invalid in the local state'')" "c' = c"
    with inv a show ?thesis by (simp add: close_def)
  next
    fix s assume s: "r = Inr ()" "process_event (conn_state c) (role c) ConnectionClosed = Inr s"
      "c' = c\<lparr>conn_state := s\<rparr>"
    have "lifecycle_inv s" using lifecycle_inv_event [OF _ s(2)] inv by (simp add: conn_inv_def conn_base_lifecycle)
    moreover have "reader_phase (cyc_reader (cycle c)) (role_state s (peer (role c)))"
      using inv phase_kept_event [OF s(2), of "peer (role c)"]
      by (auto simp: conn_inv_def peer_state_def intro: reader_phase_kept)
    moreover have "role_state s (role c) \<noteq> SendBody"
      using s(2) by (cases "role c") (auto simp: process_event_closed settle_simps)
    ultimately show ?thesis
      using inv by (simp add: close_def a s conn_inv_def conn_base_def local_state_def peer_state_def)
  qed
qed

end
