(* ===== verification/H11r_Send.thy ===== *)
theory H11r_Send
  imports H11r_Connection "HOL-Library.Code_Target_Nat"
begin

text \<open>
  Serializing local events (\<open>connection/send.rs\<close>). Every function returns the connection
  after the call together with its result, so that what an error leaves behind is part of
  the model.
\<close>

type_synonym 'a sent = "Connection \<times> (LocalProtocolError + 'a)"

definition set_writer :: "Connection \<Rightarrow> Framing option \<Rightarrow> Connection" where
  "set_writer c w = c\<lparr>cycle := (cycle c)\<lparr>writer := w\<rparr>\<rparr>"

definition clear_waiting :: "Connection \<Rightarrow> Connection" where
  "clear_waiting c = c\<lparr>cycle := (cycle c)\<lparr>waiting_for_continue := False\<rparr>\<rparr>"

section \<open>Request heads\<close>

definition send_request :: "Connection \<Rightarrow> Request \<Rightarrow> bytes sent" where
  "send_request c r =
     (if role c \<noteq> Client then (c, Inl (local ''only a client connection can send a request''))
      else if input_bytes c \<noteq> [] then (c, Inl (local ''the peer sent bytes before any request''))
      else
        (let f = scan (req_headers r) in
         case validate_request r f of
           Inl e \<Rightarrow> (c, Inl e)
         | Inr _ \<Rightarrow>
             (case framing f (req_version r) False of
                Inl e \<Rightarrow> (c, Inl (local (err_message e)))
              | Inr body_framing \<Rightarrow>
                  if content_forbidden (req_method r) body_framing then
                    (c, Inl (local ''CONNECT and TRACE requests cannot carry content''))
                  else if body_framing = Fixed 0 \<and> expect_continue f then
                    (c, Inl (local ''100-continue requires request content''))
                  else
                    (case upgrade_protocols (req_headers r) of
                       None \<Rightarrow> (c, Inl (local ''invalid Upgrade field''))
                     | Some upgrades \<Rightarrow>
                         if fld_upgrade f \<and> upgrades = [] then
                           (c, Inl (local ''Connection: upgrade requires an Upgrade field''))
                         else
                           (let upgrades1 = (if req_version r = Http11 then upgrades else [])
                            in case advance_local c (request_event (req_method r) upgrades1) of
                                 (c1, Inl e) \<Rightarrow> (c1, Inl e)
                               | (c1, Inr _) \<Rightarrow>
                                   (let c2 = record_request c1 (req_method r) (req_version r) f body_framing upgrades1
                                    in (set_writer c2 (Some body_framing), Inr (serialize_request r (host_at f)))))))))"

section \<open>Response heads\<close>

definition send_informational_response :: "Connection \<Rightarrow> Response \<Rightarrow> bytes sent" where
  "send_informational_response c r =
     (if role c \<noteq> Server \<or> \<not> is_informational (resp_status r) then
        (c, Inl (local ''an informational response requires a server role and 1xx status''))
      else if peer_version c = Some Http10 then
        (c, Inl (local ''a 1xx response cannot be sent to an HTTP/1.0 client''))
      else
        (case validate_headers (resp_headers r) of
           Inl e \<Rightarrow> (c, Inl e)
         | Inr _ \<Rightarrow>
         (case validate_reason (resp_reason r) of
           Inl e \<Rightarrow> (c, Inl e)
         | Inr _ \<Rightarrow>
         (case check_send (scan (resp_headers r)) of
           Inl e \<Rightarrow> (c, Inl e)
         | Inr _ \<Rightarrow>
             if has_framing_fields (resp_headers r) then
               (c, Inl (local ''informational responses cannot carry framing fields''))
             else
               (case informational_event c (resp_status r) (resp_version r) (resp_headers r) of
                  None \<Rightarrow> (c, Inl (local ''invalid 101 Upgrade response''))
                | Some event \<Rightarrow>
                    (case advance_local c event of
                       (c1, Inl e) \<Rightarrow> (c1, Inl e)
                     | (c1, Inr _) \<Rightarrow>
                         (record_informational c1 (resp_status r),
                          Inr (serialize_response (resp_version r) (resp_status r) (resp_reason r)
                                 (resp_headers r)))))))))"

text \<open>
  The framing of a final response, with the fields to send: Transfer-Encoding is stripped for
  a peer that cannot read it, and a length or chunking is added where none is declared.
\<close>

definition declared_framing :: "Fields \<Rightarrow> Version \<Rightarrow> bool \<Rightarrow> LocalProtocolError + Framing" where
  "declared_framing f version bodyless =
     (case framing f version bodyless of Inl e \<Rightarrow> Inl (local (err_message e)) | Inr b \<Rightarrow> Inr b)"

definition strip_transfer_encoding ::
  "Headers \<Rightarrow> Fields \<Rightarrow> bool \<Rightarrow> bool \<Rightarrow> LocalProtocolError + Headers" where
  "strip_transfer_encoding h f stripped bodyless =
     (if stripped then
        (case declared_framing f Http11 bodyless of
           Inl e \<Rightarrow> Inl e
         | Inr _ \<Rightarrow> Inr (headers_retain (\<lambda>name _. \<not> eq_ignore_ascii_case name ''transfer-encoding'') h))
      else Inr h)"

definition response_framing ::
  "Headers \<Rightarrow> Fields \<Rightarrow> StatusCode \<Rightarrow> Version \<Rightarrow> bool \<Rightarrow> bool \<Rightarrow> bool \<Rightarrow> LocalProtocolError + Headers \<times> Framing" where
  "response_framing h f status version bodyless http11 declared =
     (if bodyless then
        (if declared then
           (case declared_framing f version bodyless of Inl e \<Rightarrow> Inl e | Inr _ \<Rightarrow> Inr (h, Fixed 0))
         else Inr (h, Fixed 0))
      else if as_u16 status = 205 then
        (if \<not> declared then Inr (headers_push h ''Content-Length'' ''0'', Fixed 0)
         else
           (case declared_framing f version bodyless of
              Inl e \<Rightarrow> Inl e
            | Inr b \<Rightarrow>
                if b \<noteq> Fixed 0 then Inl (local ''a 205 response cannot carry content'')
                else Inr (h, Fixed 0)))
      else if \<not> declared then
        (if http11 then Inr (headers_push h ''Transfer-Encoding'' ''chunked'', Chunked)
         else Inr (h, CloseDelimited))
      else (case declared_framing f version bodyless of Inl e \<Rightarrow> Inl e | Inr b \<Rightarrow> Inr (h, b)))"

definition request_unread :: "Connection \<Rightarrow> bool" where
  "request_unread c =
     (case cyc_reader (cycle c) of
        ReadFixed n \<Rightarrow> n > held c + length (input_bytes c)
      | _ \<Rightarrow> True)"

text \<open>After the state has accepted the response: every reason to close first, then the head.\<close>

definition finish_response_head ::
  "Connection \<Rightarrow> Response \<Rightarrow> Fields \<Rightarrow> Headers \<Rightarrow> Framing \<Rightarrow> bool \<Rightarrow> bool \<Rightarrow> Connection \<times> bytes" where
  "finish_response_head c r f h body_framing connect http11 =
     (let unread = request_unread c;
          c1 = (if body_framing = CloseDelimited \<or> (peer_state c = SendBody \<and> unread) \<or> fld_close f
                then conn_disable_keep_alive c else c);
          c2 = record_response c1;
          h1 = (if \<not> connect then
                  (if \<not> cs_keep_alive (conn_state c2) then set_connection_option h ''close''
                   else if \<not> http11 then set_connection_option h ''keep-alive'' else h)
                else h);
          c3 = set_writer c2 (if \<not> connect then Some body_framing else None)
      in (c3, serialize_response (resp_version r) (resp_status r) (resp_reason r) h1))"

definition send_response :: "Connection \<Rightarrow> Response \<Rightarrow> bytes sent" where
  "send_response c r =
     (let status = resp_status r; version = resp_version r; h = resp_headers r in
      if role c \<noteq> Server \<or> is_informational status then
        (c, Inl (local ''a final response requires a server role and non-1xx status''))
      else
        (case validate_headers h of
           Inl e \<Rightarrow> (c, Inl e)
         | Inr _ \<Rightarrow>
         (case validate_reason (resp_reason r) of
           Inl e \<Rightarrow> (c, Inl e)
         | Inr _ \<Rightarrow>
             (let f = scan h in
              case check_send f of
                Inl e \<Rightarrow> (c, Inl e)
              | Inr _ \<Rightarrow>
                  if as_u16 status = 426 \<and> is_none_or (\<lambda>protocols. protocols = []) (upgrade_protocols h) then
                    (c, Inl (local ''a 426 response requires an Upgrade field''))
                  else
                    (let connect = opens_tunnel c status in
                     if (as_u16 status = 204 \<or> connect) \<and> has_framing f then
                       (c, Inl (local ''this response status cannot carry framing fields''))
                     else
                       (let http11 = (peer_version c = Some Http11 \<and> version = Http11);
                            bodyless = response_has_no_body c status;
                            stripped = (\<not> http11 \<and> has_transfer_encoding f)
                        in case strip_transfer_encoding h f stripped bodyless of
                             Inl e \<Rightarrow> (c, Inl e)
                           | Inr h1 \<Rightarrow>
                               (case response_framing h1 f status version bodyless http11
                                       (has_framing f \<and> \<not> stripped) of
                                  Inl e \<Rightarrow> (c, Inl e)
                                | Inr (h2, body_framing) \<Rightarrow>
                                    (case advance_local c (final_response_event c status) of
                                       (c1, Inl e) \<Rightarrow> (c1, Inl e)
                                     | (c1, Inr _) \<Rightarrow>
                                         (case finish_response_head c1 r f h2 body_framing connect http11 of
                                            (c2, out) \<Rightarrow> (c2, Inr out))))))))))"

section \<open>Body data and the end of a message\<close>

definition send_data_framing :: "Connection \<Rightarrow> nat \<Rightarrow> (DataPrefix \<times> bytes) sent" where
  "send_data_framing c len =
     (case (case writer (cycle c) of
              None \<Rightarrow> Inl (local ''no message body is being sent'')
            | Some (Fixed n) \<Rightarrow>
                if len \<le> n then Inr (Fixed (n - len), data_prefix_default, [])
                else Inl (local ''body exceeds Content-Length'')
            | Some CloseDelimited \<Rightarrow> Inr (CloseDelimited, data_prefix_default, [])
            | Some Chunked \<Rightarrow>
                if len = 0 then Inr (Chunked, data_prefix_default, [])
                else Inr (Chunked, chunk_size len, CRLF)) of
        Inl e \<Rightarrow> (c, Inl e)
      | Inr (next_writer, prefix, suffix) \<Rightarrow>
          (case advance_local c Data of
             (c1, Inl e) \<Rightarrow> (c1, Inl e)
           | (c1, Inr _) \<Rightarrow> (clear_waiting (set_writer c1 (Some next_writer)), Inr (prefix, suffix))))"

definition send_data :: "Connection \<Rightarrow> bytes \<Rightarrow> bytes sent" where
  "send_data c d =
     (case send_data_framing c (length d) of
        (c1, Inl e) \<Rightarrow> (c1, Inl e)
      | (c1, Inr (prefix, suffix)) \<Rightarrow> (c1, Inr (prefix_bytes prefix @ d @ suffix)))"

definition send_data_parts :: "Connection \<Rightarrow> bytes \<Rightarrow> DataParts sent" where
  "send_data_parts c d =
     (case send_data_framing c (length d) of
        (c1, Inl e) \<Rightarrow> (c1, Inl e)
      | (c1, Inr (prefix, suffix)) \<Rightarrow>
          (c1, Inr \<lparr>parts_prefix = prefix, parts_data = d, parts_suffix = suffix\<rparr>))"

definition end_of_message :: "Connection \<Rightarrow> Headers \<Rightarrow> bytes sent" where
  "end_of_message c trailers =
     (case validate_trailers trailers of
        Inl e \<Rightarrow> (c, Inl e)
      | Inr _ \<Rightarrow>
          (case (case writer (cycle c) of
                   None \<Rightarrow> Inl (local ''no message body is being sent'')
                 | Some Chunked \<Rightarrow> Inr (write_headers (''0'' @ CRLF) trailers @ CRLF)
                 | Some (Fixed n) \<Rightarrow>
                     if n = 0 then
                       (if headers_is_empty trailers then Inr []
                        else Inl (local ''only chunked messages can carry trailers''))
                     else Inl (local ''body is shorter than Content-Length'')
                 | Some CloseDelimited \<Rightarrow>
                     if headers_is_empty trailers then Inr []
                     else Inl (local ''only chunked messages can carry trailers'')) of
             Inl e \<Rightarrow> (c, Inl e)
           | Inr out \<Rightarrow>
               (case advance_local c EndOfMessage of
                  (c1, Inl e) \<Rightarrow> (c1, Inl e)
                | (c1, Inr _) \<Rightarrow> (clear_waiting (set_writer c1 None), Inr out))))"

section \<open>Complete messages\<close>

definition complete_after_head :: "Connection \<Rightarrow> bytes \<Rightarrow> nat \<Rightarrow> (bytes \<times> bytes) sent" where
  "complete_after_head c before len =
     (if local_state c = SwitchedProtocol then
        (if len = 0 then (c, Inr (before, []))
         else (c, Inl (local ''a successful CONNECT response cannot carry content'')))
      else
        (case (if len \<noteq> 0 then
                 (case send_data_framing c len of
                    (c1, Inl e) \<Rightarrow> (c1, Inl e)
                  | (c1, Inr (prefix, suffix)) \<Rightarrow> (c1, Inr (before @ prefix_bytes prefix, suffix)))
               else (c, Inr (before, []))) of
           (c1, Inl e) \<Rightarrow> (c1, Inl e)
         | (c1, Inr (before1, after)) \<Rightarrow>
             (case end_of_message c1 headers_new of
                (c2, Inl e) \<Rightarrow> (c2, Inl e)
              | (c2, Inr out) \<Rightarrow> (c2, Inr (before1, after @ out)))))"

definition send_complete :: "Connection \<Rightarrow> (Connection \<Rightarrow> bytes sent) \<Rightarrow> nat \<Rightarrow> (bytes \<times> bytes) sent" where
  "send_complete c head len =
     (let saved_state = conn_state c; saved_cycle = cycle c
      in case (case head c of
                 (c1, Inl e) \<Rightarrow> (c1, Inl e)
               | (c1, Inr before) \<Rightarrow> complete_after_head c1 before len) of
           (c2, Inl e) \<Rightarrow> (c2\<lparr>conn_state := saved_state, cycle := saved_cycle\<rparr>, Inl e)
         | (c2, Inr out) \<Rightarrow> (c2, Inr out))"

definition send_request_with_body_framing :: "Connection \<Rightarrow> Request \<Rightarrow> nat \<Rightarrow> (bytes \<times> bytes) sent" where
  "send_request_with_body_framing c r len =
     (let expects_content = (req_method r \<in> set [method_post, method_put, method_patch]);
          r1 = (if (expects_content \<or> len \<noteq> 0) \<and> \<not> has_framing_fields (req_headers r)
                then r\<lparr>req_headers := headers_push (req_headers r) ''Content-Length'' (to_string len)\<rparr>
                else r)
      in send_complete c (\<lambda>c1. send_request c1 r1) len)"

definition send_response_with_body_framing :: "Connection \<Rightarrow> Response \<Rightarrow> nat \<Rightarrow> (bytes \<times> bytes) sent" where
  "send_response_with_body_framing c r len =
     (let r1 = (if \<not> has_framing_fields (resp_headers r) \<and> \<not> response_has_no_body c (resp_status r)
                then r\<lparr>resp_headers := headers_push (resp_headers r) ''Content-Length'' (to_string len)\<rparr>
                else r)
      in send_complete c (\<lambda>c1. send_response c1 r1) len)"

definition join_framing :: "bytes \<times> bytes \<Rightarrow> bytes \<Rightarrow> bytes" where
  "join_framing parts body = fst parts @ body @ snd parts"

definition send_request_with_body :: "Connection \<Rightarrow> Request \<Rightarrow> bytes \<Rightarrow> bytes sent" where
  "send_request_with_body c r body =
     (case send_request_with_body_framing c r (length body) of
        (c1, Inl e) \<Rightarrow> (c1, Inl e)
      | (c1, Inr parts) \<Rightarrow> (c1, Inr (join_framing parts body)))"

definition send_response_with_body :: "Connection \<Rightarrow> Response \<Rightarrow> bytes \<Rightarrow> bytes sent" where
  "send_response_with_body c r body =
     (case send_response_with_body_framing c r (length body) of
        (c1, Inl e) \<Rightarrow> (c1, Inl e)
      | (c1, Inr parts) \<Rightarrow> (c1, Inr (join_framing parts body)))"

section \<open>What an error leaves behind\<close>

lemma advance_local_error: "advance_local c e = (c', Inl x) \<Longrightarrow> c' = c"
  by (auto simp: advance_local_def split: sum.splits)

lemma send_request_error: "send_request c r = (c', Inl e) \<Longrightarrow> c' = c"
  unfolding send_request_def Let_def
  by (auto split: if_splits sum.splits option.splits prod.splits dest: advance_local_error)

lemma send_informational_error: "send_informational_response c r = (c', Inl e) \<Longrightarrow> c' = c"
  unfolding send_informational_response_def Let_def
  by (auto split: if_splits sum.splits option.splits prod.splits dest: advance_local_error)

lemma send_response_error: "send_response c r = (c', Inl e) \<Longrightarrow> c' = c"
  unfolding send_response_def Let_def
  by (auto split: if_splits sum.splits option.splits prod.splits dest: advance_local_error)

lemma send_data_framing_error: "send_data_framing c n = (c', Inl e) \<Longrightarrow> c' = c"
  unfolding send_data_framing_def
  by (auto split: if_splits sum.splits option.splits prod.splits Framing.splits dest: advance_local_error)

lemma end_of_message_error: "end_of_message c h = (c', Inl e) \<Longrightarrow> c' = c"
  unfolding end_of_message_def
  by (auto split: if_splits sum.splits option.splits prod.splits Framing.splits dest: advance_local_error)

section \<open>What a success went through\<close>

lemma send_request_Inr:
  assumes "send_request c r = (c', Inr out)"
  obtains b u s where "role c = Client" "input_bytes c = []" "validate_request r (scan (req_headers r)) = Inr ()"
    "framing (scan (req_headers r)) (req_version r) False = Inr b"
    "process_event (conn_state c) Client (request_event (req_method r) u) = Inr s"
    "c' = set_writer (record_request (c\<lparr>conn_state := s\<rparr>) (req_method r) (req_version r) (scan (req_headers r)) b u) (Some b)"
    "out = serialize_request r (host_at (scan (req_headers r)))"
  using assms unfolding send_request_def Let_def advance_local_def
  by (auto split: if_splits sum.splits option.splits prod.splits)

lemma send_informational_Inr:
  assumes "send_informational_response c r = (c', Inr out)"
  obtains ev s where "role c = Server" "informational_event c (resp_status r) (resp_version r) (resp_headers r) = Some ev"
    "process_event (conn_state c) Server ev = Inr s"
    "c' = record_informational (c\<lparr>conn_state := s\<rparr>) (resp_status r)"
    "validate_headers (resp_headers r) = Inr ()" "validate_reason (resp_reason r) = Inr ()"
    "out = serialize_response (resp_version r) (resp_status r) (resp_reason r) (resp_headers r)"
  using assms unfolding send_informational_response_def Let_def advance_local_def
  by (auto split: if_splits sum.splits option.splits prod.splits)

abbreviation peer_is_http11 :: "Connection \<Rightarrow> Response \<Rightarrow> bool" where
  "peer_is_http11 c r \<equiv> peer_version c = Some Http11 \<and> resp_version r = Http11"

abbreviation te_stripped :: "Connection \<Rightarrow> Response \<Rightarrow> bool" where
  "te_stripped c r \<equiv> \<not> peer_is_http11 c r \<and> has_transfer_encoding (scan (resp_headers r))"

lemma send_response_Inr:
  assumes "send_response c r = (c', Inr out)"
  obtains h1 h2 b s where "role c = Server" "validate_headers (resp_headers r) = Inr ()"
    "validate_reason (resp_reason r) = Inr ()" "check_send (scan (resp_headers r)) = Inr ()"
    "strip_transfer_encoding (resp_headers r) (scan (resp_headers r)) (te_stripped c r)
       (response_has_no_body c (resp_status r)) = Inr h1"
    "response_framing h1 (scan (resp_headers r)) (resp_status r) (resp_version r)
       (response_has_no_body c (resp_status r)) (peer_is_http11 c r)
       (has_framing (scan (resp_headers r)) \<and> \<not> te_stripped c r) = Inr (h2, b)"
    "process_event (conn_state c) Server (final_response_event c (resp_status r)) = Inr s"
    "finish_response_head (c\<lparr>conn_state := s\<rparr>) r (scan (resp_headers r)) h2 b
       (opens_tunnel c (resp_status r)) (peer_is_http11 c r) = (c', out)"
  using assms unfolding send_response_def Let_def advance_local_def
  by (simp split: if_splits sum.splits prod.splits del: de_Morgan_conj)

lemma send_data_framing_Inr:
  assumes "send_data_framing c n = (c', Inr ps)"
  obtains w w' where "writer (cycle c) = Some w" "local_state c = SendBody"
    "c' = clear_waiting (set_writer c (Some w'))"
    "case w of
       Fixed k \<Rightarrow> n \<le> k \<and> w' = Fixed (k - n) \<and> ps = (data_prefix_default, [])
     | CloseDelimited \<Rightarrow> w' = CloseDelimited \<and> ps = (data_prefix_default, [])
     | Chunked \<Rightarrow> w' = Chunked \<and> ps = (if n = 0 then (data_prefix_default, []) else (chunk_size n, CRLF))"
  using assms unfolding send_data_framing_def advance_local_def local_state_def
  by (auto simp: process_event_data split: if_splits sum.splits option.splits prod.splits Framing.splits)

lemma end_of_message_Inr:
  assumes "end_of_message c h = (c', Inr out)"
  obtains w s where "writer (cycle c) = Some w" "validate_trailers h = Inr ()"
    "process_event (conn_state c) (role c) EndOfMessage = Inr s"
    "c' = clear_waiting (set_writer (c\<lparr>conn_state := s\<rparr>) None)"
    "case w of
       Fixed k \<Rightarrow> k = 0 \<and> headers_is_empty h \<and> out = []
     | CloseDelimited \<Rightarrow> headers_is_empty h \<and> out = []
     | Chunked \<Rightarrow> out = write_headers (''0'' @ CRLF) h @ CRLF"
  using assms unfolding end_of_message_def advance_local_def
  by (auto split: if_splits sum.splits option.splits prod.splits Framing.splits)


section \<open>Preservation of the invariant\<close>

lemma conn_inv_local:
  assumes "conn_inv c" and "process_event (conn_state c) (role c) e = Inr s"
    and "w \<noteq> None \<longleftrightarrow> role_state s (role c) = SendBody"
  shows "conn_inv (set_writer (c\<lparr>conn_state := s\<rparr>) w)"
proof -
  have "lifecycle_inv s" using assms(1) lifecycle_inv_event [OF _ assms(2)] by (simp add: conn_inv_def conn_base_def)
  moreover have "reader_phase (cyc_reader (cycle c)) (role_state s (peer (role c)))"
    using assms(1) phase_kept_event [OF assms(2), of "peer (role c)"]
    by (auto simp: conn_inv_def peer_state_def intro: reader_phase_kept)
  ultimately show ?thesis
    using assms(1,3) by (simp add: conn_inv_def conn_base_def set_writer_def local_state_def peer_state_def)
qed

lemma conn_inv_flags:
  "conn_inv (c\<lparr>cycle := (cycle c)\<lparr>request_kind := a, waiting_for_continue := b, continue_before_upgrade := d,
      upgrade_proposals := u\<rparr>\<rparr>) = conn_inv c"
  "conn_inv (clear_waiting c) = conn_inv c"
  "conn_inv (record_response c) = conn_inv c"
  "conn_inv (record_informational c st) = conn_inv c"
  by (simp_all add: conn_inv_def conn_base_def local_state_def peer_state_def clear_waiting_def record_response_def
      record_informational_def)

lemma record_request_inv: "conn_inv c \<Longrightarrow> conn_inv (record_request c m v f b u)"
  by (simp add: record_request_def Let_def conn_inv_flags conn_inv_disable)

lemma set_writer_commute:
  "set_writer (record_request c m v f b u) w = record_request (set_writer c w) m v f b u"
  "set_writer (record_response c) w = record_response (set_writer c w)"
  "set_writer (conn_disable_keep_alive c) w = conn_disable_keep_alive (set_writer c w)"
  by (simp_all add: set_writer_def record_request_def record_response_def conn_disable_keep_alive_def Let_def)

lemma send_request_inv:
  assumes "conn_inv c" and "send_request c r = (c', x)"
  shows "conn_inv c'"
proof (cases x)
  case (Inl e)
  with assms send_request_error show ?thesis by blast
next
  case (Inr out)
  with assms(2) have "send_request c r = (c', Inr out)" by simp
  then show ?thesis
  proof (rule send_request_Inr)
    fix b u s assume s: "role c = Client" "process_event (conn_state c) Client (request_event (req_method r) u) = Inr s"
      and c': "c' = set_writer (record_request (c\<lparr>conn_state := s\<rparr>) (req_method r) (req_version r) (scan (req_headers r)) b u) (Some b)"
    have "role_state s Client = SendBody"
      using s(2) by (auto simp: request_event_def process_event_request settle_simps)
    with conn_inv_local [OF assms(1), of "request_event (req_method r) u" s "Some b"] s
    have "conn_inv (set_writer (c\<lparr>conn_state := s\<rparr>) (Some b))" by simp
    then show ?thesis unfolding c' set_writer_commute by (rule record_request_inv)
  qed
qed

lemma set_writer_same: "set_writer c (writer (cycle c)) = c"
  by (simp add: set_writer_def)

lemma informational_keeps_writer:
  assumes "conn_inv c" and "role c = Server" and "process_event (conn_state c) Server ev = Inr s"
    and "ev = InformationalResponse \<or> ev = ProtocolSwitch k"
  shows "conn_inv (c\<lparr>conn_state := s\<rparr>)"
proof -
  have "server (conn_state c) = SendResponse" "server s \<noteq> SendBody" using assms(3,4) by (auto simp: process_event_eqs)
  then have "writer (cycle c) \<noteq> None \<longleftrightarrow> role_state s (role c) = SendBody"
    using assms(1,2) by (simp add: conn_inv_def conn_base_def local_state_def)
  from conn_inv_local [OF assms(1) _ this] assms(2,3) show ?thesis
    using set_writer_same [of "c\<lparr>conn_state := s\<rparr>"] by simp
qed

lemma send_informational_inv:
  assumes "conn_inv c" and "send_informational_response c r = (c', x)"
  shows "conn_inv c'"
proof (cases x)
  case (Inl e)
  with assms send_informational_error show ?thesis by blast
next
  case (Inr out)
  with assms(2) have "send_informational_response c r = (c', Inr out)" by simp
  then show ?thesis
  proof (rule send_informational_Inr)
    fix ev s assume s: "role c = Server" "process_event (conn_state c) Server ev = Inr s"
      and ev: "informational_event c (resp_status r) (resp_version r) (resp_headers r) = Some ev"
      and c': "c' = record_informational (c\<lparr>conn_state := s\<rparr>) (resp_status r)"
    have "ev = InformationalResponse \<or> ev = ProtocolSwitch Upgrade"
      using ev by (auto simp: informational_event_def split: if_splits)
    from informational_keeps_writer [OF assms(1) s this] show ?thesis by (simp add: c' conn_inv_flags)
  qed
qed

lemma finish_response_head_inv:
  assumes "conn_inv (set_writer c (if \<not> cn then Some b else None))"
  shows "conn_inv (fst (finish_response_head c r f h b cn h11))"
  using assms conn_inv_disable
  by (cases cn) (auto simp: finish_response_head_def Let_def set_writer_commute conn_inv_flags)

lemma send_response_inv:
  assumes "conn_inv c" and "send_response c r = (c', x)"
  shows "conn_inv c'"
proof (cases x)
  case (Inl e)
  with assms send_response_error show ?thesis by blast
next
  case (Inr out)
  with assms(2) have "send_response c r = (c', Inr out)" by simp
  then show ?thesis
  proof (rule send_response_Inr)
    fix h1 h2 b s
    assume s: "role c = Server" "process_event (conn_state c) Server (final_response_event c (resp_status r)) = Inr s"
      and fin: "finish_response_head (c\<lparr>conn_state := s\<rparr>) r (scan (resp_headers r)) h2 b
         (opens_tunnel c (resp_status r)) (peer_is_http11 c r) = (c', out)"
    let ?w = "if \<not> opens_tunnel c (resp_status r) then Some b else None"
    have "?w \<noteq> None \<longleftrightarrow> role_state s (role c) = SendBody"
      using s by (auto simp: final_response_event_def process_event_eqs split: if_splits)
    from conn_inv_local [OF assms(1) _ this] s have "conn_inv (set_writer (c\<lparr>conn_state := s\<rparr>) ?w)" by simp
    from finish_response_head_inv [OF this, of r "scan (resp_headers r)" h2 "peer_is_http11 c r"] fin show ?thesis by simp
  qed
qed

lemma send_data_framing_inv:
  assumes "conn_inv c" and "send_data_framing c n = (c', x)"
  shows "conn_inv c'"
proof (cases x)
  case (Inl e)
  with assms send_data_framing_error show ?thesis by blast
next
  case (Inr ps)
  with assms(2) have "send_data_framing c n = (c', Inr ps)" by simp
  then show ?thesis
  proof (rule send_data_framing_Inr)
    fix w w' assume "writer (cycle c) = Some w" "local_state c = SendBody" "c' = clear_waiting (set_writer c (Some w'))"
    then show ?thesis
      using assms(1)
      by (simp add: conn_inv_flags) (simp add: conn_inv_def conn_base_def set_writer_def local_state_def peer_state_def)
  qed
qed

lemma end_of_message_inv:
  assumes "conn_inv c" and "end_of_message c h = (c', x)"
  shows "conn_inv c'"
proof (cases x)
  case (Inl e)
  with assms end_of_message_error show ?thesis by blast
next
  case (Inr out)
  with assms(2) have "end_of_message c h = (c', Inr out)" by simp
  then show ?thesis
  proof (rule end_of_message_Inr)
    fix w s assume s: "process_event (conn_state c) (role c) EndOfMessage = Inr s"
      and c': "c' = clear_waiting (set_writer (c\<lparr>conn_state := s\<rparr>) None)"
    have "role_state s (role c) \<noteq> SendBody"
      using s by (cases "role c") (auto simp: process_event_end_of_message settle_simps)
    with conn_inv_local [OF assms(1) s, of None] show ?thesis by (simp add: c' conn_inv_flags)
  qed
qed

section \<open>Complete messages\<close>

text \<open>Sending touches the lifecycle state and the cycle only.\<close>

definition same_transport :: "Connection \<Rightarrow> Connection \<Rightarrow> bool" where
  "same_transport c c' \<longleftrightarrow> role c' = role c \<and> limits c' = limits c \<and> lenient c' = lenient c
     \<and> conn_input c' = conn_input c \<and> held c' = held c \<and> eof c' = eof c \<and> peer_version c' = peer_version c"

lemma same_transport_restore:
  "same_transport c c' \<Longrightarrow> c'\<lparr>conn_state := conn_state c, cycle := cycle c\<rparr> = c"
  by (simp add: same_transport_def)

lemma same_transport_trans: "same_transport a b \<Longrightarrow> same_transport b c \<Longrightarrow> same_transport a c"
  by (simp add: same_transport_def)

lemma same_transport_simps [simp]:
  "same_transport c c" "same_transport c (c\<lparr>conn_state := s\<rparr>)"
  "same_transport c (set_writer d w) = same_transport c d" "same_transport c (clear_waiting d) = same_transport c d"
  "same_transport c (record_response d) = same_transport c d"
  "same_transport c (record_informational d st) = same_transport c d"
  "same_transport c (conn_disable_keep_alive d) = same_transport c d"
  "same_transport c (record_request d m v f b u) = same_transport c d"
  by (simp_all add: same_transport_def set_writer_def clear_waiting_def record_response_def record_informational_def
      record_request_def Let_def)

lemma send_request_transport: "send_request c r = (c', x) \<Longrightarrow> same_transport c c'"
  by (cases x) (auto dest!: send_request_error elim!: send_request_Inr)

lemma finish_response_head_transport: "same_transport c (fst (finish_response_head c r f h b cn h11))"
  by (simp add: finish_response_head_def Let_def)

lemma send_response_transport: "send_response c r = (c', x) \<Longrightarrow> same_transport c c'"
proof (cases x)
  case (Inr out)
  assume "send_response c r = (c', x)"
  with Inr have "send_response c r = (c', Inr out)" by simp
  then show ?thesis
    by (rule send_response_Inr)
       (metis finish_response_head_transport fst_conv same_transport_simps(2) same_transport_trans)
qed (auto dest!: send_response_error)

lemma send_data_framing_transport: "send_data_framing c n = (c', x) \<Longrightarrow> same_transport c c'"
  by (cases x) (auto dest!: send_data_framing_error elim!: send_data_framing_Inr)

lemma end_of_message_transport: "end_of_message c h = (c', x) \<Longrightarrow> same_transport c c'"
  by (cases x) (auto dest!: end_of_message_error elim!: end_of_message_Inr)

lemma complete_after_head_transport:
  assumes "complete_after_head c before n = (c', x)"
  shows "same_transport c c'"
proof -
  obtain c1 y where d: "send_data_framing c n = (c1, y)" by fastforce
  obtain c2 z where e: "end_of_message c1 headers_new = (c2, z)" by fastforce
  obtain c3 w where g: "end_of_message c headers_new = (c3, w)" by fastforce
  from send_data_framing_transport [OF d] end_of_message_transport [OF e] end_of_message_transport [OF g]
  have "same_transport c c1" "same_transport c c2" "same_transport c c3" by (auto intro: same_transport_trans)
  with assms d e g show ?thesis
    by (auto simp: complete_after_head_def split: if_splits sum.splits prod.splits)
qed

lemma complete_after_head_inv:
  assumes "conn_inv c" and "complete_after_head c before n = (c', x)"
  shows "conn_inv c'"
proof -
  obtain c1 y where d: "send_data_framing c n = (c1, y)" by fastforce
  obtain c2 z where e: "end_of_message c1 headers_new = (c2, z)" by fastforce
  obtain c3 w where g: "end_of_message c headers_new = (c3, w)" by fastforce
  have "conn_inv c1" using send_data_framing_inv [OF assms(1) d] .
  moreover from this have "conn_inv c2" using end_of_message_inv [OF _ e] by blast
  moreover have "conn_inv c3" using end_of_message_inv [OF assms(1) g] .
  ultimately show ?thesis
    using assms d e g by (auto simp: complete_after_head_def split: if_splits sum.splits prod.splits)
qed

text \<open>The locale is what \<open>send_complete\<close> needs of the head it is given.\<close>

locale head_sender =
  fixes head :: "Connection \<Rightarrow> bytes sent"
  assumes head_transport: "head c = (c', x) \<Longrightarrow> same_transport c c'"
    and head_inv: "conn_inv c \<Longrightarrow> head c = (c', x) \<Longrightarrow> conn_inv c'"
begin

lemma send_complete_transport: "send_complete c head n = (c', x) \<Longrightarrow> same_transport c c'"
  by (auto simp: send_complete_def Let_def split: prod.splits sum.splits
      dest!: head_transport complete_after_head_transport intro: same_transport_trans)
     (auto simp: same_transport_def)

lemma send_complete_error: "send_complete c head n = (c', Inl e) \<Longrightarrow> c' = c"
proof -
  assume err: "send_complete c head n = (c', Inl e)"
  obtain c1 y where h: "head c = (c1, y)" by fastforce
  obtain c2 z where a: "\<And>before. y = Inr before \<Longrightarrow> complete_after_head c1 before n = (c2, z)"
    by (cases y) fastforce+
  have t: "same_transport c c1" "y = Inr before \<Longrightarrow> same_transport c c2" for before
    using head_transport [OF h] complete_after_head_transport [OF a] same_transport_trans by blast+
  show ?thesis
    using err h a t same_transport_restore
    by (auto simp: send_complete_def Let_def split: sum.splits prod.splits)
qed

lemma send_complete_inv:
  assumes "conn_inv c" and "send_complete c head n = (c', x)"
  shows "conn_inv c'"
proof (cases x)
  case (Inl e)
  with assms send_complete_error show ?thesis by blast
next
  case (Inr out)
  obtain c1 y where h: "head c = (c1, y)" by fastforce
  from head_inv [OF assms(1) h] have "conn_inv c1" .
  with assms(2) h Inr complete_after_head_inv show ?thesis
    by (auto simp: send_complete_def Let_def split: sum.splits prod.splits)
qed

end

interpretation request_head: head_sender "\<lambda>c. send_request c r" for r
  by unfold_locales (rule send_request_transport, assumption, rule send_request_inv)

interpretation response_head: head_sender "\<lambda>c. send_response c r" for r
  by unfold_locales (rule send_response_transport, assumption, rule send_response_inv)


section \<open>Sending, uniformly\<close>

datatype send_op =
    SendRequest Request
  | SendInformational Response
  | SendFinalResponse Response
  | SendData bytes
  | SendDataParts bytes
  | EndMessage Headers
  | SendRequestWithBody Request bytes
  | SendResponseWithBody Response bytes

definition parts_bytes :: "DataParts \<Rightarrow> bytes" where
  "parts_bytes p = prefix_bytes (parts_prefix p) @ parts_data p @ parts_suffix p"

fun send :: "Connection \<Rightarrow> send_op \<Rightarrow> bytes sent" where
  "send c (SendRequest r) = send_request c r"
| "send c (SendInformational r) = send_informational_response c r"
| "send c (SendFinalResponse r) = send_response c r"
| "send c (SendData d) = send_data c d"
| "send c (SendDataParts d) =
     (case send_data_parts c d of (c1, Inl e) \<Rightarrow> (c1, Inl e) | (c1, Inr p) \<Rightarrow> (c1, Inr (parts_bytes p)))"
| "send c (EndMessage h) = end_of_message c h"
| "send c (SendRequestWithBody r body) = send_request_with_body c r body"
| "send c (SendResponseWithBody r body) = send_response_with_body c r body"

lemma send_data_parts_eq: "send c (SendDataParts d) = send_data c d"
  by (cases "send_data_framing c (length d)")
     (auto simp: send_data_parts_def send_data_def parts_bytes_def split: sum.splits)

lemma send_error: "send c op = (c', Inl e) \<Longrightarrow> c' = c"
proof (cases op)
  case (SendData d)
  then show "send c op = (c', Inl e) \<Longrightarrow> c' = c"
    by (auto simp: send_data_def split: prod.splits sum.splits dest: send_data_framing_error)
next
  case (SendDataParts d)
  then show "send c op = (c', Inl e) \<Longrightarrow> c' = c"
    unfolding SendDataParts send_data_parts_eq
    by (auto simp: send_data_def split: prod.splits sum.splits dest: send_data_framing_error)
next
  case (SendRequestWithBody r b)
  then show "send c op = (c', Inl e) \<Longrightarrow> c' = c"
    by (auto simp: send_request_with_body_def send_request_with_body_framing_def Let_def
        split: prod.splits sum.splits dest: request_head.send_complete_error)
next
  case (SendResponseWithBody r b)
  then show "send c op = (c', Inl e) \<Longrightarrow> c' = c"
    by (auto simp: send_response_with_body_def send_response_with_body_framing_def Let_def
        split: prod.splits sum.splits dest: response_head.send_complete_error)
qed (auto dest: send_request_error send_informational_error send_response_error end_of_message_error)

lemma send_data_inv: "conn_inv c \<Longrightarrow> send_data c d = (c', x) \<Longrightarrow> conn_inv c'"
  by (auto simp: send_data_def split: prod.splits sum.splits dest: send_data_framing_inv)

lemma send_inv: "conn_inv c \<Longrightarrow> send c op = (c', x) \<Longrightarrow> conn_inv c'"
proof (cases op)
  case (SendDataParts d)
  then show "conn_inv c \<Longrightarrow> send c op = (c', x) \<Longrightarrow> conn_inv c'"
    unfolding SendDataParts send_data_parts_eq by (auto dest: send_data_inv)
next
  case (SendRequestWithBody r b)
  then show "conn_inv c \<Longrightarrow> send c op = (c', x) \<Longrightarrow> conn_inv c'"
    by (auto simp: send_request_with_body_def send_request_with_body_framing_def Let_def
        split: prod.splits sum.splits dest: request_head.send_complete_inv)
next
  case (SendResponseWithBody r b)
  then show "conn_inv c \<Longrightarrow> send c op = (c', x) \<Longrightarrow> conn_inv c'"
    by (auto simp: send_response_with_body_def send_response_with_body_framing_def Let_def
        split: prod.splits sum.splits dest: response_head.send_complete_inv)
qed (auto dest: send_request_inv send_informational_inv send_response_inv send_data_inv end_of_message_inv)

lemma send_transport: "send c op = (c', x) \<Longrightarrow> same_transport c c'"
proof (cases op)
  case (SendInformational r)
  then show "send c op = (c', x) \<Longrightarrow> same_transport c c'"
    by (cases x) (auto dest!: send_informational_error elim!: send_informational_Inr)
next
  case (SendDataParts d)
  then show "send c op = (c', x) \<Longrightarrow> same_transport c c'"
    unfolding SendDataParts send_data_parts_eq
    by (auto simp: send_data_def split: prod.splits sum.splits dest: send_data_framing_transport)
next
  case (SendRequestWithBody r b)
  then show "send c op = (c', x) \<Longrightarrow> same_transport c c'"
    by (auto simp: send_request_with_body_def send_request_with_body_framing_def Let_def
        split: prod.splits sum.splits dest: request_head.send_complete_transport)
next
  case (SendResponseWithBody r b)
  then show "send c op = (c', x) \<Longrightarrow> same_transport c c'"
    by (auto simp: send_response_with_body_def send_response_with_body_framing_def Let_def
        split: prod.splits sum.splits dest: response_head.send_complete_transport)
qed (auto simp: send_data_def split: prod.splits sum.splits
      dest: send_request_transport send_response_transport send_data_framing_transport end_of_message_transport)

section \<open>Bodies\<close>

fun send_body :: "Connection \<Rightarrow> bytes list \<Rightarrow> (Connection \<times> bytes) option" where
  "send_body c [] = Some (c, [])"
| "send_body c (d # ds) =
     (case send_data c d of
        (c1, Inl _) \<Rightarrow> None
      | (c1, Inr out) \<Rightarrow>
          (case send_body c1 ds of None \<Rightarrow> None | Some (c2, outs) \<Rightarrow> Some (c2, out @ outs)))"

definition send_message_body :: "Connection \<Rightarrow> bytes list \<Rightarrow> Headers \<Rightarrow> (Connection \<times> bytes) option" where
  "send_message_body c ds h =
     (case send_body c ds of
        None \<Rightarrow> None
      | Some (c1, out) \<Rightarrow>
          (case end_of_message c1 h of
             (c2, Inl _) \<Rightarrow> None
           | (c2, Inr final) \<Rightarrow> Some (c2, out @ final)))"

definition chunk_text :: "bytes \<Rightarrow> bytes" where
  "chunk_text d = (if d = [] then [] else prefix_bytes (chunk_size (length d)) @ d @ CRLF)"

lemma prefix_bytes_default [simp]: "prefix_bytes data_prefix_default = []"
  by (simp add: prefix_bytes_def data_prefix_default_def)

lemma advance_local_data: "local_state c = SendBody \<Longrightarrow> advance_local c Data = (c, Inr ())"
  by (simp add: advance_local_def process_event_data accept_if_def local_state_def)

lemma writer_set [simp]:
  "writer (cycle (clear_waiting (set_writer c w))) = w"
  "local_state (clear_waiting (set_writer c w)) = local_state c"
  "conn_state (clear_waiting (set_writer c w)) = conn_state c"
  "role (clear_waiting (set_writer c w)) = role c"
  by (simp_all add: clear_waiting_def set_writer_def local_state_def)

lemma send_data_fixed:
  "local_state c = SendBody \<Longrightarrow> writer (cycle c) = Some (Fixed n) \<Longrightarrow>
   send_data c d = (if length d \<le> n then (clear_waiting (set_writer c (Some (Fixed (n - length d)))), Inr d)
                    else (c, Inl (local ''body exceeds Content-Length'')))"
  by (simp add: send_data_def send_data_framing_def advance_local_data)

lemma send_data_chunked:
  "local_state c = SendBody \<Longrightarrow> writer (cycle c) = Some Chunked \<Longrightarrow>
   send_data c d = (clear_waiting (set_writer c (Some Chunked)), Inr (chunk_text d))"
  by (simp add: send_data_def send_data_framing_def advance_local_data chunk_text_def)

lemma send_body_fixed:
  "local_state c = SendBody \<Longrightarrow> writer (cycle c) = Some (Fixed n) \<Longrightarrow>
   if length (concat ds) \<le> n then
     \<exists>c'. send_body c ds = Some (c', concat ds) \<and> writer (cycle c') = Some (Fixed (n - length (concat ds)))
       \<and> conn_state c' = conn_state c \<and> role c' = role c
   else send_body c ds = None"
proof (induction ds arbitrary: c n)
  case (Cons d ds)
  show ?case
  proof (cases "length d \<le> n")
    case True
    let ?c = "clear_waiting (set_writer c (Some (Fixed (n - length d))))"
    from Cons.IH [of ?c "n - length d"] Cons.prems True show ?thesis
      by (cases "length d + length (concat ds) \<le> n")
         (auto simp: send_data_fixed [OF Cons.prems] split: if_splits)
  next
    case False
    with Cons.prems show ?thesis by (simp add: send_data_fixed [OF Cons.prems])
  qed
qed simp

lemma send_body_chunked:
  "local_state c = SendBody \<Longrightarrow> writer (cycle c) = Some Chunked \<Longrightarrow>
   \<exists>c'. send_body c ds = Some (c', concat (map chunk_text ds)) \<and> writer (cycle c') = Some Chunked
     \<and> conn_state c' = conn_state c \<and> role c' = role c"
proof (induction ds arbitrary: c)
  case (Cons d ds)
  let ?c = "clear_waiting (set_writer c (Some Chunked))"
  from Cons.IH [of ?c] Cons.prems show ?case by (auto simp: send_data_chunked [OF Cons.prems])
qed simp

lemma advance_local_end:
  "role_state (conn_state c) (role c) = SendBody \<Longrightarrow> \<exists>c'. advance_local c EndOfMessage = (c', Inr ())"
  by (simp add: advance_local_def process_event_end_of_message accept_if_def)

lemma validate_no_trailers [simp]: "validate_trailers headers_new = Inr ()"
  by (simp add: validate_trailers_def validate_headers_def headers_is_valid_def headers_new_def headers_iter_def)

lemma headers_is_empty_new [simp]: "headers_is_empty headers_new"
  by (simp add: headers_is_empty_def headers_new_def)

section \<open>The framing a response head declares\<close>

lemma framing_cong:
  "get_all h ''transfer-encoding'' = get_all h' ''transfer-encoding'' \<Longrightarrow>
   get_all h ''content-length'' = get_all h' ''content-length'' \<Longrightarrow>
   framing (scan h) v response = framing (scan h') v response"
  by (simp add: framing_def scan_facts(1,2))

lemma values_of_other:
  "\<not> eq_ignore_ascii_case name other \<Longrightarrow>
   values_of (filter (\<lambda>(n, _). \<not> eq_ignore_ascii_case n other) fs) name = values_of fs name"
  by (induction fs) (auto simp: eq_ignore_ascii_case_def)

lemma values_of_removed: "values_of (filter (\<lambda>(n, _). \<not> eq_ignore_ascii_case n name) fs) name = []"
  by (induction fs) auto

lemma get_all_set_option:
  assumes "headers_inv h"
  shows "get_all (set_connection_option h opt) ''transfer-encoding'' = get_all h ''transfer-encoding''"
    and "get_all (set_connection_option h opt) ''content-length'' = get_all h ''content-length''"
proof -
  have n: "\<not> eq_ignore_ascii_case ''transfer-encoding'' ''connection''"
    "\<not> eq_ignore_ascii_case ''content-length'' ''connection''"
    "\<not> eq_ignore_ascii_case ''Connection'' ''transfer-encoding''"
    "\<not> eq_ignore_ascii_case ''Connection'' ''content-length''"
    by code_simp+
  show "get_all (set_connection_option h opt) ''transfer-encoding'' = get_all h ''transfer-encoding''"
    "get_all (set_connection_option h opt) ''content-length'' = get_all h ''content-length''"
    using n by (simp_all add: get_all_values set_connection_option_iter [OF assms] values_of_append values_of_other)
qed

lemma push_names:
  "eq_ignore_ascii_case ''Transfer-Encoding'' ''transfer-encoding''"
  "\<not> eq_ignore_ascii_case ''Transfer-Encoding'' ''content-length''"
  "\<not> eq_ignore_ascii_case ''Transfer-Encoding'' ''connection''"
  "eq_ignore_ascii_case ''Content-Length'' ''content-length''"
  "\<not> eq_ignore_ascii_case ''Content-Length'' ''transfer-encoding''"
  "\<not> eq_ignore_ascii_case ''Content-Length'' ''connection''"
  by code_simp+

lemma has_framing_iff:
  "has_framing (scan h) \<longleftrightarrow> get_all h ''transfer-encoding'' \<noteq> [] \<or> get_all h ''content-length'' \<noteq> []"
  by (simp add: has_framing_def codings_None_iff fld_length_None_iff)

lemma has_transfer_encoding_iff: "has_transfer_encoding (scan h) \<longleftrightarrow> get_all h ''transfer-encoding'' \<noteq> []"
  by (simp add: has_transfer_encoding_def codings_None_iff)

lemma framing_None:
  "get_all h ''transfer-encoding'' = [] \<Longrightarrow> get_all h ''content-length'' = [] \<Longrightarrow>
   framing (scan h) v True = Inr CloseDelimited"
  by (simp add: framing_def scan_facts(1,2))

lemma framing_push_chunked:
  assumes "headers_inv h" "get_all h ''transfer-encoding'' = []" "get_all h ''content-length'' = []"
  shows "framing (scan (headers_push h ''Transfer-Encoding'' ''chunked'')) Http11 response = Inr Chunked"
proof -
  let ?h = "headers_push h ''Transfer-Encoding'' ''chunked''"
  have "framing (scan (headers_from [(''Transfer-Encoding'', ''chunked'')])) Http11 response = Inr Chunked"
    by (cases response) (simp_all only:, code_simp+)
  moreover have "framing (scan ?h) Http11 response = framing (scan (headers_from [(''Transfer-Encoding'', ''chunked'')])) Http11 response"
    by (rule framing_cong) (use assms in \<open>simp_all add: get_all_values headers.push_iter values_of_append push_names\<close>)
  ultimately show ?thesis by simp
qed

lemma trimmed_number: "trimmed (to_string n)"
proof -
  have "b \<noteq> CHR '','' \<and> \<not> is_ows b" if "is_ascii_digit b" for b
    using that by (auto simp: is_ascii_digit_def byte_in_def is_ows_def)
  then show ?thesis using to_string_digits [of n] by (auto simp: trimmed_def list_all_iff)
qed

lemma elements_number: "elements (to_string n) False = [to_string n]"
  using elements_join [of "[to_string n]"] trimmed_number [of n] by simp

lemma framing_push_length:
  assumes "headers_inv h" "get_all h ''transfer-encoding'' = []" "get_all h ''content-length'' = []" "n \<le> usize_max"
  shows "framing (scan (headers_push h ''Content-Length'' (to_string n))) v response = Inr (Fixed n)"
proof -
  let ?h = "headers_push h ''Content-Length'' (to_string n)"
  have "get_all ?h ''content-length'' = [to_string n]" "get_all ?h ''transfer-encoding'' = []"
    using assms by (simp_all add: get_all_values headers.push_iter values_of_append push_names)
  then show ?thesis
    using assms(4) by (simp add: framing_def scan_facts(1,2) elements_number parse_number_to_string)
qed

lemma framing_response_side:
  assumes "framing (scan h) v False = Inr b" and "has_framing (scan h)"
  shows "framing (scan h) v True = Inr b"
  using assms
  by (auto simp: framing_def has_framing_def codings_framing_def split: option.splits sum.splits if_splits)

lemma persistence_push:
  assumes "headers_inv h" and "\<not> eq_ignore_ascii_case n ''connection''"
  shows "has_token (headers_push h n v) ''connection'' t = has_token h ''connection'' t"
  using assms by (simp add: has_token_iff get_all_values headers.push_iter values_of_append)


lemma response_framing_declared:
  assumes inv: "headers_inv h"
    and strip: "strip_transfer_encoding h (scan h) stripped bodyless = Inr h1"
    and frame: "response_framing h1 (scan h) st v bodyless http11 (has_framing (scan h) \<and> \<not> stripped) = Inr (h2, b)"
    and http11: "http11 \<Longrightarrow> v = Http11" and stripped: "stripped = (\<not> http11 \<and> has_transfer_encoding (scan h))"
  shows "headers_inv h2" and "has_token h2 ''connection'' t = has_token h ''connection'' t"
    and "\<not> bodyless \<Longrightarrow> framing (scan h2) v True = Inr b"
    and "bodyless \<Longrightarrow> b = Fixed 0"
proof -
  have names: "\<not> eq_ignore_ascii_case ''connection'' ''transfer-encoding''"
    "\<not> eq_ignore_ascii_case ''content-length'' ''transfer-encoding''"
    by code_simp+
  have h1: "h1 = (if stripped then headers_retain (\<lambda>name _. \<not> eq_ignore_ascii_case name ''transfer-encoding'') h else h)"
    and ok: "stripped \<Longrightarrow> \<exists>b. framing (scan h) Http11 bodyless = Inr b"
    using strip by (auto simp: strip_transfer_encoding_def declared_framing_def split: if_splits sum.splits)
  have inv1: "headers_inv h1" and tok1: "has_token h1 ''connection'' t = has_token h ''connection'' t"
    using inv names
    by (auto simp: h1 headers.retain_inv has_token_iff get_all_values headers.retain_iter values_of_other)
  have none: "get_all h1 ''transfer-encoding'' = [] \<and> get_all h1 ''content-length'' = []"
    if "\<not> (has_framing (scan h) \<and> \<not> stripped)"
  proof (cases stripped)
    case True
    with stripped ok have "get_all h ''content-length'' = []"
      by (auto simp: framing_def has_transfer_encoding_def fld_length_None_iff split: option.splits)
    with True show ?thesis
      using names by (simp add: h1 get_all_values headers.retain_iter values_of_other values_of_removed)
  qed (use that in \<open>simp add: h1 has_framing_iff\<close>)
  have same: "h1 = h" if "has_framing (scan h) \<and> \<not> stripped"
    using strip that by (auto simp: strip_transfer_encoding_def)
  show "headers_inv h2" "has_token h2 ''connection'' t = has_token h ''connection'' t"
    using frame inv1 tok1
    by (auto simp: response_framing_def headers.push_inv persistence_push push_names split: if_splits sum.splits)
  show "bodyless \<Longrightarrow> b = Fixed 0" using frame by (auto simp: response_framing_def split: if_splits sum.splits)
  have zero: "''0'' = to_string 0" by code_simp
  assume "\<not> bodyless"
  then show "framing (scan h2) v True = Inr b"
    using frame none same http11 framing_push_length [OF inv1, of 0 v True] framing_push_chunked [OF inv1, of True]
      framing_None [of h1 v] framing_response_side [of h v b]
    by (auto simp: response_framing_def declared_framing_def zero split: if_splits sum.splits)
qed

lemma disabled_keep_alive [simp]: "\<not> cs_keep_alive (conn_state (conn_disable_keep_alive c))"
  by (simp add: conn_disable_keep_alive_def disable_keep_alive_def stabilize_settle settle_simps)

lemma serialized_head:
  assumes "send_response c r = (c', Inr out)" and "headers_inv (resp_headers r)" and "\<not> opens_tunnel c (resp_status r)"
  obtains h b where "out = serialize_response (resp_version r) (resp_status r) (resp_reason r) h"
    "writer (cycle c') = Some b"
    "\<not> response_has_no_body c (resp_status r) \<Longrightarrow> framing (scan h) (resp_version r) True = Inr b"
    "response_has_no_body c (resp_status r) \<Longrightarrow> b = Fixed 0"
    "\<And>v. v = resp_version r \<or> peer_version c \<noteq> Some Http11 \<Longrightarrow>
       persistent (scan h) v \<longleftrightarrow> cs_keep_alive (conn_state c')"
proof -
  let ?h = "resp_headers r"
  from assms(1) obtain h1 h2 b s where
    strip: "strip_transfer_encoding ?h (scan ?h) (te_stripped c r) (response_has_no_body c (resp_status r)) = Inr h1"
    and frame: "response_framing h1 (scan ?h) (resp_status r) (resp_version r)
       (response_has_no_body c (resp_status r)) (peer_is_http11 c r) (has_framing (scan ?h) \<and> \<not> te_stripped c r) = Inr (h2, b)"
    and fin: "finish_response_head (c\<lparr>conn_state := s\<rparr>) r (scan ?h) h2 b False (peer_is_http11 c r) = (c', out)"
    using assms(3) by (auto elim!: send_response_Inr)
  have facts: "headers_inv h2" "has_token h2 ''connection'' t = has_token ?h ''connection'' t"
    "\<not> response_has_no_body c (resp_status r) \<Longrightarrow> framing (scan h2) (resp_version r) True = Inr b"
    "response_has_no_body c (resp_status r) \<Longrightarrow> b = Fixed 0" for t
    using response_framing_declared [OF assms(2) strip frame] by auto
  let ?h3 = "if \<not> cs_keep_alive (conn_state c') then set_connection_option h2 ''close''
     else if \<not> peer_is_http11 c r then set_connection_option h2 ''keep-alive'' else h2"
  have out: "out = serialize_response (resp_version r) (resp_status r) (resp_reason r) ?h3" "writer (cycle c') = Some b"
    and close: "cs_keep_alive (conn_state c') \<Longrightarrow> \<not> fld_close (scan ?h)"
    using fin by (auto simp: finish_response_head_def Let_def set_writer_def record_response_def)
  show thesis
  proof (rule that [OF out])
    show "framing (scan ?h3) (resp_version r) True = Inr b" if "\<not> response_has_no_body c (resp_status r)"
      using facts(3) [OF that] framing_cong [OF get_all_set_option [OF facts(1)]] by auto
    show "persistent (scan ?h3) v \<longleftrightarrow> cs_keep_alive (conn_state c')"
      if "v = resp_version r \<or> peer_version c \<noteq> Some Http11" for v
      using set_option_tokens [OF facts(1)] close that facts(2) by (auto simp: persistent_def scan_facts)
  qed (rule facts(4))
qed

section \<open>A complete message in one call\<close>

lemma writer_local: "conn_inv c \<Longrightarrow> writer (cycle c) = Some w \<Longrightarrow> local_state c = SendBody"
  by (auto simp: conn_inv_def conn_base_def)

lemma send_message_body_fixed:
  assumes "conn_inv c" and "writer (cycle c) = Some (Fixed n)"
  shows "map_option snd (send_message_body c ds headers_new)
     = (if length (concat ds) = n then Some (concat ds) else None)"
proof (cases "length (concat ds) \<le> n")
  case True
  with send_body_fixed [OF writer_local [OF assms] assms(2), of ds] obtain c' where
    c': "send_body c ds = Some (c', concat ds)" "writer (cycle c') = Some (Fixed (n - length (concat ds)))"
    "conn_state c' = conn_state c" "role c' = role c" by auto
  with writer_local [OF assms] obtain c2 where "advance_local c' EndOfMessage = (c2, Inr ())"
    using advance_local_end [of c'] by (auto simp: local_state_def)
  with True c' show ?thesis by (auto simp: send_message_body_def end_of_message_def)
next
  case False
  with send_body_fixed [OF writer_local [OF assms] assms(2), of ds] show ?thesis
    by (auto simp: send_message_body_def)
qed

lemma send_message_body_chunked:
  assumes "conn_inv c" and "writer (cycle c) = Some Chunked" and "validate_trailers h = Inr ()"
  shows "\<exists>c'. send_message_body c ds h
     = Some (c', concat (map chunk_text ds) @ write_headers (''0'' @ CRLF) h @ CRLF)"
proof -
  from send_body_chunked [OF writer_local [OF assms(1,2)] assms(2), of ds] obtain c' where
    c': "send_body c ds = Some (c', concat (map chunk_text ds))" "writer (cycle c') = Some Chunked"
    "conn_state c' = conn_state c" "role c' = role c" by auto
  with writer_local [OF assms(1,2)] obtain c2 where "advance_local c' EndOfMessage = (c2, Inr ())"
    using advance_local_end [of c'] by (auto simp: local_state_def)
  with assms(3) c' show ?thesis by (auto simp: send_message_body_def end_of_message_def)
qed

lemma clear_waiting_idem:
  "clear_waiting (set_writer ((clear_waiting c)\<lparr>conn_state := s\<rparr>) w) = clear_waiting (set_writer (c\<lparr>conn_state := s\<rparr>) w)"
  "set_writer (set_writer c w) w' = set_writer c w'"
  by (simp_all add: clear_waiting_def set_writer_def)

lemma send_data_empty:
  assumes "conn_inv c" and "writer (cycle c) = Some w"
  shows "send_data c [] = (clear_waiting c, Inr [])"
  using assms(2) advance_local_data [OF writer_local [OF assms]] set_writer_same [of c]
  by (cases w) (simp_all add: send_data_def send_data_framing_def)

lemma end_of_message_clear_waiting:
  "end_of_message (clear_waiting c) h =
     (case end_of_message c h of (c', Inl e) \<Rightarrow> (clear_waiting c', Inl e) | (c', Inr out) \<Rightarrow> (c', Inr out))"
  by (cases "process_event (conn_state c) (role c) EndOfMessage")
     (auto simp: end_of_message_def advance_local_def clear_waiting_def set_writer_def
        split: sum.splits option.splits Framing.splits)

lemma complete_after_head_steps:
  assumes "conn_inv c" and "local_state c \<noteq> SwitchedProtocol"
    and "complete_after_head c before (length body) = (c', x)"
  shows "case x of
           Inr parts \<Rightarrow> \<exists>out. send_message_body c [body] headers_new = Some (c', out) \<and> join_framing parts body = before @ out
         | Inl _ \<Rightarrow> send_message_body c [body] headers_new = None"
proof (cases "writer (cycle c)")
  case None
  with assms show ?thesis
    by (auto simp: complete_after_head_def send_message_body_def send_data_def send_data_framing_def end_of_message_def
        split: if_splits)
next
  case (Some w)
  obtain c1 y where d: "send_data_framing c (length body) = (c1, y)" by fastforce
  show ?thesis
  proof (cases "body = []")
    case True
    with assms Some d send_data_empty [OF assms(1) Some] show ?thesis
      by (auto simp: complete_after_head_def send_message_body_def end_of_message_clear_waiting join_framing_def
          split: prod.splits sum.splits)
  next
    case False
    with assms Some d show ?thesis
      by (auto simp: complete_after_head_def send_message_body_def send_data_def join_framing_def
          split: prod.splits sum.splits)
  qed
qed


context head_sender
begin

lemma send_complete_steps:
  assumes "conn_inv c" and "head c = (c1, Inr before)" and "local_state c1 \<noteq> SwitchedProtocol"
  shows "case send_complete c head (length body) of
           (c', Inr parts) \<Rightarrow> \<exists>out. send_message_body c1 [body] headers_new = Some (c', out) \<and> join_framing parts body = before @ out
         | (c', Inl _) \<Rightarrow> c' = c \<and> send_message_body c1 [body] headers_new = None"
proof -
  obtain c2 z where a: "complete_after_head c1 before (length body) = (c2, z)" by fastforce
  from complete_after_head_steps [OF head_inv [OF assms(1,2)] assms(3) a] send_complete_error [of c "length body"] a assms(2)
  show ?thesis by (auto simp: send_complete_def Let_def split: sum.splits prod.splits)
qed

lemma send_complete_head:
  assumes "send_complete c head n = (c', Inr parts)"
  obtains c1 before where "head c = (c1, Inr before)" "complete_after_head c1 before n = (c', Inr parts)"
  using assms by (auto simp: send_complete_def Let_def split: sum.splits prod.splits)

end

lemma send_response_writer:
  assumes "send_response c r = (c', Inr out)" and "\<not> response_has_no_body c (resp_status r)"
    and "framing (scan (resp_headers r)) (resp_version r) False = Inr (Fixed n)"
    and "get_all (resp_headers r) ''content-length'' \<noteq> []"
  shows "writer (cycle c') = Some (Fixed n)"
proof -
  have te: "\<not> has_transfer_encoding (scan (resp_headers r))" "has_framing (scan (resp_headers r))"
    using framing_cases(2) [OF assms(3)] assms(4) by (simp_all add: has_transfer_encoding_iff has_framing_iff)
  have "\<not> opens_tunnel c (resp_status r)" using assms(2) by (simp add: response_has_no_body_def)
  with assms(1-3) te show ?thesis
    by (auto elim!: send_response_Inr simp: response_framing_def declared_framing_def finish_response_head_def Let_def
        set_writer_def split: if_splits sum.splits)
qed

lemma response_serialized:
  assumes "send_response c r = (c', Inr out)"
  shows "\<exists>h. out = serialize_response (resp_version r) (resp_status r) (resp_reason r) h"
  using assms by (auto elim!: send_response_Inr simp: finish_response_head_def Let_def)

lemma not_tunnel_writer:
  assumes "conn_inv c" and "send_response c r = (c', Inr out)" and "\<not> opens_tunnel c (resp_status r)"
  shows "local_state c' = SendBody"
proof -
  from assms(2,3) have "writer (cycle c') \<noteq> None"
    by (auto elim!: send_response_Inr simp: finish_response_head_def Let_def set_writer_def)
  with writer_local [OF send_response_inv [OF assms(1,2)]] show ?thesis by blast
qed

lemma tunnel_writer:
  assumes "send_response c r = (c', Inr out)" and "opens_tunnel c (resp_status r)"
  shows "writer (cycle c') = None"
  using assms by (auto elim!: send_response_Inr simp: finish_response_head_def Let_def set_writer_def)

lemma tunnel_switched:
  assumes "send_response c r = (c', Inr out)" and "opens_tunnel c (resp_status r)"
  shows "local_state c' = SwitchedProtocol"
proof (rule send_response_Inr [OF assms(1)])
  fix h1 h2 b s
  assume role: "role c = Server" and ev: "process_event (conn_state c) Server (final_response_event c (resp_status r)) = Inr s"
    and fin: "finish_response_head (c\<lparr>conn_state := s\<rparr>) r (scan (resp_headers r)) h2 b
       (opens_tunnel c (resp_status r)) (peer_is_http11 c r) = (c', out)"
  have "role_state s Server = SwitchedProtocol"
    using ev assms(2) by (auto simp: final_response_event_def process_event_switch split: if_splits)
  moreover from this have "role_state (disable_keep_alive s) Server = SwitchedProtocol"
    using phase_kept_disable [of Server s] by (simp add: phase_kept_def)
  ultimately show ?thesis
    using fin assms(2) role
    by (auto simp: finish_response_head_def Let_def set_writer_def record_response_def conn_disable_keep_alive_def local_state_def
        split: if_splits)
qed

lemma complete_no_writer:
  assumes "complete_after_head c before n = (c', Inr parts)" and "writer (cycle c) = None"
  shows "n = 0 \<and> parts = (before, [])"
  using assms
  by (auto simp: complete_after_head_def send_data_framing_def end_of_message_def split: if_splits)

abbreviation with_length :: "Connection \<Rightarrow> Response \<Rightarrow> nat \<Rightarrow> Response" where
  "with_length c r n \<equiv>
     (if \<not> has_framing_fields (resp_headers r) \<and> \<not> response_has_no_body c (resp_status r)
      then r\<lparr>resp_headers := headers_push (resp_headers r) ''Content-Length'' (to_string n)\<rparr> else r)"

lemma with_length_writer:
  assumes "conn_inv c" and "headers_inv (resp_headers r)" and "\<not> has_framing_fields (resp_headers r)"
    and "n \<le> usize_max" and "send_response c (with_length c r n) = (c1, Inr before)"
    and "\<not> opens_tunnel c (resp_status r)"
  shows "\<exists>k. writer (cycle c1) = Some (Fixed k)"
proof (cases "response_has_no_body c (resp_status r)")
  case True
  with assms serialized_head [of c r c1 before] show ?thesis by fastforce
next
  case False
  let ?r = "r\<lparr>resp_headers := headers_push (resp_headers r) ''Content-Length'' (to_string n)\<rparr>"
  have no: "get_all (resp_headers r) ''transfer-encoding'' = []" "get_all (resp_headers r) ''content-length'' = []"
    using assms(3) by (simp_all add: has_framing_fields_def has_field_iff)
  have "get_all (resp_headers ?r) ''content-length'' \<noteq> []"
    using assms(2) by (simp add: get_all_values headers.push_iter values_of_append push_names)
  with send_response_writer [of c ?r c1 before n] framing_push_length [OF assms(2) no assms(4)] False assms(3,5) show ?thesis
    by simp
qed

section \<open>Properties\<close>

text \<open>
  C16: a rejected send is invisible. Whatever operation of the sending interface fails, and
  at whatever step, the connection is the one before the call: the application may correct
  the message and send again.
\<close>

theorem rejected_send_changes_nothing:
  assumes "send c op = (c', Inl e)"
  shows "c' = c"
  using assms by (rule send_error)

definition sample_server :: Connection where
  "sample_server = (connection_new Server \<lparr>max_head_bytes = 100, max_header_count = 10\<rparr>)
     \<lparr>conn_state := \<lparr>client = Done, server = SendResponse, cs_keep_alive = True, proposals = proposals_none\<rparr>,
      cycle := cycle_default\<lparr>request_kind := Some KindOther\<rparr>, peer_version := Some Http11\<rparr>"

definition sample_ok :: Response where
  "sample_ok = \<lparr>resp_status = StatusCode 200, resp_reason = ''OK'', resp_headers = headers_from [(''Server'', ''s'')],
     resp_version = Http11\<rparr>"

lemma sample_server_inv: "conn_inv sample_server"
  by code_simp

lemma sent_ok: "\<not> isl (snd p) \<Longrightarrow> p = (fst p, Inr (projr (snd p)))"
  by (cases p) simp

theorem rejected_send_changes_nothing_witness:
  "fst (send sample_server (SendResponseWithBody (sample_ok\<lparr>resp_status := StatusCode 204\<rparr>) ''no'')) = sample_server"
proof -
  have "isl (snd (send sample_server (SendResponseWithBody (sample_ok\<lparr>resp_status := StatusCode 204\<rparr>) ''no'')))"
    by code_simp
  then show ?thesis
    using rejected_send_changes_nothing [of sample_server] by (metis isl_def prod.collapse)
qed


text \<open>
  C37: a body under Content-Length is sent byte for byte and complete. The pieces and the end
  of the message are accepted exactly when together they have the declared length, and then
  what goes on the wire is the pieces themselves.
\<close>

theorem fixed_body_exact:
  assumes "conn_inv c" and "writer (cycle c) = Some (Fixed n)"
  shows "map_option snd (send_message_body c ds headers_new)
     = (if length (concat ds) = n then Some (concat ds) else None)"
  using assms by (rule send_message_body_fixed)

definition sample_sending :: Connection where
  "sample_sending = fst (send_response sample_server
     (sample_ok\<lparr>resp_headers := headers_from [(''Content-Length'', ''5'')]\<rparr>))"

lemma sample_sending_inv: "conn_inv sample_sending" "writer (cycle sample_sending) = Some (Fixed 5)"
  unfolding sample_sending_def
   apply (metis prod.collapse sample_server_inv send_response_inv)
  apply code_simp
  done

theorem fixed_body_exact_witness:
  "map_option snd (send_message_body sample_sending [''he'', ''llo''] headers_new) = Some ''hello''
   \<and> send_message_body sample_sending [''he'', ''l''] headers_new = None"
  using fixed_body_exact [OF sample_sending_inv, of "[''he'', ''llo'']"]
    fixed_body_exact [OF sample_sending_inv, of "[''he'', ''l'']"] by simp

text \<open>
  C6: the head of a final response is honest about what follows it. Read back by the
  recipient, its fields give exactly the framing the body is then written with (a bodyless
  response has no body to write), and exactly the persistence recorded in the state:
  for the version on the response, and for a peer that is not HTTP/1.1 under either version.
\<close>

theorem response_head_honest:
  assumes "send_response c r = (c', Inr out)" and "headers_inv (resp_headers r)"
    and "\<not> opens_tunnel c (resp_status r)"
  shows "\<exists>h b. out = serialize_response (resp_version r) (resp_status r) (resp_reason r) h
     \<and> writer (cycle c') = Some b
     \<and> (if response_has_no_body c (resp_status r) then b = Fixed 0
        else framing (scan h) (resp_version r) True = Inr b)
     \<and> (\<forall>v. v = resp_version r \<or> peer_version c \<noteq> Some Http11 \<longrightarrow>
           persistent (scan h) v = cs_keep_alive (conn_state c'))"
  using serialized_head [OF assms] by metis

theorem response_head_honest_witness:
  "\<exists>h. snd (send_response sample_server sample_ok) = Inr (serialize_response Http11 (StatusCode 200) ''OK'' h)
     \<and> framing (scan h) Http11 True = Inr Chunked \<and> persistent (scan h) Http11"
proof -
  let ?p = "send_response sample_server sample_ok"
  have e: "\<not> isl (snd ?p)" "writer (cycle (fst ?p)) = Some Chunked" "cs_keep_alive (conn_state (fst ?p))"
    "\<not> opens_tunnel sample_server (resp_status sample_ok)" "\<not> response_has_no_body sample_server (resp_status sample_ok)"
    by code_simp+
  from e(1) have p: "?p = (fst ?p, Inr (projr (snd ?p)))" by (rule sent_ok)
  have "headers_inv (resp_headers sample_ok)" by (simp add: sample_ok_def)
  from response_head_honest [OF p this e(4)] obtain h b where
    "projr (snd ?p) = serialize_response (resp_version sample_ok) (resp_status sample_ok) (resp_reason sample_ok) h"
    "writer (cycle (fst ?p)) = Some b" "framing (scan h) (resp_version sample_ok) True = Inr b"
    "persistent (scan h) (resp_version sample_ok) = cs_keep_alive (conn_state (fst ?p))"
    using e(5) by auto
  with e(2,3) p show ?thesis by (intro exI [of _ h]) (simp add: sample_ok_def, metis snd_conv)
qed

text \<open>
  C38: what a response given with its body in one call does, in every case. The head is that of
  \<open>send_response\<close>, with Content-Length added where the response has no framing of its own and may
  have a body. If the head is refused, so is the call, for the same reason. If the response
  opens a tunnel, the call writes the head alone, and refuses a body. Otherwise what goes on
  the wire is exactly the head, the body and the end of message sent one after the other, and
  the connection is left as they leave it; and when one of the steps would be refused, the
  call is. A refused call commits nothing.
\<close>

theorem one_call_is_the_steps:
  assumes "conn_inv c"
  shows "case send_response c (with_length c r (length body)) of
      (c1, Inl e) \<Rightarrow> send_response_with_body c r body = (c, Inl e)
    | (c1, Inr before) \<Rightarrow>
        if opens_tunnel c (resp_status r) then
          send_response_with_body c r body =
            (if body = [] then (c1, Inr before)
             else (c, Inl (local ''a successful CONNECT response cannot carry content'')))
        else
          (case send_message_body c1 [body] headers_new of
             Some (c', out) \<Rightarrow> send_response_with_body c r body = (c', Inr (before @ out))
           | None \<Rightarrow> \<exists>e. send_response_with_body c r body = (c, Inl e))"
proof -
  let ?r = "with_length c r (length body)"
  obtain c1 x where h: "send_response c ?r = (c1, x)" by fastforce
  have restore: "c1\<lparr>conn_state := conn_state c, cycle := cycle c\<rparr> = c"
    using same_transport_restore [OF send_response_transport [OF h]] .
  note defs = send_response_with_body_def send_response_with_body_framing_def Let_def send_complete_def
  show ?thesis
  proof (cases x)
    case (Inl e)
    with h restore show ?thesis by (simp add: defs)
  next
    case (Inr before)
    note head = h [unfolded Inr]
    show ?thesis
    proof (cases "opens_tunnel c (resp_status r)")
      case True
      then have "local_state c1 = SwitchedProtocol" using tunnel_switched [OF head] by (auto split: if_splits)
      with head True restore show ?thesis by (simp add: defs complete_after_head_def join_framing_def)
    next
      case False
      then have "local_state c1 \<noteq> SwitchedProtocol"
        using not_tunnel_writer [OF assms head] by (auto split: if_splits)
      from response_head.send_complete_steps [OF assms head this, of body] head False show ?thesis
        by (auto simp: send_response_with_body_def send_response_with_body_framing_def Let_def
            split: prod.splits sum.splits option.splits)
    qed
  qed
qed

text \<open>
  A known body is never chunked or delimited by the close. A response without framing
  fields of its own, sent with its body, is its head followed by the body verbatim.
\<close>

theorem known_body_verbatim:
  assumes "conn_inv c" and "headers_inv (resp_headers r)" and "\<not> has_framing_fields (resp_headers r)"
    and "length body \<le> usize_max" and "send_response_with_body c r body = (c', Inr out)"
  shows "\<exists>h. out = serialize_response (resp_version r) (resp_status r) (resp_reason r) h @ body"
proof -
  from assms(5) obtain parts where parts: "send_complete c (\<lambda>c1. send_response c1 (with_length c r (length body))) (length body)
      = (c', Inr parts)" "out = join_framing parts body"
    by (auto simp: send_response_with_body_def send_response_with_body_framing_def Let_def split: prod.splits sum.splits)
  obtain c1 before where head: "send_response c (with_length c r (length body)) = (c1, Inr before)"
    "complete_after_head c1 before (length body) = (c', Inr parts)"
    using response_head.send_complete_head [OF parts(1)] .
  obtain h where h: "before = serialize_response (resp_version r) (resp_status r) (resp_reason r) h"
    using response_serialized [OF head(1)] by (auto split: if_splits)
  have "out = before @ body"
  proof (cases "opens_tunnel c (resp_status r)")
    case True
    then have "writer (cycle c1) = None" using tunnel_writer [OF head(1)] by (auto split: if_splits)
    from complete_no_writer [OF head(2) this] parts(2) show ?thesis by (simp add: join_framing_def)
  next
    case False
    have inv: "conn_inv c1" using send_response_inv [OF assms(1) head(1)] .
    obtain k where k: "writer (cycle c1) = Some (Fixed k)"
      using with_length_writer [OF assms(1-4) head(1) False] by blast
    have "local_state c1 \<noteq> SwitchedProtocol" using writer_local [OF inv k] by simp
    from complete_after_head_steps [OF inv this head(2)] send_message_body_fixed [OF inv k, of "[body]"] parts(2)
    show ?thesis by (auto split: if_splits)
  qed
  with h show ?thesis by blast
qed


lemma with_body_sent:
  "\<not> isl (snd (send_response sample_server (with_length sample_server sample_ok (length ''hello''))))"
  "\<not> isl (snd (send_response_with_body sample_server sample_ok ''hello''))"
  "\<not> opens_tunnel sample_server (resp_status sample_ok)"
  "\<not> has_framing_fields (resp_headers sample_ok)"
  by code_simp+

theorem one_call_is_the_steps_witness:
  "\<exists>c1 before. send_response sample_server (with_length sample_server sample_ok (length ''hello'')) = (c1, Inr before)
     \<and> (case send_message_body c1 [''hello''] headers_new of
           Some (c', out) \<Rightarrow> send_response_with_body sample_server sample_ok ''hello'' = (c', Inr (before @ out))
         | None \<Rightarrow> False)"
proof -
  obtain c1 before where p: "send_response sample_server (with_length sample_server sample_ok (length ''hello'')) = (c1, Inr before)"
    using sent_ok [OF with_body_sent(1)] by blast
  have steps: "case send_message_body c1 [''hello''] headers_new of
      Some (c', out) \<Rightarrow> send_response_with_body sample_server sample_ok ''hello'' = (c', Inr (before @ out))
    | None \<Rightarrow> \<exists>e. send_response_with_body sample_server sample_ok ''hello'' = (sample_server, Inl e)"
    using one_call_is_the_steps [OF sample_server_inv, of sample_ok "''hello''"] with_body_sent(3)
    by (simp only: p prod.case sum.case if_False)
  obtain c' out where m: "send_message_body c1 [''hello''] headers_new = Some (c', out)"
    using steps with_body_sent(2) by (cases "send_message_body c1 [''hello''] headers_new") auto
  with steps have "send_response_with_body sample_server sample_ok ''hello'' = (c', Inr (before @ out))" by simp
  with p m show ?thesis by (intro exI [of _ c1] exI [of _ before] conjI) (assumption, simp)
qed

theorem known_body_verbatim_witness:
  "\<exists>h. snd (send_response_with_body sample_server sample_ok ''hello'')
     = Inr (serialize_response Http11 (StatusCode 200) ''OK'' h @ ''hello'')"
proof -
  let ?p = "send_response_with_body sample_server sample_ok ''hello''"
  have p: "?p = (fst ?p, Inr (projr (snd ?p)))" using with_body_sent(2) by (rule sent_ok)
  have "headers_inv (resp_headers sample_ok)" "length ''hello'' \<le> usize_max" by (simp_all add: sample_ok_def usize_max_def)
  from known_body_verbatim [OF sample_server_inv this(1) with_body_sent(4) this(2) p] obtain h where
    "projr (snd ?p) = serialize_response (resp_version sample_ok) (resp_status sample_ok) (resp_reason sample_ok) h @ ''hello''" ..
  with p show ?thesis by (intro exI [of _ h]) (simp add: sample_ok_def, metis snd_conv)
qed

end
