(* ===== verification/H11r_Values.thy ===== *)
theory H11r_Values
  imports H11r_Send
begin

text \<open>
  The Python binding's values (\<open>crates/h11r-python/src/api\<close>: \<open>mod.rs\<close>, \<open>buffers.rs\<close>,
  \<open>headers.rs\<close>, \<open>events.rs\<close>): reading arguments from Python objects, the \<open>Headers\<close> class and
  the event classes.

  The interpreter and the PyO3 crate are not part of the repository. An object is a value of
  a type parameter, and what the binding asks of it (a cast, a buffer, an attribute, the items
  of an iterable) is a field of the record \<open>python\<close>, a parameter of the definitions. What the
  binding relies on is the predicate \<open>python_ok\<close>. A Python exception is a value of \<open>py_error\<close>;
  a panic reaches Python as a \<open>PanicException\<close>. An allocation that is possible at all is taken
  to succeed; a capacity beyond \<open>isize::MAX\<close> bytes is a panic.
\<close>

section \<open>The interface of the interpreter\<close>

datatype py_error =
    PyTypeError string
  | PyValueError string
  | PyOverflowError string
  | PyAttributeError string
  | PyLocalProtocolError string
  | PyRemoteProtocolError string "nat option"
  | PanicException
  | OtherException string

type_synonym 'a py_result = "py_error + 'a"

definition is_type_error :: "py_error \<Rightarrow> bool" where
  "is_type_error e = (case e of PyTypeError _ \<Rightarrow> True | _ \<Rightarrow> False)"

definition is_overflow_error :: "py_error \<Rightarrow> bool" where
  "is_overflow_error e = (case e of PyOverflowError _ \<Rightarrow> True | _ \<Rightarrow> False)"

definition is_attribute_error :: "py_error \<Rightarrow> bool" where
  "is_attribute_error e = (case e of PyAttributeError _ \<Rightarrow> True | _ \<Rightarrow> False)"

text \<open>A \<open>str\<close>: its UTF-8 text, which fails on surrogates, and its lossy text.\<close>

record py_str =
  to_str :: "bytes py_result"
  to_string_lossy :: bytes

record memory_view =
  mv_contiguous :: "bool py_result"
  mv_nbytes :: "nat py_result"
  mv_tobytes :: "bytes py_result"

text \<open>
  Casts give \<open>None\<close> where the object has another type; \<open>as_typed\<close> gives \<open>None\<close> for a buffer
  whose items are not bytes; an iterator yields its items until an exception.
\<close>

record 'o python =
  cast_exact_bytes :: "'o \<Rightarrow> bytes option"
  cast_bytes :: "'o \<Rightarrow> bytes option"
  cast_string :: "'o \<Rightarrow> py_str option"
  get_untyped_buffer :: "'o \<Rightarrow> unit py_result"
  as_typed_u8 :: "'o \<Rightarrow> bytes py_result option"
  memory_view_from :: "'o \<Rightarrow> memory_view py_result"
  getattr_nbytes :: "'o \<Rightarrow> 'o py_result"
  extract_usize :: "'o \<Rightarrow> nat py_result"
  extract_u16 :: "'o \<Rightarrow> 16 word py_result"
  cast_headers :: "'o \<Rightarrow> Headers option"
  cast_exact_tuple :: "'o \<Rightarrow> 'o list option"
  cast_tuple :: "'o \<Rightarrow> 'o list option"
  py_len :: "'o \<Rightarrow> nat py_result"
  try_iter :: "'o \<Rightarrow> 'o py_result list py_result"
  tuple_eq :: "'o \<Rightarrow> 'o \<Rightarrow> bool py_result"
  tuple_hash :: "'o \<Rightarrow> int py_result"
  tuple_index :: "'o \<Rightarrow> 'o list \<Rightarrow> 'o py_result"
  tuple_count :: "'o \<Rightarrow> 'o \<Rightarrow> 'o py_result"
  get_item :: "'o \<Rightarrow> 'o \<Rightarrow> 'o py_result"
  py_repr :: "'o \<Rightarrow> string py_result"
  int_object :: "16 word \<Rightarrow> 'o"
  bool_object :: "bool \<Rightarrow> 'o"
  bytes_object :: "bytes \<Rightarrow> 'o"
  tuple_object :: "'o list \<Rightarrow> 'o"
  list_object :: "'o list \<Rightarrow> 'o"
  headers_object :: "Headers \<Rightarrow> 'o"

text \<open>
  What the binding relies on: an exact \<open>bytes\<close> object is a \<open>bytes\<close> object of the same
  content and an exact tuple a tuple of the same items, the objects the binding makes are of
  the types it makes them of and read back, these types are disjoint, a tuple knows its length,
  and tuples of pairs of \<open>bytes\<close> compare by their contents.
\<close>

definition pairs_object :: "'o python \<Rightarrow> (bytes \<times> bytes) list \<Rightarrow> 'o" where
  "pairs_object py ps = tuple_object py (map (\<lambda>(n, v). tuple_object py [bytes_object py n, bytes_object py v]) ps)"

definition python_ok :: "'o python \<Rightarrow> bool" where
  "python_ok py \<longleftrightarrow>
     (\<forall>v b. cast_exact_bytes py v = Some b \<longrightarrow> cast_bytes py v = Some b)
     \<and> (\<forall>v xs. cast_exact_tuple py v = Some xs \<longrightarrow> cast_tuple py v = Some xs)
     \<and> (\<forall>b. cast_exact_bytes py (bytes_object py b) = Some b \<and> cast_string py (bytes_object py b) = None
          \<and> cast_tuple py (bytes_object py b) = None)
     \<and> (\<forall>xs. cast_exact_tuple py (tuple_object py xs) = Some xs \<and> cast_headers py (tuple_object py xs) = None
          \<and> py_len py (tuple_object py xs) = Inr (length xs))
     \<and> (\<forall>h. cast_headers py (headers_object py h) = Some h)
     \<and> (\<forall>w. extract_u16 py (int_object py w) = Inr w)
     \<and> (\<forall>ps qs. tuple_eq py (pairs_object py ps) (pairs_object py qs) = Inr (ps = qs))"

section \<open>Buffers and text (\<open>buffers.rs\<close>)\<close>

definition with_buffer :: "'o python \<Rightarrow> 'o \<Rightarrow> (bytes \<Rightarrow> 'r) \<Rightarrow> 'r py_result" where
  "with_buffer py value use =
     (case cast_bytes py value of
        Some bytes \<Rightarrow> Inr (use bytes)
      | None \<Rightarrow>
          (case get_untyped_buffer py value of
             Inl e \<Rightarrow> Inl e
           | Inr _ \<Rightarrow>
               (case as_typed_u8 py value of
                  Some (Inl e) \<Rightarrow> Inl e
                | Some (Inr bytes) \<Rightarrow> Inr (use bytes)
                | None \<Rightarrow>
                    (case memory_view_from py value of
                       Inl e \<Rightarrow> Inl e
                     | Inr view \<Rightarrow>
                         (case mv_tobytes view of Inl e \<Rightarrow> Inl e | Inr bytes \<Rightarrow> Inr (use bytes))))))"

definition contiguous_buffer_len :: "'o python \<Rightarrow> 'o \<Rightarrow> nat py_result" where
  "contiguous_buffer_len py value =
     (case cast_bytes py value of
        Some bytes \<Rightarrow> Inr (length bytes)
      | None \<Rightarrow>
          (case memory_view_from py value of
             Inl e \<Rightarrow> Inl e
           | Inr view \<Rightarrow>
               (case mv_contiguous view of
                  Inl e \<Rightarrow> Inl e
                | Inr c \<Rightarrow>
                    if \<not> c then Inl (PyValueError ''send_data_parts requires a contiguous buffer'')
                    else mv_nbytes view)))"

definition body_nbytes :: "'o python \<Rightarrow> 'o \<Rightarrow> nat py_result" where
  "body_nbytes py value =
     (case contiguous_buffer_len py value of
        Inr len \<Rightarrow> Inr len
      | Inl buffer_error \<Rightarrow>
          if is_type_error buffer_error then
            (case getattr_nbytes py value of
               Inr len \<Rightarrow> extract_usize py len
             | Inl e \<Rightarrow> if is_attribute_error e then Inl buffer_error else Inl e)
          else Inl buffer_error)"

definition is_ascii :: "bytes \<Rightarrow> bool" where
  "is_ascii text = list_all (\<lambda>b. byte_val b < 128) text"

definition with_text_or_buffer :: "'o python \<Rightarrow> 'o \<Rightarrow> (bytes \<Rightarrow> 'r) \<Rightarrow> 'r py_result" where
  "with_text_or_buffer py value use =
     (case cast_string py value of
        Some text \<Rightarrow>
          (case to_str text of
             Inl e \<Rightarrow> Inl e
           | Inr t \<Rightarrow> if \<not> is_ascii t then Inl (PyValueError ''HTTP str inputs must be ASCII'') else Inr (use t))
      | None \<Rightarrow> with_buffer py value use)"

definition text_or_buffer :: "'o python \<Rightarrow> 'o \<Rightarrow> bytes py_result" where
  "text_or_buffer py value = with_text_or_buffer py value (\<lambda>b. b)"

section \<open>Roles, states, statuses and errors (\<open>mod.rs\<close>)\<close>

datatype PyRole = PyRoleClient | PyRoleServer

fun role_from_py :: "PyRole \<Rightarrow> Role" where
  "role_from_py PyRoleClient = Client"
| "role_from_py PyRoleServer = Server"

datatype PyState =
    PyIdle
  | PySendResponse
  | PySendBody
  | PyDone
  | PyMightSwitchProtocol
  | PySwitchedProtocol
  | PyMustClose
  | PyClosed
  | PyError

fun py_state_from :: "State \<Rightarrow> PyState" where
  "py_state_from Idle = PyIdle"
| "py_state_from SendResponse = PySendResponse"
| "py_state_from SendBody = PySendBody"
| "py_state_from Done = PyDone"
| "py_state_from MightSwitchProtocol = PyMightSwitchProtocol"
| "py_state_from SwitchedProtocol = PySwitchedProtocol"
| "py_state_from MustClose = PyMustClose"
| "py_state_from Closed = PyClosed"
| "py_state_from Error = PyError"

datatype PyReceiveStatus = PyNeedData | PyPaused

definition py_status :: "'o python \<Rightarrow> 'o \<Rightarrow> StatusCode py_result" where
  "py_status py value =
     (case (case extract_u16 py value of
              Inr code \<Rightarrow> Inr code
            | Inl e \<Rightarrow> if is_overflow_error e then Inr 0 else Inl e) of
        Inl e \<Rightarrow> Inl e
      | Inr code \<Rightarrow>
          (case from_u16 code of
             Inl _ \<Rightarrow> Inl (PyValueError ''HTTP status code must be between 100 and 599'')
           | Inr status \<Rightarrow> Inr status))"

fun local_error :: "LocalProtocolError \<Rightarrow> py_error" where
  "local_error (LocalProtocolError m) = PyLocalProtocolError m"

definition remote_error :: "RemoteProtocolError \<Rightarrow> py_error" where
  "remote_error e = PyRemoteProtocolError (err_message e) (suggested_status_code e)"

text \<open>
  \<open>framed\<close> runs the framing, a function that changes the connection, over the length of the
  buffer, and writes what it gives around the bytes: into one new object of the length of the
  three parts (\<open>PyBytes::new_with\<close> gives it zeroed), split at their lengths. \<open>None\<close> is the panic
  of \<open>copy_from_slice\<close> on slices of different lengths.
\<close>

definition copy_from_slice :: "bytes \<Rightarrow> bytes \<Rightarrow> bytes option" where
  "copy_from_slice dst src = (if length dst = length src then Some src else None)"

definition write_parts :: "bytes \<Rightarrow> bytes \<Rightarrow> bytes \<Rightarrow> bytes option" where
  "write_parts before data after =
     (let out = replicate (length before + length data + length after) (CHR 0x00);
          head = take (length before) out; rest = drop (length before) out;
          body = take (length data) rest; tail = drop (length data) rest
      in case (copy_from_slice head before, copy_from_slice body data, copy_from_slice tail after) of
           (Some h, Some b, Some t) \<Rightarrow> Some (h @ b @ t)
         | _ \<Rightarrow> None)"

lemma write_parts_eq [simp]: "write_parts before data after = Some (before @ data @ after)"
  by (simp add: write_parts_def copy_from_slice_def Let_def)

definition framed ::
  "'o python \<Rightarrow> Connection \<Rightarrow> 'o \<Rightarrow> (nat \<Rightarrow> (bytes \<times> bytes) sent) \<Rightarrow> Connection \<times> bytes py_result" where
  "framed py c value frame =
     (case with_buffer py value
          (\<lambda>data. case frame (length data) of
              (c1, Inl e) \<Rightarrow> (c1, Inl (local_error e))
            | (c1, Inr (before, after)) \<Rightarrow>
                (c1, case write_parts before data after of None \<Rightarrow> Inl PanicException | Some wire \<Rightarrow> Inr wire)) of
        Inl e \<Rightarrow> (c, Inl e)
      | Inr r \<Rightarrow> r)"

section \<open>Header fields (\<open>headers.rs\<close>)\<close>

text \<open>The tuple of pairs is built on first use and kept.\<close>

record 'o PyHeaders =
  ph_fields :: Headers
  ph_items :: "'o option"

definition new_py :: "Headers \<Rightarrow> 'o PyHeaders" where
  "new_py fs = \<lparr>ph_fields = fs, ph_items = None\<rparr>"

definition py_headers :: "'o python \<Rightarrow> Headers \<Rightarrow> 'o" where
  "py_headers py h = pairs_object py (headers_iter h)"

definition ph_get_items :: "'o python \<Rightarrow> 'o PyHeaders \<Rightarrow> 'o PyHeaders \<times> 'o" where
  "ph_get_items py h =
     (case ph_items h of
        Some its \<Rightarrow> (h, its)
      | None \<Rightarrow> (let its = py_headers py (ph_fields h) in (h\<lparr>ph_items := Some its\<rparr>, its)))"

definition push_pair :: "'o python \<Rightarrow> Headers \<Rightarrow> 'o \<Rightarrow> Headers \<times> unit py_result" where
  "push_pair py h item =
     (case cast_tuple py item of
        None \<Rightarrow> (h, Inl (PyTypeError ''each header must be a 2-tuple''))
      | Some [name, value] \<Rightarrow>
          (case (cast_exact_bytes py name, cast_exact_bytes py value) of
             (Some n, Some v) \<Rightarrow> (headers_push h n v, Inr ())
           | _ \<Rightarrow>
               (case with_text_or_buffer py name
                       (\<lambda>n. with_text_or_buffer py value (\<lambda>v. headers_push h n v)) of
                  Inl e \<Rightarrow> (h, Inl e)
                | Inr (Inl e) \<Rightarrow> (h, Inl e)
                | Inr (Inr h1) \<Rightarrow> (h1, Inr ())))
      | Some _ \<Rightarrow> (h, Inl (PyTypeError ''each header must contain name and value'')))"

fun push_pairs :: "'o python \<Rightarrow> Headers \<Rightarrow> 'o py_result list \<Rightarrow> Headers py_result" where
  "push_pairs py h [] = Inr h"
| "push_pairs py h (Inl e # items) = Inl e"
| "push_pairs py h (Inr item # items) =
     (case push_pair py h item of
        (h1, Inl e) \<Rightarrow> Inl e
      | (h1, Inr _) \<Rightarrow> push_pairs py h1 items)"

text \<open>
  Room for the fields is made before they are read, from the length the object claims: 32
  bytes for the two ranges of a field and 64 for its name and value, the latter in wrapping
  arithmetic. A vector of more than \<open>isize::MAX\<close> bytes is a panic.
\<close>

definition capacity_overflow :: "nat \<Rightarrow> nat \<Rightarrow> bool" where
  "capacity_overflow fs bs \<longleftrightarrow> isize_max < bs \<or> isize_max < fs * 32"

definition extract_headers :: "'o python \<Rightarrow> 'o option \<Rightarrow> Headers py_result" where
  "extract_headers py value =
     (case value of
        None \<Rightarrow> Inr headers_new
      | Some v \<Rightarrow>
          (case cast_headers py v of
             Some h \<Rightarrow> Inr h
           | None \<Rightarrow>
               (let fs = (case py_len py v of Inl _ \<Rightarrow> 0 | Inr n \<Rightarrow> n)
                in if capacity_overflow fs (fs * 64 mod 2 ^ 64) then Inl PanicException
                else let h = headers_with_capacity fs (fs * 64 mod 2 ^ 64)
                in case cast_exact_tuple py v of
                     Some pairs \<Rightarrow> push_pairs py h (map Inr pairs)
                   | None \<Rightarrow>
                       (case try_iter py v of
                          Inl e \<Rightarrow> Inl e
                        | Inr items \<Rightarrow> push_pairs py h items))))"

definition with_field_name :: "'o python \<Rightarrow> 'o \<Rightarrow> (bytes \<Rightarrow> 'r) \<Rightarrow> 'r py_result" where
  "with_field_name py name use =
     (case cast_string py name of
        Some text \<Rightarrow> Inr (use (to_string_lossy text))
      | None \<Rightarrow> with_buffer py name use)"

definition ph_new :: "'o python \<Rightarrow> 'o option \<Rightarrow> 'o PyHeaders py_result" where
  "ph_new py fs = (case extract_headers py fs of Inl e \<Rightarrow> Inl e | Inr h \<Rightarrow> Inr \<lparr>ph_fields = h, ph_items = None\<rparr>)"

text \<open>\<open>None\<close> stands for the caller's default.\<close>

definition ph_get :: "'o python \<Rightarrow> 'o PyHeaders \<Rightarrow> 'o \<Rightarrow> bytes option py_result" where
  "ph_get py h name = with_field_name py name (\<lambda>n. first (get_all (ph_fields h) n))"

definition ph_get_all :: "'o python \<Rightarrow> 'o PyHeaders \<Rightarrow> 'o \<Rightarrow> bytes list py_result" where
  "ph_get_all py h name = with_field_name py name (\<lambda>n. get_all (ph_fields h) n)"

definition ph_len :: "'o PyHeaders \<Rightarrow> nat" where
  "ph_len h = headers_len (ph_fields h)"

text \<open>The methods of the tuple of pairs, which the binding hands on.\<close>

definition on_items :: "'o python \<Rightarrow> 'o PyHeaders \<Rightarrow> ('o \<Rightarrow> 'r) \<Rightarrow> 'o PyHeaders \<times> 'r" where
  "on_items py h use = (case ph_get_items py h of (h1, its) \<Rightarrow> (h1, use its))"

definition ph_index :: "'o python \<Rightarrow> 'o PyHeaders \<Rightarrow> 'o \<Rightarrow> 'o list \<Rightarrow> 'o PyHeaders \<times> 'o py_result" where
  "ph_index py h pair bounds = on_items py h (\<lambda>its. tuple_index py its ([pair] @ bounds))"

definition ph_count :: "'o python \<Rightarrow> 'o PyHeaders \<Rightarrow> 'o \<Rightarrow> 'o PyHeaders \<times> 'o py_result" where
  "ph_count py h pair = on_items py h (\<lambda>its. tuple_count py its pair)"

definition ph_getitem :: "'o python \<Rightarrow> 'o PyHeaders \<Rightarrow> 'o \<Rightarrow> 'o PyHeaders \<times> 'o py_result" where
  "ph_getitem py h index = on_items py h (\<lambda>its. get_item py its index)"

definition ph_iter :: "'o python \<Rightarrow> 'o PyHeaders \<Rightarrow> 'o PyHeaders \<times> 'o py_result list py_result" where
  "ph_iter py h = on_items py h (try_iter py)"

text \<open>\<open>None\<close> stands for \<open>NotImplemented\<close>.\<close>

definition ph_eq :: "'o python \<Rightarrow> 'o PyHeaders \<Rightarrow> 'o \<Rightarrow> 'o PyHeaders \<times> bool option py_result" where
  "ph_eq py h other =
     (case cast_headers py other of
        Some fs \<Rightarrow> (h, Inr (Some (headers_eq (ph_fields h) fs)))
      | None \<Rightarrow>
          if cast_tuple py other \<noteq> None then
            on_items py h (\<lambda>its. case tuple_eq py its other of Inl e \<Rightarrow> Inl e | Inr b \<Rightarrow> Inr (Some b))
          else (h, Inr None))"

definition ph_hash :: "'o python \<Rightarrow> 'o PyHeaders \<Rightarrow> 'o PyHeaders \<times> int py_result" where
  "ph_hash py h = on_items py h (tuple_hash py)"

text \<open>The constructor's argument of \<open>__reduce__\<close>.\<close>

definition ph_reduce :: "'o python \<Rightarrow> 'o PyHeaders \<Rightarrow> 'o PyHeaders \<times> 'o" where
  "ph_reduce py h = on_items py h (\<lambda>its. its)"

definition ph_repr :: "'o python \<Rightarrow> 'o PyHeaders \<Rightarrow> 'o PyHeaders \<times> string py_result" where
  "ph_repr py h =
     on_items py h (\<lambda>its.
       case py_repr py (list_object py (case cast_tuple py its of None \<Rightarrow> [] | Some xs \<Rightarrow> xs)) of
         Inl e \<Rightarrow> Inl e
       | Inr pairs \<Rightarrow> Inr (''Headers('' @ pairs @ '')''))"

definition py_headers_eq :: "'o PyHeaders \<Rightarrow> 'o PyHeaders \<Rightarrow> bool" where
  "py_headers_eq a b = headers_eq (ph_fields a) (ph_fields b)"

section \<open>Events (\<open>events.rs\<close>)\<close>

definition extract_method :: "'o python \<Rightarrow> 'o \<Rightarrow> Method py_result" where
  "extract_method py value =
     (case with_text_or_buffer py value method_from_bytes of
        Inl e \<Rightarrow> Inl e
      | Inr (Inl _) \<Rightarrow> Inl (PyValueError ''HTTP method must be a non-empty token'')
      | Inr (Inr m) \<Rightarrow> Inr m)"

definition optional_bytes :: "'o python \<Rightarrow> 'o option \<Rightarrow> bytes py_result" where
  "optional_bytes py value = (case value of None \<Rightarrow> Inr [] | Some v \<Rightarrow> text_or_buffer py v)"

abbreviation QUOTE :: byte where "QUOTE \<equiv> CHR 0x27"

definition extract_version :: "'o python \<Rightarrow> 'o option \<Rightarrow> Version py_result" where
  "extract_version py value =
     (case (case value of
              None \<Rightarrow> Inr None
            | Some v \<Rightarrow> (case text_or_buffer py v of Inl e \<Rightarrow> Inl e | Inr b \<Rightarrow> Inr (Some b))) of
        Inl e \<Rightarrow> Inl e
      | Inr text \<Rightarrow>
          if text = None \<or> text = Some ''1.1'' then Inr Http11
          else if text = Some ''1.0'' then Inr Http10
          else Inl (PyValueError (''http_version must be b'' @ [QUOTE] @ ''1.0'' @ [QUOTE] @ '' or b'' @ [QUOTE]
                 @ ''1.1'' @ [QUOTE])))"

text \<open>The \<open>bytes\<close> objects that are made once per process and shared.\<close>

record py_cells =
  registered :: "bytes option list"
  http10_cell :: "bytes option"
  http11_cell :: "bytes option"

definition cells_new :: py_cells where
  "cells_new = \<lparr>registered = replicate 9 None, http10_cell = None, http11_cell = None\<rparr>"

definition get_or_init :: "bytes option \<Rightarrow> bytes \<Rightarrow> bytes" where
  "get_or_init cell value = (case cell of Some b \<Rightarrow> b | None \<Rightarrow> value)"

definition py_method_index :: "bytes \<Rightarrow> nat option" where
  "py_method_index m =
     (if m = ''GET'' then Some 0 else if m = ''HEAD'' then Some 1 else if m = ''POST'' then Some 2
      else if m = ''PUT'' then Some 3 else if m = ''DELETE'' then Some 4 else if m = ''CONNECT'' then Some 5
      else if m = ''OPTIONS'' then Some 6 else if m = ''TRACE'' then Some 7 else if m = ''PATCH'' then Some 8
      else None)"

definition py_method :: "py_cells \<Rightarrow> Method \<Rightarrow> py_cells \<times> bytes" where
  "py_method cells method =
     (case py_method_index (as_bytes method) of
        None \<Rightarrow> (cells, as_bytes method)
      | Some i \<Rightarrow>
          (let b = get_or_init (registered cells ! i) (as_bytes method)
           in (cells\<lparr>registered := (registered cells)[i := Some b]\<rparr>, b)))"

definition py_version :: "py_cells \<Rightarrow> Version \<Rightarrow> py_cells \<times> bytes" where
  "py_version cells value =
     (case value of
        Http10 \<Rightarrow> (let b = get_or_init (http10_cell cells) ''1.0'' in (cells\<lparr>http10_cell := Some b\<rparr>, b))
      | Http11 \<Rightarrow> (let b = get_or_init (http11_cell cells) ''1.1'' in (cells\<lparr>http11_cell := Some b\<rparr>, b)))"

record 'o PyRequest =
  pr_method :: bytes
  pr_target :: bytes
  pr_headers :: "'o PyHeaders"
  pr_http_version :: bytes

definition pr_from_core :: "py_cells \<Rightarrow> Request \<Rightarrow> py_cells \<times> 'o PyRequest" where
  "pr_from_core cells value =
     (case py_method cells (req_method value) of (cells1, method) \<Rightarrow>
      case py_version cells1 (req_version value) of (cells2, version) \<Rightarrow>
        (cells2, \<lparr>pr_method = method, pr_target = req_target value, pr_headers = new_py (req_headers value),
           pr_http_version = version\<rparr>))"

definition pr_eq :: "'o PyRequest \<Rightarrow> 'o PyRequest \<Rightarrow> bool" where
  "pr_eq a b \<longleftrightarrow>
     pr_method a = pr_method b \<and> pr_target a = pr_target b \<and> py_headers_eq (pr_headers a) (pr_headers b)
     \<and> pr_http_version a = pr_http_version b"

text \<open>Reading the arguments of a request, in their order, as its constructor and \<open>send_request\<close> do.\<close>

definition extract_request :: "'o python \<Rightarrow> 'o \<Rightarrow> 'o \<Rightarrow> 'o \<Rightarrow> 'o option \<Rightarrow> Request py_result" where
  "extract_request py method target headers http_version =
     (case extract_method py method of
        Inl e \<Rightarrow> Inl e
      | Inr m \<Rightarrow>
          (case text_or_buffer py target of
             Inl e \<Rightarrow> Inl e
           | Inr t \<Rightarrow>
               (case extract_headers py (Some headers) of
                  Inl e \<Rightarrow> Inl e
                | Inr h \<Rightarrow>
                    (case extract_version py http_version of
                       Inl e \<Rightarrow> Inl e
                     | Inr v \<Rightarrow> Inr \<lparr>req_method = m, req_target = t, req_headers = h, req_version = v\<rparr>))))"

definition pr_new :: "'o python \<Rightarrow> py_cells \<Rightarrow> 'o \<Rightarrow> 'o \<Rightarrow> 'o \<Rightarrow> 'o option \<Rightarrow> py_cells \<times> 'o PyRequest py_result" where
  "pr_new py cells method target headers http_version =
     (case extract_request py method target headers http_version of
        Inl e \<Rightarrow> (cells, Inl e)
      | Inr r \<Rightarrow> (case pr_from_core cells r of (cells1, q) \<Rightarrow> (cells1, Inr q)))"

record 'o PyResponseBase =
  ps_status_code :: "16 word"
  ps_reason :: bytes
  ps_headers :: "'o PyHeaders"
  ps_http_version :: bytes

definition ps_from_core :: "py_cells \<Rightarrow> Response \<Rightarrow> py_cells \<times> 'o PyResponseBase" where
  "ps_from_core cells value =
     (case py_version cells (resp_version value) of (cells1, version) \<Rightarrow>
        (cells1, \<lparr>ps_status_code = as_u16 (resp_status value), ps_reason = resp_reason value,
           ps_headers = new_py (resp_headers value), ps_http_version = version\<rparr>))"

definition ps_eq :: "'o PyResponseBase \<Rightarrow> 'o PyResponseBase \<Rightarrow> bool" where
  "ps_eq a b \<longleftrightarrow>
     ps_status_code a = ps_status_code b \<and> ps_reason a = ps_reason b
     \<and> py_headers_eq (ps_headers a) (ps_headers b) \<and> ps_http_version a = ps_http_version b"

text \<open>The arguments of a response after its status.\<close>

definition extract_response ::
  "'o python \<Rightarrow> StatusCode \<Rightarrow> 'o option \<Rightarrow> 'o option \<Rightarrow> 'o option \<Rightarrow> Response py_result" where
  "extract_response py status headers reason http_version =
     (case optional_bytes py reason of
        Inl e \<Rightarrow> Inl e
      | Inr r \<Rightarrow>
          (case extract_headers py headers of
             Inl e \<Rightarrow> Inl e
           | Inr h \<Rightarrow>
               (case extract_version py http_version of
                  Inl e \<Rightarrow> Inl e
                | Inr v \<Rightarrow> Inr \<lparr>resp_status = status, resp_reason = r, resp_headers = h, resp_version = v\<rparr>)))"

definition ps_new ::
  "'o python \<Rightarrow> py_cells \<Rightarrow> bool \<Rightarrow> 'o \<Rightarrow> 'o option \<Rightarrow> 'o option \<Rightarrow> 'o option
     \<Rightarrow> py_cells \<times> 'o PyResponseBase py_result" where
  "ps_new py cells informational status_code headers reason http_version =
     (case py_status py status_code of
        Inl e \<Rightarrow> (cells, Inl e)
      | Inr status \<Rightarrow>
          if is_informational status \<noteq> informational then
            (cells, Inl (PyValueError
               (if informational then ''InformationalResponse requires a 1xx status''
                else ''Response requires a final, non-1xx status'')))
          else
            (case extract_response py status headers reason http_version of
               Inl e \<Rightarrow> (cells, Inl e)
             | Inr r \<Rightarrow> (case ps_from_core cells r of (cells1, s) \<Rightarrow> (cells1, Inr s))))"

definition informational_new ::
  "'o python \<Rightarrow> py_cells \<Rightarrow> 'o \<Rightarrow> 'o option \<Rightarrow> 'o option \<Rightarrow> 'o option \<Rightarrow> py_cells \<times> 'o PyResponseBase py_result" where
  "informational_new py cells status_code headers reason http_version =
     ps_new py cells True status_code headers reason http_version"

definition response_new ::
  "'o python \<Rightarrow> py_cells \<Rightarrow> 'o \<Rightarrow> 'o option \<Rightarrow> 'o option \<Rightarrow> 'o option \<Rightarrow> py_cells \<times> 'o PyResponseBase py_result" where
  "response_new py cells status_code headers reason http_version =
     ps_new py cells False status_code headers reason http_version"

record PyData =
  pd_data :: bytes
  pd_chunk_start :: bool
  pd_chunk_end :: bool

definition pd_eq :: "PyData \<Rightarrow> PyData \<Rightarrow> bool" where
  "pd_eq a b \<longleftrightarrow>
     pd_data a = pd_data b \<and> pd_chunk_start a = pd_chunk_start b \<and> pd_chunk_end a = pd_chunk_end b"

definition pd_new :: "'o python \<Rightarrow> 'o \<Rightarrow> bool \<Rightarrow> bool \<Rightarrow> PyData py_result" where
  "pd_new py data chunk_start chunk_end =
     (case with_buffer py data (\<lambda>b. b) of
        Inl e \<Rightarrow> Inl e
      | Inr b \<Rightarrow> Inr \<lparr>pd_data = b, pd_chunk_start = chunk_start, pd_chunk_end = chunk_end\<rparr>)"

record 'o PyEndOfMessage =
  pm_trailers :: "'o PyHeaders"

definition pm_eq :: "'o PyEndOfMessage \<Rightarrow> 'o PyEndOfMessage \<Rightarrow> bool" where
  "pm_eq a b = py_headers_eq (pm_trailers a) (pm_trailers b)"

definition pm_new :: "'o python \<Rightarrow> 'o option \<Rightarrow> 'o PyEndOfMessage py_result" where
  "pm_new py trailers =
     (case extract_headers py trailers of Inl e \<Rightarrow> Inl e | Inr h \<Rightarrow> Inr \<lparr>pm_trailers = new_py h\<rparr>)"

text \<open>What \<open>next_event\<close> returns: an object of one of the event classes, or a receive status.\<close>

datatype 'o py_event =
    PyEvRequest "'o PyRequest"
  | PyEvInformationalResponse "'o PyResponseBase"
  | PyEvResponse "'o PyResponseBase"
  | PyEvData PyData
  | PyEvEndOfMessage "'o PyEndOfMessage"
  | PyEvConnectionClosed
  | PyEvStatus PyReceiveStatus

definition data_to_py :: "bytes \<Rightarrow> bool \<Rightarrow> bool \<Rightarrow> 'o py_event" where
  "data_to_py data chunk_start chunk_end =
     PyEvData \<lparr>pd_data = data, pd_chunk_start = chunk_start, pd_chunk_end = chunk_end\<rparr>"

fun event_to_py :: "py_cells \<Rightarrow> Event \<Rightarrow> py_cells \<times> 'o py_event" where
  "event_to_py cells (EventRequest value) =
     (case pr_from_core cells value of (cells1, r) \<Rightarrow> (cells1, PyEvRequest r))"
| "event_to_py cells (EventInformationalResponse value) =
     (case ps_from_core cells value of (cells1, r) \<Rightarrow> (cells1, PyEvInformationalResponse r))"
| "event_to_py cells (EventResponse value) =
     (case ps_from_core cells value of (cells1, r) \<Rightarrow> (cells1, PyEvResponse r))"
| "event_to_py cells (EventData data chunk_start chunk_end) = (cells, data_to_py data chunk_start chunk_end)"
| "event_to_py cells (EventEndOfMessage trailers) = (cells, PyEvEndOfMessage \<lparr>pm_trailers = new_py trailers\<rparr>)"
| "event_to_py cells EventConnectionClosed = (cells, PyEvConnectionClosed)"

fun repr_parts :: "'o python \<Rightarrow> (string \<times> 'o) list \<Rightarrow> string list py_result" where
  "repr_parts py [] = Inr []"
| "repr_parts py ((name, value) # fs) =
     (case py_repr py value of
        Inl e \<Rightarrow> Inl e
      | Inr s \<Rightarrow> (case repr_parts py fs of Inl e \<Rightarrow> Inl e | Inr ss \<Rightarrow> Inr ((name @ ''='' @ s) # ss)))"

definition repr_fields :: "'o python \<Rightarrow> string \<Rightarrow> (string \<times> 'o) list \<Rightarrow> string py_result" where
  "repr_fields py cls fs =
     (case repr_parts py fs of Inl e \<Rightarrow> Inl e | Inr ss \<Rightarrow> Inr (cls @ ''('' @ join '', '' ss @ '')''))"

definition pr_repr :: "'o python \<Rightarrow> 'o PyRequest \<Rightarrow> string py_result" where
  "pr_repr py r =
     repr_fields py ''Request''
       [(''method'', bytes_object py (pr_method r)), (''target'', bytes_object py (pr_target r)),
        (''headers'', headers_object py (ph_fields (pr_headers r))),
        (''http_version'', bytes_object py (pr_http_version r))]"

definition ps_repr :: "'o python \<Rightarrow> string \<Rightarrow> 'o PyResponseBase \<Rightarrow> string py_result" where
  "ps_repr py cls r =
     repr_fields py cls
       [(''status_code'', int_object py (ps_status_code r)), (''reason'', bytes_object py (ps_reason r)),
        (''headers'', headers_object py (ph_fields (ps_headers r))),
        (''http_version'', bytes_object py (ps_http_version r))]"

definition pd_repr :: "'o python \<Rightarrow> PyData \<Rightarrow> string py_result" where
  "pd_repr py d =
     repr_fields py ''Data''
       [(''data'', bytes_object py (pd_data d)), (''chunk_start'', bool_object py (pd_chunk_start d)),
        (''chunk_end'', bool_object py (pd_chunk_end d))]"

definition pm_repr :: "'o python \<Rightarrow> 'o PyEndOfMessage \<Rightarrow> string py_result" where
  "pm_repr py m = repr_fields py ''EndOfMessage'' [(''trailers'', headers_object py (ph_fields (pm_trailers m)))]"

section \<open>Reading back what the binding makes\<close>

lemma python_okD:
  assumes "python_ok py"
  shows "cast_exact_bytes py v = Some b \<Longrightarrow> cast_bytes py v = Some b"
    and "cast_exact_tuple py v = Some xs \<Longrightarrow> cast_tuple py v = Some xs"
    and "cast_exact_bytes py (bytes_object py b) = Some b" "cast_string py (bytes_object py b) = None"
    and "cast_exact_tuple py (tuple_object py xs) = Some xs" "cast_headers py (tuple_object py xs) = None"
    and "cast_headers py (headers_object py h) = Some h" "extract_u16 py (int_object py w) = Inr w"
    and "tuple_eq py (pairs_object py ps) (pairs_object py qs) = Inr (ps = qs)"
    and "py_len py (tuple_object py xs) = Inr (length xs)"
  using assms by (simp_all add: python_ok_def)

lemma made_bytes:
  assumes "python_ok py"
  shows "with_buffer py (bytes_object py b) use = Inr (use b)"
    and "with_text_or_buffer py (bytes_object py b) use = Inr (use b)"
    and "text_or_buffer py (bytes_object py b) = Inr b"
  using python_okD [OF assms]
  by (simp_all add: with_buffer_def with_text_or_buffer_def text_or_buffer_def)

lemma push_made_pairs:
  assumes "python_ok py"
  shows "push_pairs py h (map Inr (map (\<lambda>(n, v). tuple_object py [bytes_object py n, bytes_object py v]) ps))
    = Inr (headers_extend h ps)"
proof (induction ps arbitrary: h)
  case (Cons p ps)
  then show ?case
    using python_okD [OF assms] by (cases p) (simp add: push_pair_def headers_extend_def)
qed (simp add: headers_extend_def)

text \<open>An object that claims as many fields as the address space cannot hold makes the room check panic.\<close>

lemma capacity_overflow_iff: "capacity_overflow fs (fs * 64 mod 2 ^ 64) \<longleftrightarrow> 2 ^ 57 \<le> fs"
proof (cases "fs < 2 ^ 58")
  case True
  then have "fs * 64 mod 2 ^ 64 = fs * 64" by simp
  then show ?thesis by (auto simp: capacity_overflow_def isize_max_def)
qed (auto simp: capacity_overflow_def isize_max_def)

lemma claimed_length_panics:
  assumes "cast_headers py v = None" and "py_len py v = Inr n" and "2 ^ 57 \<le> n"
  shows "extract_headers py (Some v) = Inl PanicException"
proof -
  from assms(3) have "capacity_overflow n (n * 64 mod 2 ^ 64)" by (simp only: capacity_overflow_iff)
  with assms(1,2) show ?thesis by (simp add: extract_headers_def Let_def)
qed

lemma extract_made_pairs:
  assumes "python_ok py" and "length ps < 2 ^ 57"
  shows "extract_headers py (Some (pairs_object py ps)) = Inr (headers_from ps)"
  using python_okD(5,6,10) [OF assms(1)] push_made_pairs [OF assms(1)] capacity_overflow_iff [of "length ps"] assms(2)
  by (simp add: extract_headers_def pairs_object_def headers_from_def headers_with_capacity_def headers_new_def Let_def)

lemma extract_made_headers: "python_ok py \<Longrightarrow> extract_headers py (Some (headers_object py h)) = Inr h"
  by (simp add: extract_headers_def python_okD)

lemma headers_eq_iff: "headers_eq a b \<longleftrightarrow> headers_iter a = headers_iter b"
  by (simp add: headers_eq_def)

text \<open>The kept tuple is that of the fields.\<close>

definition ph_inv :: "'o python \<Rightarrow> 'o PyHeaders \<Rightarrow> bool" where
  [inv_defs]: "ph_inv py h \<longleftrightarrow>
     headers_inv (ph_fields h) \<and> (ph_items h = None \<or> ph_items h = Some (py_headers py (ph_fields h)))"

lemma ph_inv_new: "headers_inv h \<Longrightarrow> ph_inv py (new_py h)"
  by (simp add: ph_inv_def new_py_def)

lemma ph_get_items_eq:
  "ph_inv py h \<Longrightarrow> ph_get_items py h = (h\<lparr>ph_items := Some (py_headers py (ph_fields h))\<rparr>, py_headers py (ph_fields h))"
  by (auto simp: ph_get_items_def ph_inv_def Let_def)

lemma on_items_eq:
  "ph_inv py h \<Longrightarrow> on_items py h use
     = (h\<lparr>ph_items := Some (py_headers py (ph_fields h))\<rparr>, use (py_headers py (ph_fields h)))"
  by (simp add: on_items_def ph_get_items_eq)

lemma on_items_inv: "ph_inv py h \<Longrightarrow> ph_inv py (fst (on_items py h use))"
  by (simp add: on_items_eq) (simp add: ph_inv_def)

text \<open>The shared objects hold what they were made for.\<close>

definition registered_names :: "bytes list" where
  "registered_names =
     [''GET'', ''HEAD'', ''POST'', ''PUT'', ''DELETE'', ''CONNECT'', ''OPTIONS'', ''TRACE'', ''PATCH'']"

definition cells_ok :: "py_cells \<Rightarrow> bool" where
  [inv_defs]: "cells_ok cells \<longleftrightarrow>
     length (registered cells) = 9
     \<and> list_all2 (\<lambda>cell name. cell = None \<or> cell = Some name) (registered cells) registered_names
     \<and> (http10_cell cells = None \<or> http10_cell cells = Some ''1.0'')
     \<and> (http11_cell cells = None \<or> http11_cell cells = Some ''1.1'')"

lemma cells_ok_new: "cells_ok cells_new"
  by (simp add: cells_ok_def cells_new_def registered_names_def numeral_eq_Suc)

lemma py_method_index_name: "py_method_index m = Some i \<Longrightarrow> i < 9 \<and> registered_names ! i = m"
  by (auto simp: py_method_index_def registered_names_def split: if_splits)

lemma py_method_ok:
  assumes "cells_ok cells"
  shows "snd (py_method cells m) = as_bytes m \<and> cells_ok (fst (py_method cells m))"
proof (cases "py_method_index (as_bytes m)")
  case (Some i)
  from py_method_index_name [OF Some] have i: "i < 9" "registered_names ! i = as_bytes m" by auto
  with assms have "registered cells ! i = None \<or> registered cells ! i = Some (as_bytes m)"
    by (auto simp: cells_ok_def list_all2_conv_all_nth)
  then have b: "get_or_init (registered cells ! i) (as_bytes m) = as_bytes m" by (auto simp: get_or_init_def)
  have "list_all2 (\<lambda>cell name. cell = None \<or> cell = Some name) ((registered cells)[i := Some (as_bytes m)])
      (registered_names[i := as_bytes m])"
    using assms by (intro list_all2_update_cong) (auto simp: cells_ok_def)
  moreover have "registered_names[i := as_bytes m] = registered_names" using i(2) by (metis list_update_id)
  ultimately show ?thesis using assms Some b by (simp add: py_method_def Let_def cells_ok_def)
qed (use assms in \<open>simp add: py_method_def\<close>)

lemma py_version_ok:
  "cells_ok cells \<Longrightarrow> snd (py_version cells v) = version_wire v \<and> cells_ok (fst (py_version cells v))"
  by (cases v) (auto simp: py_version_def Let_def get_or_init_def cells_ok_def)

lemma pr_from_core_ok:
  assumes "cells_ok cells"
  shows "cells_ok (fst (pr_from_core cells r)) \<and> snd (pr_from_core cells r)
    = \<lparr>pr_method = as_bytes (req_method r), pr_target = req_target r, pr_headers = new_py (req_headers r),
       pr_http_version = version_wire (req_version r)\<rparr>"
proof -
  obtain c1 m where m: "py_method cells (req_method r) = (c1, m)" by fastforce
  obtain c2 v where v: "py_version c1 (req_version r) = (c2, v)" by fastforce
  from py_method_ok [OF assms, of "req_method r"] m have "m = as_bytes (req_method r)" "cells_ok c1" by simp_all
  with py_version_ok [of c1 "req_version r"] v m show ?thesis by (simp add: pr_from_core_def)
qed

lemma ps_from_core_ok:
  assumes "cells_ok cells"
  shows "cells_ok (fst (ps_from_core cells r)) \<and> snd (ps_from_core cells r)
    = \<lparr>ps_status_code = as_u16 (resp_status r), ps_reason = resp_reason r, ps_headers = new_py (resp_headers r),
       ps_http_version = version_wire (resp_version r)\<rparr>"
  using py_version_ok [OF assms, of "resp_version r"]
  by (cases "py_version cells (resp_version r)") (simp add: ps_from_core_def)

lemma pr_from_core_cells: "pr_from_core cells r = (cells1, q) \<Longrightarrow> cells_ok cells \<Longrightarrow> cells_ok cells1"
  by (metis fst_conv pr_from_core_ok)

lemma ps_from_core_cells: "ps_from_core cells r = (cells1, q) \<Longrightarrow> cells_ok cells \<Longrightarrow> cells_ok cells1"
  by (metis fst_conv ps_from_core_ok)

lemma event_to_py_cells: "cells_ok cells \<Longrightarrow> event_to_py cells e = (cells1, ev) \<Longrightarrow> cells_ok cells1"
  by (cases e) (auto split: prod.splits dest: pr_from_core_cells ps_from_core_cells)

lemma extract_made_version: "python_ok py \<Longrightarrow> extract_version py (Some (bytes_object py (version_wire v))) = Inr v"
  by (cases v) (simp_all add: extract_version_def made_bytes)

lemma py_status_made: "python_ok py \<Longrightarrow> status_ok s \<Longrightarrow> py_status py (int_object py (as_u16 s)) = Inr s"
proof -
  assume ok: "python_ok py" "status_ok s"
  then have "from_u16 (as_u16 s) = Inr s" by (simp add: from_u16_Inr)
  with ok show ?thesis by (simp add: py_status_def python_okD)
qed

lemma extract_made_method: "python_ok py \<Longrightarrow> method_ok m \<Longrightarrow> extract_method py (bytes_object py (as_bytes m)) = Inr m"
proof -
  assume ok: "python_ok py" "method_ok m"
  then have "method_from_bytes (as_bytes m) = Inr m" by (cases m) (simp add: method_ok_def method_from_bytes_Inr)
  with ok show ?thesis by (simp add: extract_method_def made_bytes)
qed

lemma extract_request_made:
  "python_ok py \<Longrightarrow> method_ok (req_method r) \<Longrightarrow>
   extract_request py (bytes_object py (as_bytes (req_method r))) (bytes_object py (req_target r))
     (headers_object py (req_headers r)) (Some (bytes_object py (version_wire (req_version r)))) = Inr r"
  by (simp add: extract_request_def extract_made_method made_bytes extract_made_headers extract_made_version)

lemma extract_response_made:
  "python_ok py \<Longrightarrow>
   extract_response py (resp_status r) (Some (headers_object py (resp_headers r)))
     (Some (bytes_object py (resp_reason r))) (Some (bytes_object py (version_wire (resp_version r)))) = Inr r"
  by (simp add: extract_response_def optional_bytes_def made_bytes extract_made_headers extract_made_version)

text \<open>A call of the class of an event on the attributes of the event.\<close>

fun rebuild :: "'o python \<Rightarrow> py_cells \<Rightarrow> 'o py_event \<Rightarrow> 'o py_event py_result" where
  "rebuild py cells (PyEvRequest q) =
     map_sum id PyEvRequest (snd (pr_new py cells (bytes_object py (pr_method q)) (bytes_object py (pr_target q))
       (headers_object py (ph_fields (pr_headers q))) (Some (bytes_object py (pr_http_version q)))))"
| "rebuild py cells (PyEvInformationalResponse q) =
     map_sum id PyEvInformationalResponse (snd (informational_new py cells (int_object py (ps_status_code q))
       (Some (headers_object py (ph_fields (ps_headers q)))) (Some (bytes_object py (ps_reason q)))
       (Some (bytes_object py (ps_http_version q)))))"
| "rebuild py cells (PyEvResponse q) =
     map_sum id PyEvResponse (snd (response_new py cells (int_object py (ps_status_code q))
       (Some (headers_object py (ph_fields (ps_headers q)))) (Some (bytes_object py (ps_reason q)))
       (Some (bytes_object py (ps_http_version q)))))"
| "rebuild py cells (PyEvData d) =
     map_sum id PyEvData (pd_new py (bytes_object py (pd_data d)) (pd_chunk_start d) (pd_chunk_end d))"
| "rebuild py cells (PyEvEndOfMessage m) =
     map_sum id PyEvEndOfMessage (pm_new py (Some (headers_object py (ph_fields (pm_trailers m)))))"
| "rebuild py cells PyEvConnectionClosed = Inr PyEvConnectionClosed"
| "rebuild py cells (PyEvStatus s) = Inr (PyEvStatus s)"

fun py_event_eq :: "'o py_event \<Rightarrow> 'o py_event \<Rightarrow> bool" where
  "py_event_eq (PyEvRequest a) (PyEvRequest b) = pr_eq a b"
| "py_event_eq (PyEvInformationalResponse a) (PyEvInformationalResponse b) = ps_eq a b"
| "py_event_eq (PyEvResponse a) (PyEvResponse b) = ps_eq a b"
| "py_event_eq (PyEvData a) (PyEvData b) = pd_eq a b"
| "py_event_eq (PyEvEndOfMessage a) (PyEvEndOfMessage b) = pm_eq a b"
| "py_event_eq PyEvConnectionClosed PyEvConnectionClosed = True"
| "py_event_eq (PyEvStatus a) (PyEvStatus b) = (a = b)"
| "py_event_eq _ _ = False"

text \<open>What the parser guarantees of the events.\<close>

fun event_ok :: "Event \<Rightarrow> bool" where
  "event_ok (EventRequest r) = method_ok (req_method r)"
| "event_ok (EventInformationalResponse r) = (status_ok (resp_status r) \<and> is_informational (resp_status r))"
| "event_ok (EventResponse r) = (status_ok (resp_status r) \<and> \<not> is_informational (resp_status r))"
| "event_ok _ = True"

lemma pr_eq_refl [simp]: "pr_eq a a" "ps_eq b b" "pd_eq d d" "pm_eq m m"
  by (simp_all add: pr_eq_def ps_eq_def pd_eq_def pm_eq_def py_headers_eq_def headers_eq_def)

lemma pr_new_made:
  assumes "python_ok py" and "cells_ok cells" and "method_ok (req_method r)"
  shows "snd (pr_new py cells (bytes_object py (as_bytes (req_method r))) (bytes_object py (req_target r))
     (headers_object py (req_headers r)) (Some (bytes_object py (version_wire (req_version r)))))
   = Inr (snd (pr_from_core cells r))"
  using extract_request_made [OF assms(1,3)] by (simp add: pr_new_def split: prod.split)

lemma ps_new_made:
  assumes "python_ok py" and "cells_ok cells" and "status_ok (resp_status r)" and "i = is_informational (resp_status r)"
  shows "snd (ps_new py cells i (int_object py (as_u16 (resp_status r))) (Some (headers_object py (resp_headers r)))
     (Some (bytes_object py (resp_reason r))) (Some (bytes_object py (version_wire (resp_version r)))))
   = Inr (snd (ps_from_core cells r))"
  using extract_response_made [OF assms(1)] py_status_made [OF assms(1,3)] assms(4)
  by (simp add: ps_new_def split: prod.split)

lemma rebuild_made:
  assumes "python_ok py" and "cells_ok cells" and "cells_ok later" and "event_ok e"
    and "event_to_py cells e = (cells1, ev)"
  shows "\<exists>ev'. rebuild py later ev = Inr ev' \<and> py_event_eq ev ev'"
proof (cases e)
  case (EventRequest r)
  obtain c q where q: "pr_from_core cells r = (c, q :: 'a PyRequest)" by fastforce
  have "q = snd (pr_from_core later r)"
    by (metis assms(2,3) pr_from_core_ok q snd_conv)
  moreover have "snd (pr_from_core later r :: py_cells \<times> 'a PyRequest)
    = \<lparr>pr_method = as_bytes (req_method r), pr_target = req_target r, pr_headers = new_py (req_headers r),
       pr_http_version = version_wire (req_version r)\<rparr>"
    by (rule conjunct2 [OF pr_from_core_ok [OF assms(3)]])
  ultimately show ?thesis using pr_new_made [OF assms(1,3), of r] EventRequest assms(4,5) q
    by (auto simp: new_py_def)
next
  case (EventInformationalResponse r)
  obtain c q where q: "ps_from_core cells r = (c, q :: 'a PyResponseBase)" by fastforce
  have "q = snd (ps_from_core later r)"
    by (metis assms(2,3) ps_from_core_ok q snd_conv)
  moreover have "snd (ps_from_core later r :: py_cells \<times> 'a PyResponseBase)
    = \<lparr>ps_status_code = as_u16 (resp_status r), ps_reason = resp_reason r, ps_headers = new_py (resp_headers r),
       ps_http_version = version_wire (resp_version r)\<rparr>"
    by (rule conjunct2 [OF ps_from_core_ok [OF assms(3)]])
  ultimately show ?thesis using ps_new_made [OF assms(1,3), of r True] EventInformationalResponse assms(4,5) q
    by (auto simp: new_py_def informational_new_def)
next
  case (EventResponse r)
  obtain c q where q: "ps_from_core cells r = (c, q :: 'a PyResponseBase)" by fastforce
  have "q = snd (ps_from_core later r)"
    by (metis assms(2,3) ps_from_core_ok q snd_conv)
  moreover have "snd (ps_from_core later r :: py_cells \<times> 'a PyResponseBase)
    = \<lparr>ps_status_code = as_u16 (resp_status r), ps_reason = resp_reason r, ps_headers = new_py (resp_headers r),
       ps_http_version = version_wire (resp_version r)\<rparr>"
    by (rule conjunct2 [OF ps_from_core_ok [OF assms(3)]])
  ultimately show ?thesis using ps_new_made [OF assms(1,3), of r False] EventResponse assms(4,5) q
    by (auto simp: new_py_def response_new_def)
next
  case (EventData d b f)
  with assms(1,5) show ?thesis by (auto simp: data_to_py_def pd_new_def made_bytes pd_eq_def)
next
  case (EventEndOfMessage h)
  with assms(1,5) show ?thesis by (auto simp: pm_new_def extract_made_headers new_py_def)
qed (use assms(5) in auto)

fun events_to_py :: "py_cells \<Rightarrow> Event list \<Rightarrow> py_cells \<times> 'o py_event list" where
  "events_to_py cells [] = (cells, [])"
| "events_to_py cells (e # es) =
     (case event_to_py cells e of (cells1, ev) \<Rightarrow>
      case events_to_py cells1 es of (cells2, evs) \<Rightarrow> (cells2, ev # evs))"

lemma events_to_py_cells: "cells_ok cells \<Longrightarrow> events_to_py cells es = (cells', evs) \<Longrightarrow> cells_ok cells'"
proof (induction es arbitrary: cells evs)
  case (Cons e es)
  obtain c1 ev where e: "event_to_py cells e = (c1, ev :: 'a py_event)" by fastforce
  from event_to_py_cells [OF Cons.prems(1) e] have "cells_ok c1" .
  with Cons e show ?case by (auto split: prod.splits)
qed simp

lemma rebuild_all:
  assumes "python_ok py" and "cells_ok later"
  shows "cells_ok cells \<Longrightarrow> list_all event_ok es \<Longrightarrow> events_to_py cells es = (cells', evs) \<Longrightarrow>
     list_all (\<lambda>ev. \<exists>ev'. rebuild py later ev = Inr ev' \<and> py_event_eq ev ev') evs"
proof (induction es arbitrary: cells evs)
  case (Cons e es)
  obtain c1 ev where e: "event_to_py cells e = (c1, ev :: 'a py_event)" by fastforce
  obtain c2 evs1 where es: "events_to_py c1 es = (c2, evs1 :: 'a py_event list)" by fastforce
  from event_to_py_cells [OF Cons.prems(1) e] have "cells_ok c1" .
  with Cons e es rebuild_made [OF assms(1) Cons.prems(1) assms(2) _ e] show ?case by auto
qed simp

section \<open>A sample interpreter\<close>

text \<open>Objects of a few types, which show that \<open>python_ok\<close> can hold.\<close>

datatype sample_object =
    SBytes bytes
  | SByteArray bytes
  | SStr bytes
  | SInt "16 word"
  | SBool bool
  | STuple "sample_object list"
  | SList "sample_object list"
  | SHeaders Headers

definition not_supported :: "'a py_result" where
  "not_supported = Inl (PyTypeError ''unsupported operand'')"

definition sample_python :: "sample_object python" where
  "sample_python =
     \<lparr>cast_exact_bytes = (\<lambda>v. case v of SBytes b \<Rightarrow> Some b | _ \<Rightarrow> None),
      cast_bytes = (\<lambda>v. case v of SBytes b \<Rightarrow> Some b | _ \<Rightarrow> None),
      cast_string = (\<lambda>v. case v of SStr s \<Rightarrow> Some \<lparr>to_str = Inr s, to_string_lossy = s\<rparr> | _ \<Rightarrow> None),
      get_untyped_buffer = (\<lambda>v. case v of SBytes _ \<Rightarrow> Inr () | SByteArray _ \<Rightarrow> Inr () | _ \<Rightarrow> not_supported),
      as_typed_u8 = (\<lambda>v. case v of SBytes b \<Rightarrow> Some (Inr b) | SByteArray b \<Rightarrow> Some (Inr b) | _ \<Rightarrow> None),
      memory_view_from = (\<lambda>v. case v of
          SBytes b \<Rightarrow> Inr \<lparr>mv_contiguous = Inr True, mv_nbytes = Inr (length b), mv_tobytes = Inr b\<rparr>
        | SByteArray b \<Rightarrow> Inr \<lparr>mv_contiguous = Inr True, mv_nbytes = Inr (length b), mv_tobytes = Inr b\<rparr>
        | _ \<Rightarrow> not_supported),
      getattr_nbytes = (\<lambda>v. Inl (PyAttributeError ''nbytes'')),
      extract_usize = (\<lambda>v. case v of SInt w \<Rightarrow> Inr (unat w) | _ \<Rightarrow> not_supported),
      extract_u16 = (\<lambda>v. case v of SInt w \<Rightarrow> Inr w | _ \<Rightarrow> not_supported),
      cast_headers = (\<lambda>v. case v of SHeaders h \<Rightarrow> Some h | _ \<Rightarrow> None),
      cast_exact_tuple = (\<lambda>v. case v of STuple xs \<Rightarrow> Some xs | _ \<Rightarrow> None),
      cast_tuple = (\<lambda>v. case v of STuple xs \<Rightarrow> Some xs | _ \<Rightarrow> None),
      py_len = (\<lambda>v. case v of
          SBytes b \<Rightarrow> Inr (length b) | SByteArray b \<Rightarrow> Inr (length b) | SStr s \<Rightarrow> Inr (length s)
        | STuple xs \<Rightarrow> Inr (length xs) | SList xs \<Rightarrow> Inr (length xs) | SHeaders h \<Rightarrow> Inr (headers_len h)
        | _ \<Rightarrow> not_supported),
      try_iter = (\<lambda>v. case v of STuple xs \<Rightarrow> Inr (map Inr xs) | SList xs \<Rightarrow> Inr (map Inr xs) | _ \<Rightarrow> not_supported),
      tuple_eq = (\<lambda>v w. Inr (v = w)),
      tuple_hash = (\<lambda>v. Inr (int (size v))),
      tuple_index = (\<lambda>v args. not_supported),
      tuple_count = (\<lambda>v w. not_supported),
      get_item = (\<lambda>v w. not_supported),
      py_repr = (\<lambda>v. Inr ''object''),
      int_object = SInt, bool_object = SBool, bytes_object = SBytes, tuple_object = STuple, list_object = SList,
      headers_object = SHeaders\<rparr>"

lemma sample_pairs_inj:
  "map (\<lambda>(n, v). STuple [SBytes n, SBytes v]) ps = map (\<lambda>(n, v). STuple [SBytes n, SBytes v]) qs \<longleftrightarrow> ps = qs"
proof -
  have "inj (\<lambda>(n, v). STuple [SBytes n, SBytes v])" by (auto simp: inj_def)
  then show ?thesis by (metis inj_map_eq_map)
qed

lemma sample_python_ok: "python_ok sample_python"
  by (auto simp: python_ok_def sample_python_def pairs_object_def sample_pairs_inj split: sample_object.splits)

section \<open>Properties\<close>

text \<open>
  C39: a Python event object can be rebuilt from its attributes. After any sequence of events,
  and so whatever \<open>bytes\<close> objects are shared by then, calling the class of each event on the
  event's own attributes succeeds and gives an equal event.
\<close>

theorem events_rebuild:
  assumes "python_ok py" and "list_all event_ok es" and "events_to_py cells_new es = (cells, evs)"
  shows "list_all (\<lambda>ev. \<exists>ev'. rebuild py cells ev = Inr ev' \<and> py_event_eq ev ev') evs"
  using rebuild_all [OF assms(1) events_to_py_cells [OF cells_ok_new assms(3)] cells_ok_new assms(2,3)] .

definition sample_events :: "Event list" where
  "sample_events =
     [EventRequest \<lparr>req_method = method_put, req_target = ''/'', req_headers = headers_from [(''Host'', ''x'')],
        req_version = Http11\<rparr>,
      EventData ''hello'' False False, EventEndOfMessage headers_new]"

theorem events_rebuild_witness:
  "list_all (\<lambda>ev. \<exists>ev'. rebuild sample_python (fst (events_to_py cells_new sample_events :: py_cells \<times> sample_object py_event list)) ev
      = Inr ev' \<and> py_event_eq ev ev') (snd (events_to_py cells_new sample_events))"
proof -
  have "list_all event_ok sample_events" by code_simp
  from events_rebuild [OF sample_python_ok this prod.collapse [symmetric]] show ?thesis .
qed

text \<open>
  C40: a \<open>Headers\<close> object is indistinguishable from the tuple of its pairs, whether or not the
  tuple has been built yet. It compares equal to another \<open>Headers\<close> exactly if it compares
  equal to that one's tuple, which is exactly if they have the same pairs; its hash is the
  hash of the tuple of its pairs; it reduces to that tuple; and what \<open>copy\<close> and \<open>pickle\<close> make of
  it, as long as the tuple fits into the address space, is an equal object.
\<close>

theorem headers_are_their_tuple:
  assumes "python_ok py" and "ph_inv py a" and "ph_inv py b"
  shows "snd (ph_eq py a (headers_object py (ph_fields b))) = snd (ph_eq py a (snd (ph_reduce py b)))
    \<and> (snd (ph_eq py a (headers_object py (ph_fields b))) = Inr (Some True)
         \<longleftrightarrow> headers_iter (ph_fields a) = headers_iter (ph_fields b))
    \<and> snd (ph_hash py a) = tuple_hash py (pairs_object py (headers_iter (ph_fields a)))
    \<and> snd (ph_reduce py a) = pairs_object py (headers_iter (ph_fields a))
    \<and> (length (headers_iter (ph_fields a)) < 2 ^ 57 \<longrightarrow>
         (\<exists>c. ph_new py (Some (snd (ph_reduce py a))) = Inr c \<and> ph_inv py c \<and> py_headers_eq a c))"
proof -
  note ok = python_okD [OF assms(1)]
  have red: "snd (ph_reduce py h) = pairs_object py (headers_iter (ph_fields h))" if "ph_inv py h" for h
    using that by (simp add: ph_reduce_def on_items_eq py_headers_def)
  have tuple: "cast_headers py (pairs_object py ps) = None" "cast_tuple py (pairs_object py ps) \<noteq> None" for ps
    using ok(2,5,6) by (auto simp: pairs_object_def)
  have eq_h: "snd (ph_eq py a (headers_object py (ph_fields b)))
      = Inr (Some (headers_iter (ph_fields a) = headers_iter (ph_fields b)))"
    by (simp add: ph_eq_def ok headers_eq_def)
  have eq_t: "snd (ph_eq py a (snd (ph_reduce py b)))
      = Inr (Some (headers_iter (ph_fields a) = headers_iter (ph_fields b)))"
    using assms tuple by (simp add: ph_eq_def red on_items_eq py_headers_def ok)
  have "snd (ph_hash py h) = tuple_hash py (pairs_object py (headers_iter (ph_fields h)))" if "ph_inv py h" for h
    using that by (simp add: ph_hash_def on_items_eq py_headers_def)
  moreover have "\<exists>c. ph_new py (Some (snd (ph_reduce py a))) = Inr c \<and> ph_inv py c \<and> py_headers_eq a c"
    if "length (headers_iter (ph_fields a)) < 2 ^ 57"
    using assms(2) by (simp add: red ph_new_def extract_made_pairs [OF assms(1) that] ph_inv_def py_headers_eq_def headers_eq_def)
  ultimately show ?thesis using eq_h eq_t red assms(2,3) by simp
qed

theorem headers_are_their_tuple_witness:
  "snd (ph_eq sample_python (new_py (headers_from [(''a'', ''b'')]))
     (headers_object sample_python (headers_from [(''a'', ''b'')]))) = Inr (Some True)
   \<and> snd (ph_hash sample_python (new_py (headers_from [(''a'', ''b'')])))
     = tuple_hash sample_python (STuple [STuple [SBytes ''a'', SBytes ''b'']])"
proof -
  let ?h = "headers_from [(''a'', ''b'')]"
  have "ph_inv sample_python (new_py ?h)" by (simp add: ph_inv_new)
  note all = headers_are_their_tuple [OF sample_python_ok this this]
  have f: "ph_fields (new_py ?h :: sample_object PyHeaders) = ?h" by (simp add: new_py_def)
  have p: "pairs_object sample_python (headers_iter ?h) = STuple [STuple [SBytes ''a'', SBytes ''b'']]" by code_simp
  from all have "snd (ph_eq sample_python (new_py ?h) (headers_object sample_python ?h)) = Inr (Some True)" unfolding f by blast
  moreover from all have "snd (ph_hash sample_python (new_py ?h)) = tuple_hash sample_python (pairs_object sample_python (headers_iter ?h))"
    unfolding f by blast
  ultimately show ?thesis unfolding p by blast
qed

end
