(* ===== verification/H11r_Receive.thy ===== *)
theory H11r_Receive
  imports H11r_Connection
begin

text \<open>
  Reading peer bytes into events (\<open>connection/receive.rs\<close>).

  \<open>read_chunked\<close> ends some branches in a call of \<open>next_event_inner\<close>; it returns \<open>None\<close> there,
  and \<open>next_event_inner\<close> makes the call. Each such turn consumes input, so the loop ends.
\<close>

type_synonym polled_result = "recv_error + Polled"

section \<open>Receiving bytes\<close>

definition record_eof :: "Connection \<Rightarrow> Connection" where
  "record_eof c =
     (let c1 = c\<lparr>eof := True\<rparr> in if role c1 = Client then conn_disable_keep_alive c1 else c1)"

definition receive_data :: "Connection \<Rightarrow> bytes \<Rightarrow> Connection \<times> (LocalProtocolError + unit)" where
  "receive_data c d =
     (if eof c \<and> d \<noteq> [] then (c, Inl (local ''receive_data called after EOF''))
      else if d = [] then (record_eof c, Inr ())
      else (c\<lparr>conn_input := buffer_extend (conn_input c) d\<rparr>, Inr ()))"

definition payload_remaining :: "Connection \<Rightarrow> nat option" where
  "payload_remaining c =
     (if peer_state c \<noteq> SendBody then None
      else case cyc_reader (cycle c) of
             ReadFixed n \<Rightarrow> if n > 0 then Some n else None
           | ReadChunked (ChunkData n _) \<Rightarrow> Some n
           | ReadCloseDelimited \<Rightarrow> Some usize_max
           | _ \<Rightarrow> None)"

text \<open>
  \<open>None\<close> is an overflow of \<open>self.held + count\<close>: a panic where arithmetic is checked. It is not
  reached by a caller that keeps the bytes it counts.
\<close>

definition hold_body_data :: "Connection \<Rightarrow> nat \<Rightarrow> Connection \<times> bool option" where
  "hold_body_data c cnt =
     (if cnt \<noteq> 0 \<and> \<not> eof c \<and> input_bytes c = [] then
        (case payload_remaining c of
           None \<Rightarrow> (c, Some False)
         | Some remaining \<Rightarrow>
             (case checked_add (held c) cnt of
                None \<Rightarrow> (c, None)
              | Some both \<Rightarrow>
                  if both \<le> remaining then (c\<lparr>held := both\<rparr>, Some True) else (c, Some False)))
      else (c, Some False))"

definition held_body_len :: "Connection \<Rightarrow> nat" where
  "held_body_len c = held c"

section \<open>Ends of messages and waiting\<close>

definition need_data_or_eof :: "Connection \<Rightarrow> string \<Rightarrow> Connection \<times> polled_result" where
  "need_data_or_eof c m =
     (c, if eof c then Inl (Remote (remote m (Some 400))) else Inr PolledNeedData)"

definition set_reader :: "Connection \<Rightarrow> Reader \<Rightarrow> Connection" where
  "set_reader c r = c\<lparr>cycle := (cycle c)\<lparr>cyc_reader := r\<rparr>\<rparr>"

definition set_progress :: "Connection \<Rightarrow> SectionProgress \<Rightarrow> Connection" where
  "set_progress c p = c\<lparr>cycle := (cycle c)\<lparr>progress := p\<rparr>\<rparr>"

definition consume_input :: "Connection \<Rightarrow> nat \<Rightarrow> Connection" where
  "consume_input c n = c\<lparr>conn_input := consume (conn_input c) n\<rparr>"

definition finish_peer :: "Connection \<Rightarrow> Headers \<Rightarrow> Connection \<times> polled_result" where
  "finish_peer c trailers =
     (case advance_peer c EndOfMessage of
        (c1, Inl e) \<Rightarrow> (c1, Inl (Remote e))
      | (c1, Inr _) \<Rightarrow> (set_reader c1 ReadHead, Inr (PolledEvent (EventEndOfMessage trailers))))"

definition peer_closed :: "Connection \<Rightarrow> Connection \<times> polled_result" where
  "peer_closed c =
     (case advance_peer c ConnectionClosed of
        (c1, Inl e) \<Rightarrow> (c1, Inl (Remote e))
      | (c1, Inr _) \<Rightarrow> (c1, Inr (PolledEvent EventConnectionClosed)))"

section \<open>Body data\<close>

definition advance_payload :: "Connection \<Rightarrow> nat \<Rightarrow> Connection \<times> nat \<times> bool \<times> bool" where
  "advance_payload c available =
     (case cyc_reader (cycle c) of
        ReadFixed n \<Rightarrow>
          (let cnt = min n available
           in (set_reader c (ReadFixed (n - cnt)), cnt, False, False))
      | ReadChunked (ChunkData n fst_piece) \<Rightarrow>
          (let cnt = min n available; lst = (cnt = n)
           in (set_reader c (ReadChunked (if lst then DataEnd else ChunkData (n - cnt) False)),
               cnt, fst_piece, lst))
      | _ \<Rightarrow> (c, available, False, False))"

definition peer_data :: "Connection \<Rightarrow> nat \<Rightarrow> bool \<Rightarrow> bool \<Rightarrow> Connection \<times> polled_result" where
  "peer_data c cnt chunk_start chunk_end =
     (case advance_peer c Data of
        (c1, Inl e) \<Rightarrow> (c1, Inl (Remote e))
      | (c1, Inr _) \<Rightarrow>
          (c1\<lparr>cycle := (cycle c1)\<lparr>waiting_for_continue := False\<rparr>\<rparr>,
           Inr (PolledData cnt chunk_start chunk_end)))"

definition read_payload :: "Connection \<Rightarrow> string \<Rightarrow> Connection \<times> polled_result" where
  "read_payload c eof_message =
     (let available = length (input_bytes c)
      in if available = 0 then need_data_or_eof c eof_message
         else case advance_payload c available of
                (c1, cnt, chunk_start, chunk_end) \<Rightarrow> peer_data c1 cnt chunk_start chunk_end)"

definition next_event_in_place :: "Connection \<Rightarrow> nat \<Rightarrow> Connection \<times> (LocalProtocolError + bool \<times> bool)" where
  "next_event_in_place c cnt =
     (if cnt = 0 \<or> cnt > held c then (c, Inl (local ''count does not match held body bytes''))
      else case advance_payload c cnt of
             (c1, _, chunk_start, chunk_end) \<Rightarrow>
               (case peer_data c1 cnt chunk_start chunk_end of
                  (c2, Inl _) \<Rightarrow> (c2, Inl (local ''held body bytes are invalid in the peer state''))
                | (c2, Inr _) \<Rightarrow> (c2\<lparr>held := held c2 - cnt\<rparr>, Inr (chunk_start, chunk_end))))"

section \<open>Field sections\<close>

definition section_due :: "Connection \<Rightarrow> bool \<Rightarrow> Connection \<times> bool" where
  "section_due c skip_leading_empty =
     (if eof c \<or> length (input_bytes c) > max_head_bytes (limits c) then (c, True)
      else case due (progress (cycle c)) (input_bytes c) skip_leading_empty of
             (d, p) \<Rightarrow> (set_progress c p, d))"

definition head_section :: "Connection \<Rightarrow> bytes" where
  "head_section c =
     (let d = input_bytes c in take (min (length d) (max_head_bytes (limits c))) d)"

definition wait_for_section :: "Connection \<Rightarrow> bool \<Rightarrow> Connection \<times> polled_result" where
  "wait_for_section c skip_leading_empty =
     (if length (input_bytes c) \<le> max_head_bytes (limits c) then
        need_data_or_eof c
          (if skip_leading_empty then ''unexpected EOF in HTTP head'' else ''unexpected EOF in trailers'')
      else if \<not> skip_leading_empty then
        (c, Inl (Remote (remote ''HTTP trailers exceed max_head_bytes'' (Some 400))))
      else
        (let status = (if start_line_unfinished (head_section c) then 414 else 431)
         in (c, Inl (Remote (remote ''HTTP head exceeds max_head_bytes''
                (if role c = Server then Some status else None))))))"

section \<open>Accepting heads\<close>

definition accept_request :: "Connection \<Rightarrow> Request \<Rightarrow> Connection \<times> polled_result" where
  "accept_request c r =
     (let version = req_version r in
      if \<not> valid_request_target (as_bytes (req_method r)) (req_target r) then
        (c, Inl (Remote (remote ''invalid request target'' (Some 400))))
      else
        (let f = scan (req_headers r) in
         if \<not> valid_host f version then
           (c, Inl (Remote (remote ''request has a missing, duplicate, or invalid Host field'' (Some 400))))
         else
           (case framing f version False of
              Inl e \<Rightarrow> (c, Inl (Remote e))
            | Inr body_framing \<Rightarrow>
                if content_forbidden (req_method r) body_framing then
                  (c, Inl (Remote (remote ''CONNECT and TRACE requests cannot carry content'' (Some 400))))
                else
                  (let upgrades = (if version = Http11 \<and> fld_upgrade f
                         then (case upgrade_protocols (req_headers r) of None \<Rightarrow> [] | Some u \<Rightarrow> u) else [])
                   in case advance_peer c (request_event (req_method r) upgrades) of
                        (c1, Inl e) \<Rightarrow> (c1, Inl (Remote e))
                      | (c1, Inr _) \<Rightarrow>
                          (let c2 = record_request c1 (req_method r) version f body_framing upgrades;
                               c3 = c2\<lparr>peer_version := Some version\<rparr>
                           in (set_reader c3 (reader body_framing), Inr (PolledEvent (EventRequest r))))))))"

definition accept_informational :: "Connection \<Rightarrow> Response \<Rightarrow> bool \<Rightarrow> Connection \<times> polled_result" where
  "accept_informational c r framing_is_err =
     (case informational_event c (resp_status r) (resp_version r) (resp_headers r) of
        None \<Rightarrow> (c, Inl (Remote (remote ''invalid 101 Upgrade response'' None)))
      | Some event \<Rightarrow>
          (case advance_peer c event of
             (c1, Inl e) \<Rightarrow> (c1, Inl (Remote e))
           | (c1, Inr _) \<Rightarrow>
               (let c2 = (if framing_is_err then conn_disable_keep_alive c1 else c1);
                    c3 = record_informational c2 (resp_status r)
                in (c3\<lparr>peer_version := Some (resp_version r)\<rparr>, Inr (PolledEvent (EventInformationalResponse r))))))"

definition accept_final :: "Connection \<Rightarrow> Response \<Rightarrow> Fields \<Rightarrow> RemoteProtocolError + Framing \<Rightarrow>
    Connection \<times> polled_result" where
  "accept_final c r f declared =
     (case advance_peer c (final_response_event c (resp_status r)) of
        (c1, Inl e) \<Rightarrow> (c1, Inl (Remote e))
      | (c1, Inr _) \<Rightarrow>
          (let c2 = (if \<not> persistent f (resp_version r) then conn_disable_keep_alive c1 else c1);
               c3 = (record_response c2)\<lparr>peer_version := Some (resp_version r)\<rparr>
           in case (if response_has_no_body c3 (resp_status r)
                    then (case declared of
                            Inl _ \<Rightarrow> (conn_disable_keep_alive c3, Inr (Fixed 0))
                          | Inr _ \<Rightarrow> (c3, Inr (Fixed 0)))
                    else (c3, declared)) of
                (c4, Inl e) \<Rightarrow> (c4, Inl (Remote e))
              | (c4, Inr body_framing) \<Rightarrow>
                  (let c5 = (if body_framing = CloseDelimited then conn_disable_keep_alive c4 else c4)
                   in (set_reader c5 (reader body_framing), Inr (PolledEvent (EventResponse r))))))"

definition accept_response :: "Connection \<Rightarrow> Response \<Rightarrow> Connection \<times> polled_result" where
  "accept_response c r =
     (if local_state c = Idle then
        (c, Inl (Remote (remote ''response received without an outstanding request'' None)))
      else
        (let f = scan (resp_headers r);
             declared = framing f (resp_version r) True
         in if is_informational (resp_status r)
            then accept_informational c r (case declared of Inl _ \<Rightarrow> True | Inr _ \<Rightarrow> False)
            else accept_final c r f declared))"

definition read_head :: "httparse \<Rightarrow> Connection \<Rightarrow> Connection \<times> polled_result" where
  "read_head hp c0 =
     (case section_due c0 True of (c, is_due) \<Rightarrow>
        if \<not> is_due then wait_for_section c True
        else
          (let max_headers = max_header_count (limits c) in
           if role c = Server then
             (case parse_request_head hp (head_section c) max_headers of
                Inl e \<Rightarrow> (c, Inl e)
              | Inr None \<Rightarrow> wait_for_section c True
              | Inr (Some (ended, request)) \<Rightarrow>
                  accept_request (set_progress (consume_input c ended) progress_default) request)
           else
             (case parse_response_head hp (head_section c) max_headers (lenient c) of
                Inl e \<Rightarrow> (c, Inl e)
              | Inr None \<Rightarrow> wait_for_section c True
              | Inr (Some (ended, response, dropped)) \<Rightarrow>
                  (let c1 = (if dropped then conn_disable_keep_alive c else c)
                   in accept_response (set_progress (consume_input c1 ended) progress_default) response))))"

section \<open>Chunked bodies\<close>

text \<open>The result of a chunk step: \<open>None\<close> stands for the call of \<open>next_event_inner\<close>.\<close>

definition read_chunk_size :: "Connection \<Rightarrow> nat \<Rightarrow> Connection \<times> polled_result option" where
  "read_chunk_size c scanned =
     (let too_long = (\<lambda>m. Some (Inl (Remote (remote m (if role c = Server then Some 400 else None))))) in
      case find_crlf (input_bytes c) scanned of
        None \<Rightarrow> (c, Some (Inl Panic))
      | Some None \<Rightarrow>
          (if incomplete_line_len (input_bytes c) > max_head_bytes (limits c)
           then (c, too_long ''chunk line exceeds max_head_bytes'')
           else
             (let c1 = set_reader c (ReadChunked (Size (length (input_bytes c) - 1)))
              in case need_data_or_eof c1 ''unexpected EOF in chunk size'' of (c2, r) \<Rightarrow> (c2, Some r)))
      | Some (Some ended) \<Rightarrow>
          (if ended - 2 > max_head_bytes (limits c)
           then (c, too_long ''chunk line exceeds max_head_bytes'')
           else
             (let line = take (ended - 2) (input_bytes c)
              in case parse_chunk_header line of
                   None \<Rightarrow> (c, Some (Inl (Remote (remote ''invalid chunk size'' (Some 400)))))
                 | Some n \<Rightarrow>
                     (let c1 = c\<lparr>cycle := (cycle c)\<lparr>chunk_extension_bytes :=
                             chunk_extension_bytes (cycle c) + (length line - chunk_digits line)\<rparr>\<rparr>
                      in if chunk_extension_bytes (cycle c1) > max_head_bytes (limits c1)
                         then (c1, too_long ''chunk extensions exceed max_head_bytes'')
                         else
                           (let c2 = consume_input c1 ended
                            in if n = 0
                               then (set_progress (set_reader c2 (ReadChunked Trailers)) progress_default, None)
                               else (set_reader c2 (ReadChunked (ChunkData n True)), None))))))"

definition read_data_end :: "Connection \<Rightarrow> Connection \<times> polled_result option" where
  "read_data_end c =
     (if length (input_bytes c) < 2 then
        (case need_data_or_eof c ''unexpected EOF after chunk data'' of (c1, r) \<Rightarrow> (c1, Some r))
      else if take 2 (input_bytes c) \<noteq> CRLF then
        (c, Some (Inl (Remote (remote ''chunk data is not followed by CRLF'' (Some 400)))))
      else (set_reader (consume_input c 2) (ReadChunked (Size 0)), None))"

definition read_trailers :: "httparse \<Rightarrow> Connection \<Rightarrow> Connection \<times> polled_result" where
  "read_trailers hp c0 =
     (case section_due c0 False of (c, is_due) \<Rightarrow>
        if \<not> is_due then wait_for_section c False
        else
          (case parse_trailers hp (head_section c) (max_header_count (limits c)) (role c = Client) of
             Inl e \<Rightarrow> (c, Inl e)
           | Inr None \<Rightarrow> wait_for_section c False
           | Inr (Some (ended, trailers)) \<Rightarrow>
               finish_peer (set_progress (consume_input c ended) progress_default) trailers))"

definition read_chunked :: "httparse \<Rightarrow> Connection \<Rightarrow> Chunk \<Rightarrow> Connection \<times> polled_result option" where
  "read_chunked hp c chunk =
     (case chunk of
        Size scanned \<Rightarrow> read_chunk_size c scanned
      | ChunkData _ _ \<Rightarrow> (case read_payload c ''unexpected EOF in chunk data'' of (c1, r) \<Rightarrow> (c1, Some r))
      | DataEnd \<Rightarrow> read_data_end c
      | Trailers \<Rightarrow> (case read_trailers hp c of (c1, r) \<Rightarrow> (c1, Some r)))"

lemma input_consume [simp]: "input_bytes (consume_input c n) = drop n (input_bytes c)"
  by (simp add: consume_input_def)

lemma set_reader_input [simp]: "conn_input (set_reader c r) = conn_input c"
  by (simp add: set_reader_def)

lemma set_progress_input [simp]: "conn_input (set_progress c p) = conn_input c"
  by (simp add: set_progress_def)

lemma read_chunk_size_shrinks:
  assumes "read_chunk_size c scanned = (c', None)"
  shows "length (input_bytes c') < length (input_bytes c)"
proof -
  obtain ended where f: "find_crlf (input_bytes c) scanned = Some (Some ended)"
    using assms by (auto simp: read_chunk_size_def Let_def split: option.splits if_splits prod.splits)
  with find_crlf_bounds [OF f] assms show ?thesis
    by (auto simp: read_chunk_size_def Let_def consume_input_def split: option.splits if_splits)
qed

lemma read_data_end_shrinks:
  "read_data_end c = (c', None) \<Longrightarrow> length (input_bytes c') < length (input_bytes c)"
  by (auto simp: read_data_end_def split: if_splits prod.splits)

lemma read_chunked_shrinks:
  "read_chunked hp c chunk = (c', None) \<Longrightarrow> length (input_bytes c') < length (input_bytes c)"
  by (cases chunk)
     (auto simp: read_chunked_def dest: read_chunk_size_shrinks read_data_end_shrinks split: prod.splits)

section \<open>Polling events\<close>

definition read_body :: "httparse \<Rightarrow> Connection \<Rightarrow> Connection \<times> polled_result option" where
  "read_body hp c =
     (let stop = (\<lambda>(c1, r). (c1, Some r)) in
      case cyc_reader (cycle c) of
        ReadHead \<Rightarrow> stop (read_head hp c)
      | ReadFixed n \<Rightarrow>
          (if n = 0 then stop (finish_peer c headers_new)
           else stop (read_payload c ''unexpected EOF in Content-Length body''))
      | ReadCloseDelimited \<Rightarrow>
          (let cnt = length (input_bytes c)
           in if cnt > 0 then stop (peer_data c cnt False False)
              else if eof c then stop (finish_peer c headers_new)
              else (c, Some (Inr PolledNeedData)))
      | ReadChunked chunk \<Rightarrow> read_chunked hp c chunk)"

lemma read_body_shrinks:
  "read_body hp c = (c', None) \<Longrightarrow> length (input_bytes c') < length (input_bytes c)"
  by (auto simp: read_body_def Let_def dest: read_chunked_shrinks split: Reader.splits if_splits prod.splits)

text \<open>The first \<open>match\<close> of \<open>next_event_inner\<close>: an early return, or \<open>None\<close> to read on.\<close>

definition poll_peer_state :: "Connection \<Rightarrow> (Connection \<times> polled_result) option" where
  "poll_peer_state c =
     (case peer_state c of
        Closed \<Rightarrow> Some (c, Inr (PolledEvent EventConnectionClosed))
      | Idle \<Rightarrow>
          (if eof c \<and> length (input_bytes c) \<le> max_head_bytes (limits c) \<and> only_empty_lines (input_bytes c)
           then Some (peer_closed (consume_input c (length (input_bytes c))))
           else None)
      | MightSwitchProtocol \<Rightarrow> Some (c, Inr PolledPaused)
      | SwitchedProtocol \<Rightarrow> Some (c, Inr PolledPaused)
      | Done \<Rightarrow>
          (if input_bytes c \<noteq> [] then Some (c, Inr PolledPaused)
           else if eof c then Some (peer_closed c) else Some (c, Inr PolledNeedData))
      | MustClose \<Rightarrow>
          (if input_bytes c \<noteq> [] then Some (c, Inr PolledPaused)
           else if eof c then Some (peer_closed c) else Some (c, Inr PolledNeedData))
      | Error \<Rightarrow> Some (c, Inl (Remote (remote ''peer state is ERROR'' None)))
      | _ \<Rightarrow> None)"

function next_event_inner :: "httparse \<Rightarrow> Connection \<Rightarrow> Connection \<times> polled_result" where
  "next_event_inner hp c =
     (case poll_peer_state c of
        Some r \<Rightarrow> r
      | None \<Rightarrow>
          (case read_body hp c of
             (c1, Some r) \<Rightarrow> (c1, r)
           | (c1, None) \<Rightarrow> next_event_inner hp c1))"
  by pat_completeness auto
termination
  by (relation "measure (\<lambda>(hp, c). length (input_bytes c))") (auto dest: read_body_shrinks [OF sym])

declare next_event_inner.simps [simp del]

text \<open>An equation for evaluation, which decides on the result before it goes on.\<close>

lemma next_event_inner_code [code]:
  "next_event_inner hp c =
     (case poll_peer_state c of
        Some r \<Rightarrow> r
      | None \<Rightarrow>
          (let x = read_body hp c
           in case snd x of Some r \<Rightarrow> (fst x, r) | None \<Rightarrow> next_event_inner hp (fst x)))"
  by (subst next_event_inner.simps) (auto simp: Let_def split: option.splits prod.splits)

definition poison_peer :: "Connection \<Rightarrow> Connection" where
  "poison_peer c = c\<lparr>conn_state := process_error (conn_state c) (peer (role c))\<rparr>"

definition next_event :: "httparse \<Rightarrow> Connection \<Rightarrow> Connection \<times> (recv_error + NextEvent)" where
  "next_event hp c =
     (case next_event_inner hp c of
        (c1, Inl Panic) \<Rightarrow> (c1, Inl Panic)
      | (c1, Inl (Remote e)) \<Rightarrow>
          (let e1 = (if role c1 = Client then e\<lparr>suggested_status_code := None\<rparr> else e)
           in (poison_peer c1, Inl (Remote e1)))
      | (c1, Inr (PolledEvent ev)) \<Rightarrow> (c1, Inr (NextEvent ev))
      | (c1, Inr (PolledData cnt chunk_start chunk_end)) \<Rightarrow>
          (case buffer_take (conn_input c1) cnt of
             (d, b) \<Rightarrow> (c1\<lparr>conn_input := b\<rparr>, Inr (NextEvent (EventData d chunk_start chunk_end))))
      | (c1, Inr PolledNeedData) \<Rightarrow> (c1, Inr NeedData)
      | (c1, Inr PolledPaused) \<Rightarrow> (c1, Inr Paused))"

section \<open>Preservation of the invariant\<close>

text \<open>The slots for the fields of a section can be allocated.\<close>

definition roomy :: "Connection \<Rightarrow> bool" where
  "roomy c \<longleftrightarrow> slots_fit (max_header_count (limits c))"

text \<open>
  What every reading function promises of the connection it returns. The one panic left is that
  of the slots.
\<close>

definition poll_ok :: "Connection \<times> polled_result \<Rightarrow> bool" where
  "poll_ok res =
     (case res of (c, r) \<Rightarrow> conn_base c \<and>
        (case r of
           Inl Panic \<Rightarrow> conn_inv c \<and> \<not> roomy c
         | Inl (Remote e) \<Rightarrow> True
         | Inr (PolledData n _ _) \<Rightarrow>
             conn_inv c \<and> 0 < n \<and> n \<le> length (input_bytes c) \<and> (\<forall>k. reader_wf (cyc_reader (cycle c)) k)
         | Inr _ \<Rightarrow> conn_inv c))"

lemma poll_ok_simps [simp]:
  "poll_ok (c, Inl Panic) \<longleftrightarrow> conn_inv c \<and> \<not> roomy c"
  "poll_ok (c, Inl (Remote e)) = conn_base c"
  "poll_ok (c, Inr (PolledEvent ev)) = conn_inv c"
  "poll_ok (c, Inr PolledNeedData) = conn_inv c"
  "poll_ok (c, Inr PolledPaused) = conn_inv c"
  "poll_ok (c, Inr (PolledData n cs ce)) \<longleftrightarrow>
     conn_inv c \<and> 0 < n \<and> n \<le> length (input_bytes c) \<and> (\<forall>k. reader_wf (cyc_reader (cycle c)) k)"
  by (auto simp: poll_ok_def conn_inv_def)

lemma conn_inv_base: "conn_inv c \<Longrightarrow> conn_base c"
  by (simp add: conn_inv_def)

lemma conn_base_set_reader: "conn_base c \<Longrightarrow> reader_wf rd (length (input_bytes c)) \<Longrightarrow> conn_base (set_reader c rd)"
  by (simp add: conn_base_def set_reader_def local_state_def)

lemma conn_base_set_progress: "conn_base c \<Longrightarrow> progress_inv p \<Longrightarrow> conn_base (set_progress c p)"
  by (simp add: conn_base_def set_progress_def local_state_def)

lemma conn_base_consume:
  "conn_base c \<Longrightarrow> n \<le> length (input_bytes c) \<Longrightarrow> reader_wf (cyc_reader (cycle c)) (length (input_bytes c) - n) \<Longrightarrow>
   conn_base (consume_input c n)"
  by (simp add: conn_base_def consume_input_def local_state_def)

lemma fields_simps [simp]:
  "peer_state (set_reader c rd) = peer_state c" "cyc_reader (cycle (set_reader c rd)) = rd"
  "role (set_reader c rd) = role c" "conn_state (set_reader c rd) = conn_state c"
  "peer_state (set_progress c p) = peer_state c" "cyc_reader (cycle (set_progress c p)) = cyc_reader (cycle c)"
  "role (set_progress c p) = role c" "conn_state (set_progress c p) = conn_state c"
  "limits (set_progress c p) = limits c"
  "peer_state (consume_input c n) = peer_state c" "cycle (consume_input c n) = cycle c"
  "role (consume_input c n) = role c" "conn_state (consume_input c n) = conn_state c"
  by (simp_all add: set_reader_def set_progress_def consume_input_def peer_state_def)

lemma reader_wf_reader [simp]: "reader_wf (reader b) k" "reader b \<noteq> ReadHead"
  by (cases b; simp add: reader_def reader_wf_def)+

lemma reader_wf_simps [simp]:
  "reader_wf ReadHead k" "reader_wf (ReadFixed n) k" "reader_wf ReadCloseDelimited k"
  "reader_wf (ReadChunked DataEnd) k" "reader_wf (ReadChunked Trailers) k"
  "reader_wf (ReadChunked (Size i)) k \<longleftrightarrow> i \<le> k" "reader_wf (ReadChunked (ChunkData n b)) k \<longleftrightarrow> 0 < n"
  by (simp_all add: reader_wf_def)

lemma need_data_ok: "conn_inv c \<Longrightarrow> poll_ok (need_data_or_eof c m)"
  by (simp add: need_data_or_eof_def conn_inv_base)

lemma finish_peer_ok:
  assumes "conn_base c"
  shows "poll_ok (finish_peer c h)"
proof -
  obtain c' r where a: "advance_peer c EndOfMessage = (c', r)" by fastforce
  have base: "conn_base c'" using advance_peer_base [OF assms a] .
  show ?thesis
  proof (rule advance_peer_cases [OF a])
    fix s assume s: "r = Inr ()" "process_event (conn_state c) (peer (role c)) EndOfMessage = Inr s"
      "c' = c\<lparr>conn_state := s\<rparr>"
    have "role_state s (peer (role c)) \<noteq> SendBody"
      using s(2) by (cases "role c") (auto simp: process_event_end_of_message settle_simps)
    then have "reader_phase ReadHead (peer_state c')" using s(3) by (simp add: reader_phase_def peer_state_def)
    with base show ?thesis
      using s a by (simp add: finish_peer_def conn_inv_def conn_base_set_reader)
  qed (use base a in \<open>simp add: finish_peer_def\<close>)
qed

lemma peer_closed_ok:
  assumes "conn_base c" and "cyc_reader (cycle c) = ReadHead"
  shows "poll_ok (peer_closed c)"
proof -
  obtain c' r where a: "advance_peer c ConnectionClosed = (c', r)" by fastforce
  have base: "conn_base c'" using advance_peer_base [OF assms(1) a] .
  show ?thesis
  proof (rule advance_peer_cases [OF a])
    fix s assume s: "r = Inr ()" "process_event (conn_state c) (peer (role c)) ConnectionClosed = Inr s"
      "c' = c\<lparr>conn_state := s\<rparr>"
    have "role_state s (peer (role c)) \<noteq> SendBody"
      using s(2) by (cases "role c") (auto simp: process_event_closed settle_simps)
    then have "reader_phase (cyc_reader (cycle c')) (peer_state c')"
      using s(3) assms(2) by (simp add: reader_phase_def peer_state_def)
    with base show ?thesis using s a by (simp add: peer_closed_def conn_inv_def)
  qed (use base a in \<open>simp add: peer_closed_def\<close>)
qed

lemma peer_data_ok:
  assumes "conn_base c" and "cyc_reader (cycle c) \<noteq> ReadHead" and "0 < n" and "n \<le> length (input_bytes c)"
    and "\<forall>k. reader_wf (cyc_reader (cycle c)) k"
  shows "poll_ok (peer_data c n b e)"
proof -
  obtain c' r where a: "advance_peer c Data = (c', r)" by fastforce
  show ?thesis
  proof (rule advance_peer_cases [OF a])
    fix s assume s: "r = Inr ()" "process_event (conn_state c) (peer (role c)) Data = Inr s"
      "c' = c\<lparr>conn_state := s\<rparr>"
    then have "s = conn_state c" "peer_state c = SendBody" by (auto simp: process_event_data peer_state_def)
    with assms s a show ?thesis
      by (simp add: peer_data_def conn_inv_def conn_base_def local_state_def peer_state_def reader_phase_def)
  qed (use assms(1) a in \<open>simp add: peer_data_def\<close>)
qed

lemma advance_payload_ok:
  assumes "conn_base c" and "cyc_reader (cycle c) \<noteq> ReadHead" and "0 < available"
    and "advance_payload c available = (c', n, b, e)" and "\<forall>i. cyc_reader (cycle c) \<noteq> ReadChunked (Size i)"
  shows "conn_base c' \<and> conn_input c' = conn_input c \<and> cyc_reader (cycle c') \<noteq> ReadHead \<and> n \<le> available
    \<and> (\<forall>k. reader_wf (cyc_reader (cycle c')) k) \<and> role c' = role c \<and> held c' = held c \<and> conn_state c' = conn_state c
    \<and> (cyc_reader (cycle c) \<noteq> ReadFixed 0 \<longrightarrow> 0 < n)"
proof (cases "cyc_reader (cycle c)")
  case (ReadFixed m)
  with assms show ?thesis by (auto simp: advance_payload_def Let_def conn_base_set_reader) (simp_all add: set_reader_def)
next
  case (ReadChunked ch)
  with assms show ?thesis
  proof (cases ch)
    case (ChunkData m f)
    moreover have "0 < m" using assms(1) ReadChunked ChunkData by (simp add: conn_base_def)
    ultimately show ?thesis
      using assms ReadChunked
      by (auto simp: advance_payload_def Let_def conn_base_set_reader) (simp_all add: set_reader_def)
  qed (auto simp: advance_payload_def)
qed (use assms in \<open>auto simp: advance_payload_def\<close>)

lemma read_payload_ok:
  assumes "conn_inv c" and "cyc_reader (cycle c) \<notin> {ReadHead, ReadFixed 0}"
    and "\<forall>i. cyc_reader (cycle c) \<noteq> ReadChunked (Size i)"
  shows "poll_ok (read_payload c m)"
proof (cases "input_bytes c = []")
  case True
  with need_data_ok [OF assms(1)] show ?thesis by (simp add: read_payload_def)
next
  case False
  obtain c' n b e where a: "advance_payload c (length (input_bytes c)) = (c', n, b, e)"
    by (cases "advance_payload c (length (input_bytes c))")
  from advance_payload_ok [OF conn_inv_base [OF assms(1)] _ _ a assms(3)] assms(2) False
  have ok: "conn_base c' \<and> conn_input c' = conn_input c \<and> cyc_reader (cycle c') \<noteq> ReadHead
    \<and> n \<le> length (input_bytes c) \<and> (\<forall>k. reader_wf (cyc_reader (cycle c')) k) \<and> 0 < n" by simp
  with peer_data_ok [of c' n b e] a False show ?thesis by (simp add: read_payload_def)
qed

lemma due_inv: "progress_inv p \<Longrightarrow> progress_inv (snd (due p d skip))"
  using poll_inv [of p d skip]
  by (auto simp: due_def Let_def progress_inv_def split: prod.splits if_splits)

lemma section_due_ok:
  assumes "conn_inv c" and "section_due c skip = (c', b)"
  shows "conn_inv c' \<and> conn_input c' = conn_input c \<and> role c' = role c \<and> limits c' = limits c
    \<and> cyc_reader (cycle c') = cyc_reader (cycle c) \<and> conn_state c' = conn_state c"
proof -
  have "progress_inv (snd (due (progress (cycle c)) (input_bytes c) skip))"
    using assms(1) by (intro due_inv) (simp add: conn_inv_def conn_base_def)
  with assms show ?thesis
    by (auto simp: section_due_def conn_inv_def conn_base_set_progress split: if_splits prod.splits)
qed

lemma wait_for_section_ok: "conn_inv c \<Longrightarrow> poll_ok (wait_for_section c skip)"
  by (simp add: wait_for_section_def need_data_ok conn_inv_base Let_def)

lemma head_section_length: "length (head_section c) \<le> length (input_bytes c)"
  by (simp add: head_section_def Let_def)

lemma record_request_ok:
  "conn_base c \<Longrightarrow> conn_base (record_request c m v f b u)
     \<and> conn_input (record_request c m v f b u) = conn_input c
     \<and> phase_kept r (conn_state c) (conn_state (record_request c m v f b u))
     \<and> role (record_request c m v f b u) = role c"
  using conn_base_disable [of c] phase_kept_disable [of r "conn_state c"]
  by (auto simp: record_request_def Let_def conn_base_def local_state_def conn_disable_keep_alive_def phase_kept_def)

lemma accept_request_ok:
  assumes "conn_base c" and "cyc_reader (cycle c) = ReadHead"
  shows "poll_ok (accept_request c r)"
proof -
  have *: "poll_ok (case advance_peer c (request_event (req_method r) u) of
      (c1, Inl e) \<Rightarrow> (c1, Inl (Remote e))
    | (c1, Inr _) \<Rightarrow> (set_reader ((record_request c1 (req_method r) v f b u)\<lparr>peer_version := Some v\<rparr>) (reader b),
        Inr (PolledEvent (EventRequest r))))" for u v f b
  proof -
    obtain c' x where a: "advance_peer c (request_event (req_method r) u) = (c', x)" by fastforce
    have base: "conn_base c'" using advance_peer_base [OF assms(1) a] .
    show ?thesis
    proof (rule advance_peer_cases [OF a])
      fix s assume s: "x = Inr ()" "process_event (conn_state c) (peer (role c)) (request_event (req_method r) u) = Inr s"
        "c' = c\<lparr>conn_state := s\<rparr>"
      let ?c = "(record_request c' (req_method r) v f b u)\<lparr>peer_version := Some v\<rparr>"
      have "role_state s (peer (role c)) = SendBody"
        using s(2) by (cases "role c") (auto simp: request_event_def process_event_request settle_simps)
      then have "peer_state c' = SendBody" using s(3) by (simp add: peer_state_def)
      with record_request_ok [OF base, of "req_method r" v f b u "peer (role c')"]
      have "conn_base ?c" "peer_state ?c = SendBody"
        by (auto simp: conn_base_def local_state_def peer_state_def phase_kept_def)
      then show ?thesis
        using a s by (simp add: conn_inv_def reader_phase_def conn_base_set_reader)
    qed (use base a in simp)
  qed
  show ?thesis
    unfolding accept_request_def Let_def
    using assms(1) * by (simp split: sum.split)
qed

lemma record_informational_ok:
  "conn_inv c \<Longrightarrow> conn_inv ((record_informational c s)\<lparr>peer_version := v\<rparr>)"
  by (simp add: record_informational_def conn_inv_def conn_base_def local_state_def peer_state_def)

lemma accept_informational_ok:
  assumes "conn_base c" and "cyc_reader (cycle c) = ReadHead"
  shows "poll_ok (accept_informational c r bad)"
proof (cases "informational_event c (resp_status r) (resp_version r) (resp_headers r)")
  case None
  with assms show ?thesis by (simp add: accept_informational_def)
next
  case (Some event)
  obtain c' x where a: "advance_peer c event = (c', x)" by fastforce
  have base: "conn_base c'" using advance_peer_base [OF assms(1) a] .
  show ?thesis
  proof (rule advance_peer_cases [OF a])
    fix s assume s: "x = Inr ()" "process_event (conn_state c) (peer (role c)) event = Inr s"
      "c' = c\<lparr>conn_state := s\<rparr>"
    have "event = InformationalResponse \<or> event = ProtocolSwitch Upgrade"
      using Some by (auto simp: informational_event_def split: if_splits)
    with s(2) have "role_state s (peer (role c)) \<noteq> SendBody"
      by (cases "role c") (auto simp: process_event_eqs)
    then have "conn_inv c'"
      using base s(3) assms(2) by (simp add: conn_inv_def reader_phase_def peer_state_def)
    then show ?thesis
      using a s Some conn_inv_disable [of c'] record_informational_ok
      by (simp add: accept_informational_def Let_def)
  qed (use base a Some in \<open>simp add: accept_informational_def\<close>)
qed

lemma record_response_ok: "conn_base c \<Longrightarrow> conn_base ((record_response c)\<lparr>peer_version := v\<rparr>)"
  by (simp add: record_response_def conn_base_def local_state_def)

lemma peer_state_disable:
  "peer_state (conn_disable_keep_alive c) = SendBody \<longleftrightarrow> peer_state c = SendBody"
  "peer_state c = SwitchedProtocol \<Longrightarrow> peer_state (conn_disable_keep_alive c) = SwitchedProtocol"
  using phase_kept_disable [of "peer (role c)" "conn_state c"]
  by (auto simp: peer_state_def conn_disable_keep_alive_def phase_kept_def)

definition taken :: "Connection \<Rightarrow> bool" where
  "taken c \<longleftrightarrow> peer_state c \<in> {SendBody, SwitchedProtocol}"

lemma taken_disable: "taken c \<Longrightarrow> taken (conn_disable_keep_alive c)"
  using peer_state_disable by (auto simp: taken_def)

lemma accept_final_ok:
  assumes "conn_base c"
  shows "poll_ok (accept_final c r f declared)"
proof -
  obtain c' x where a: "advance_peer c (final_response_event c (resp_status r)) = (c', x)" by fastforce
  have base: "conn_base c'" using advance_peer_base [OF assms a] .
  show ?thesis
  proof (rule advance_peer_cases [OF a])
    fix s assume s: "x = Inr ()" "process_event (conn_state c) (peer (role c)) (final_response_event c (resp_status r)) = Inr s"
      "c' = c\<lparr>conn_state := s\<rparr>"
    define c2 where "c2 = (if \<not> persistent f (resp_version r) then conn_disable_keep_alive c' else c')"
    define c3 where "c3 = (record_response c2)\<lparr>peer_version := Some (resp_version r)\<rparr>"
    have "role_state s (peer (role c)) \<in> {SendBody, SwitchedProtocol}"
      using s(2) by (cases "role c") (auto simp: final_response_event_def process_event_eqs split: if_splits)
    then have "taken c'" using s(3) by (simp add: taken_def peer_state_def)
    then have "taken c2" "conn_base c2" using base taken_disable conn_base_disable by (auto simp: c2_def)
    then have c3: "taken c3" "conn_base c3"
      using record_response_ok by (auto simp: c3_def taken_def peer_state_def record_response_def)
    have fin: "conn_inv (set_reader c4 (reader bf))" if "taken c4" "conn_base c4" for c4 bf
      using that by (auto simp: conn_inv_def reader_phase_def conn_base_set_reader taken_def)
    have "accept_final c r f declared =
        (case (if response_has_no_body c3 (resp_status r)
               then (case declared of
                       Inl _ \<Rightarrow> (conn_disable_keep_alive c3, Inr (Fixed 0))
                     | Inr _ \<Rightarrow> (c3, Inr (Fixed 0)))
               else (c3, declared)) of
           (c4, Inl e) \<Rightarrow> (c4, Inl (Remote e))
         | (c4, Inr b) \<Rightarrow> (set_reader (if b = CloseDelimited then conn_disable_keep_alive c4 else c4) (reader b),
             Inr (PolledEvent (EventResponse r))))"
      unfolding accept_final_def a s(1) c3_def c2_def Let_def by simp
    then show ?thesis
      by (cases declared) (simp_all add: c3 fin taken_disable conn_base_disable)
  qed (use base a in \<open>simp add: accept_final_def\<close>)
qed

lemma accept_response_ok:
  "conn_base c \<Longrightarrow> cyc_reader (cycle c) = ReadHead \<Longrightarrow> poll_ok (accept_response c r)"
  by (simp add: accept_response_def Let_def accept_informational_ok accept_final_ok)

lemma conn_base_head_done:
  "conn_base c \<Longrightarrow> cyc_reader (cycle c) = ReadHead \<Longrightarrow> n \<le> length (input_bytes c) \<Longrightarrow>
   conn_base (set_progress (consume_input c n) progress_default)"
  by (simp add: conn_base_set_progress conn_base_consume)

lemma read_head_ok:
  assumes "httparse_ok hp" and "conn_inv c0" and "cyc_reader (cycle c0) = ReadHead"
  shows "poll_ok (read_head hp c0)"
proof -
  obtain c b where due: "section_due c0 True = (c, b)" by fastforce
  from section_due_ok [OF assms(2) due] assms(3)
  have c: "conn_inv c" "cyc_reader (cycle c) = ReadHead" by auto
  note wait = wait_for_section_ok [OF c(1), of True]
  note len = head_section_length [of c]
  let ?n = "max_header_count (limits c)"
  show ?thesis
  proof (cases "b \<and> role c = Server")
    case True
    have "poll_ok (case parse_request_head hp (head_section c) ?n of
          Inl e \<Rightarrow> (c, Inl e)
        | Inr None \<Rightarrow> wait_for_section c True
        | Inr (Some (ended, request)) \<Rightarrow>
            accept_request (set_progress (consume_input c ended) progress_default) request)"
    proof (cases "parse_request_head hp (head_section c) ?n")
      case (Inl e)
      have "\<not> roomy c" if "e = Panic"
        using Inl that iffD1 [OF parse_request_head_ok(1) [OF assms(1)]] by (auto simp: roomy_def)
      with Inl c(1) conn_inv_base [OF c(1)] show ?thesis by (cases e) auto
    next
      case (Inr p)
      show ?thesis
      proof (cases p)
        case (Some er)
        then obtain ended request where p: "p = Some (ended, request)" by (cases er) auto
        with Inr parse_request_head_ok(2) [OF assms(1)] len have "ended \<le> length (input_bytes c)" by fastforce
        with Inr p c show ?thesis by (simp add: accept_request_ok conn_base_head_done conn_inv_base)
      qed (use Inr wait in simp)
    qed
    with True show ?thesis unfolding read_head_def Let_def by (simp add: due)
  next
    case False
    have "poll_ok (case parse_response_head hp (head_section c) ?n (lenient c) of
          Inl e \<Rightarrow> (c, Inl e)
        | Inr None \<Rightarrow> wait_for_section c True
        | Inr (Some (ended, response, dropped)) \<Rightarrow>
            accept_response (set_progress (consume_input (if dropped then conn_disable_keep_alive c else c) ended)
              progress_default) response)"
    proof (cases "parse_response_head hp (head_section c) ?n (lenient c)")
      case (Inl e)
      have "\<not> roomy c" if "e = Panic"
        using Inl that iffD1 [OF parse_response_head_ok(1) [OF assms(1)]] by (auto simp: roomy_def)
      with Inl c(1) conn_inv_base [OF c(1)] show ?thesis by (cases e) auto
    next
      case (Inr p)
      show ?thesis
      proof (cases p)
        case (Some er)
        then obtain ended response dropped where p: "p = Some (ended, response, dropped)" by (cases er) auto
        with Inr parse_response_head_ok(2) [OF assms(1)] len have "ended \<le> length (input_bytes c)" by fastforce
        with Inr p c show ?thesis
          by (simp add: accept_response_ok conn_base_head_done conn_inv_base conn_base_disable)
      qed (use Inr wait in simp)
    qed
    with False wait show ?thesis unfolding read_head_def Let_def by (simp add: due)
  qed
qed

text \<open>A chunk step either returns as the others do, or goes on with a connection that keeps the invariant.\<close>

definition step_ok :: "Connection \<times> polled_result option \<Rightarrow> bool" where
  "step_ok res = (case res of (c, Some r) \<Rightarrow> poll_ok (c, r) | (c, None) \<Rightarrow> conn_inv c)"

lemma step_ok_simps [simp]: "step_ok (c, Some r) = poll_ok (c, r)" "step_ok (c, None) = conn_inv c"
  by (simp_all add: step_ok_def)

lemma step_ok_stop: "poll_ok x \<Longrightarrow> step_ok (case x of (c, r) \<Rightarrow> (c, Some r))"
  by (cases x) simp

lemma conn_inv_set_reader:
  "conn_inv c \<Longrightarrow> cyc_reader (cycle c) \<noteq> ReadHead \<Longrightarrow> rd \<noteq> ReadHead \<Longrightarrow>
   reader_wf rd (length (input_bytes c)) \<Longrightarrow> conn_inv (set_reader c rd)"
  by (auto simp: conn_inv_def conn_base_set_reader reader_phase_def)

lemma conn_inv_consume_set:
  assumes "conn_inv c" and "cyc_reader (cycle c) \<noteq> ReadHead" and "n \<le> length (input_bytes c)" and "rd \<noteq> ReadHead"
    and "reader_wf rd (length (input_bytes c) - n)"
  shows "conn_inv (set_reader (consume_input c n) rd)"
  using assms
  by (auto simp: conn_inv_def conn_base_def reader_phase_def set_reader_def consume_input_def local_state_def peer_state_def)

lemma conn_inv_extension_bytes:
  "conn_inv (c\<lparr>cycle := (cycle c)\<lparr>chunk_extension_bytes := n\<rparr>\<rparr>) = conn_inv c"
  by (simp add: conn_inv_def conn_base_def local_state_def peer_state_def)

lemma conn_inv_set_progress: "conn_inv c \<Longrightarrow> progress_inv p \<Longrightarrow> conn_inv (set_progress c p)"
  by (simp add: conn_inv_def conn_base_set_progress)

lemma read_chunk_size_ok:
  assumes "conn_inv c" and "cyc_reader (cycle c) = ReadChunked (Size i)"
  shows "step_ok (read_chunk_size c i)"
proof -
  have base: "conn_base c" and i: "i \<le> length (input_bytes c)"
    using assms by (auto simp: conn_inv_def conn_base_def)
  from find_crlf_total [OF i] obtain r where r: "find_crlf (input_bytes c) i = Some r" by blast
  show ?thesis
  proof (cases r)
    case None
    have "conn_inv (set_reader c (ReadChunked (Size (length (input_bytes c) - 1))))"
      using assms by (intro conn_inv_set_reader) auto
    from need_data_ok [OF this] base r None show ?thesis
      by (simp add: read_chunk_size_def Let_def step_ok_stop)
  next
    case (Some e)
    with r find_crlf_bounds have e: "e \<le> length (input_bytes c)" by blast
    let ?c = "\<lambda>k. c\<lparr>cycle := (cycle c)\<lparr>chunk_extension_bytes := k\<rparr>\<rparr>"
    have c1: "conn_inv (?c k)" "cyc_reader (cycle (?c k)) \<noteq> ReadHead" "input_bytes (?c k) = input_bytes c" for k
      using assms by (simp_all add: conn_inv_extension_bytes)
    have "conn_inv (set_reader (consume_input (?c k) e) (ReadChunked Trailers))"
      "0 < n \<Longrightarrow> conn_inv (set_reader (consume_input (?c k) e) (ReadChunked (ChunkData n True)))" for n k
      using c1 [of k] e by (auto intro!: conn_inv_consume_set)
    then show ?thesis
      using r Some base conn_inv_base [OF c1(1)]
      by (auto simp: read_chunk_size_def Let_def conn_inv_set_progress split: option.split)
  qed
qed

lemma read_data_end_ok:
  assumes "conn_inv c" and "cyc_reader (cycle c) = ReadChunked DataEnd"
  shows "step_ok (read_data_end c)"
proof -
  have "conn_inv (set_reader (consume_input c 2) (ReadChunked (Size 0)))" if "2 \<le> length (input_bytes c)"
    using assms that by (intro conn_inv_consume_set) auto
  then show ?thesis
    using need_data_ok [OF assms(1)] conn_inv_base [OF assms(1)]
    by (simp add: read_data_end_def step_ok_stop not_less)
qed

lemma read_trailers_ok:
  assumes "httparse_ok hp" and "conn_inv c0" and "cyc_reader (cycle c0) = ReadChunked Trailers"
  shows "poll_ok (read_trailers hp c0)"
proof -
  obtain c b where due: "section_due c0 False = (c, b)" by fastforce
  from section_due_ok [OF assms(2) due] assms(3)
  have c: "conn_inv c" "cyc_reader (cycle c) = ReadChunked Trailers" by auto
  note wait = wait_for_section_ok [OF c(1), of False]
  have "poll_ok (case parse_trailers hp (head_section c) (max_header_count (limits c)) (role c = Client) of
        Inl e \<Rightarrow> (c, Inl e)
      | Inr None \<Rightarrow> wait_for_section c False
      | Inr (Some (ended, trailers)) \<Rightarrow>
          finish_peer (set_progress (consume_input c ended) progress_default) trailers)"
  proof (cases "parse_trailers hp (head_section c) (max_header_count (limits c)) (role c = Client)")
    case (Inl e)
    have "\<not> roomy c" if "e = Panic"
      using Inl that iffD1 [OF parse_trailers_ok(1) [OF assms(1)]] by (auto simp: roomy_def)
    with Inl c(1) conn_inv_base [OF c(1)] show ?thesis by (cases e) auto
  next
    case (Inr p)
    show ?thesis
    proof (cases p)
      case (Some er)
      then obtain ended h where p: "p = Some (ended, h)" by (cases er) auto
      with Inr parse_trailers_ok(2) [OF assms(1)] head_section_length [of c]
      have "ended \<le> length (input_bytes c)" by fastforce
      with Inr p c show ?thesis
        by (simp add: finish_peer_ok conn_base_set_progress conn_base_consume conn_inv_base)
    qed (use Inr wait in simp)
  qed
  with wait show ?thesis unfolding read_trailers_def Let_def by (simp add: due)
qed

lemma read_chunked_ok:
  assumes "httparse_ok hp" and "conn_inv c" and "cyc_reader (cycle c) = ReadChunked ch"
  shows "step_ok (read_chunked hp c ch)"
  using assms
  by (cases ch) (auto simp: read_chunked_def read_chunk_size_ok read_data_end_ok
      intro!: step_ok_stop read_payload_ok read_trailers_ok)

lemma read_body_ok:
  assumes "httparse_ok hp" and "conn_inv c"
  shows "step_ok (read_body hp c)"
proof -
  note base = conn_inv_base [OF assms(2)]
  show ?thesis
  proof (cases "cyc_reader (cycle c)")
    case ReadHead
    with read_head_ok [OF assms] show ?thesis by (simp add: read_body_def Let_def step_ok_stop)
  next
    case (ReadFixed n)
    with finish_peer_ok [OF base] read_payload_ok [OF assms(2)] show ?thesis
      by (simp add: read_body_def Let_def step_ok_stop)
  next
    case (ReadChunked ch)
    with read_chunked_ok [OF assms] show ?thesis by (simp add: read_body_def Let_def)
  next
    case ReadCloseDelimited
    with finish_peer_ok [OF base] peer_data_ok [OF base] assms(2) show ?thesis
      by (simp add: read_body_def Let_def step_ok_stop)
  qed
qed

lemma poll_peer_state_ok:
  assumes "conn_inv c" and "poll_peer_state c = Some r"
  shows "poll_ok r"
proof -
  note base = conn_inv_base [OF assms(1)]
  have head: "cyc_reader (cycle c) = ReadHead" if "peer_state c \<in> {Idle, Done, MustClose}"
    using assms(1) that by (auto simp: conn_inv_def reader_phase_def)
  have "conn_base (consume_input c (length (input_bytes c)))" if "peer_state c = Idle"
    using base head that by (intro conn_base_consume) auto
  with assms base head peer_closed_ok [of c] peer_closed_ok [of "consume_input c (length (input_bytes c))"]
  show ?thesis by (auto simp: poll_peer_state_def split: State.splits if_splits)
qed

lemma next_event_inner_ok:
  "httparse_ok hp \<Longrightarrow> conn_inv c \<Longrightarrow> poll_ok (next_event_inner hp c)"
proof (induction hp c rule: next_event_inner.induct)
  case (1 hp c)
  show ?case
  proof (cases "poll_peer_state c")
    case None
    obtain c1 r where r: "read_body hp c = (c1, r)" by fastforce
    with read_body_ok [OF 1(2,3)] have ok: "step_ok (c1, r)" by simp
    then show ?thesis
    proof (cases r)
      case None
      with ok 1(1) [OF \<open>poll_peer_state c = None\<close> r [symmetric] None 1(2)]
      show ?thesis by (subst next_event_inner.simps) (simp add: \<open>poll_peer_state c = None\<close> r)
    next
      case (Some x)
      with ok show ?thesis by (subst next_event_inner.simps) (simp add: None r)
    qed
  next
    case (Some x)
    with poll_peer_state_ok [OF 1(3) Some] show ?thesis by (subst next_event_inner.simps) simp
  qed
qed

lemma poison_peer_inv: "conn_base c \<Longrightarrow> conn_inv (poison_peer c)"
proof -
  assume base: "conn_base c"
  have "phase_kept (role c) (conn_state c) (process_error (conn_state c) (peer (role c)))"
    by (simp add: phase_kept_error)
  moreover have "role_state (process_error s r) r = Error" for s r
    by (cases r) (simp_all add: process_error_def stabilize_settle settle_simps)
  ultimately show ?thesis
    using base conn_base_state [OF base lifecycle_inv_error [OF conn_base_lifecycle [OF base]]]
    by (simp add: poison_peer_def conn_inv_def peer_state_def reader_phase_def)
qed

lemma conn_inv_take:
  assumes "conn_inv c" and "n \<le> length (input_bytes c)" and "\<forall>k. reader_wf (cyc_reader (cycle c)) k"
  shows "conn_inv (c\<lparr>conn_input := consume (conn_input c) n\<rparr>)"
  using assms by (auto simp: conn_inv_def conn_base_def local_state_def peer_state_def)

lemma next_event_safe:
  assumes "httparse_ok hp" and "conn_inv c"
  shows "conn_inv (fst (next_event hp c)) \<and> (snd (next_event hp c) = Inl Panic \<longrightarrow> \<not> roomy (fst (next_event hp c)))"
proof -
  obtain c1 r where r: "next_event_inner hp c = (c1, r)" by fastforce
  with next_event_inner_ok [OF assms] have ok: "poll_ok (c1, r)" by simp
  show ?thesis
  proof (cases r)
    case (Inl e)
    with ok r show ?thesis by (cases e) (auto simp: next_event_def Let_def poison_peer_inv)
  next
    case (Inr p)
    with ok r show ?thesis by (cases p) (auto simp: next_event_def buffer_take_eq conn_inv_take)
  qed
qed

section \<open>Reading keeps the limits and what is held\<close>

lemma advance_limits [simp]:
  "limits (fst (advance_peer c e)) = limits c" "held (fst (advance_peer c e)) = held c"
  "limits (fst (advance_local c e)) = limits c" "held (fst (advance_local c e)) = held c"
  by (simp_all add: advance_peer_def advance_local_def split: sum.split)

lemma limits_updates [simp]:
  "held (set_progress c p) = held c" "held (conn_disable_keep_alive c) = held c" "limits (set_reader c rd) = limits c"
  "held (set_reader c rd) = held c" "limits (consume_input c n) = limits c" "held (consume_input c n) = held c"
  "limits (record_informational c st) = limits c" "held (record_informational c st) = held c"
  "limits (record_response c) = limits c" "held (record_response c) = held c"
  "limits (record_request c m v f b u) = limits c" "held (record_request c m v f b u) = held c"
  by (simp_all add: set_reader_def set_progress_def consume_input_def record_informational_def record_response_def record_request_def
      conn_disable_keep_alive_def Let_def)

lemma limits_read [simp]:
  "limits (fst (finish_peer c h)) = limits c" "held (fst (finish_peer c h)) = held c"
  "limits (fst (peer_closed c)) = limits c" "held (fst (peer_closed c)) = held c"
  "limits (fst (peer_data c n s e)) = limits c" "held (fst (peer_data c n s e)) = held c"
  "limits (fst (advance_payload c k)) = limits c" "held (fst (advance_payload c k)) = held c"
  "limits (fst (section_due c skip)) = limits c" "held (fst (section_due c skip)) = held c"
  "limits (fst (need_data_or_eof c msg)) = limits c" "held (fst (need_data_or_eof c msg)) = held c"
  "limits (fst (wait_for_section c skip)) = limits c" "held (fst (wait_for_section c skip)) = held c"
  by (simp_all add: finish_peer_def peer_closed_def peer_data_def advance_payload_def section_due_def
      wait_for_section_def need_data_or_eof_def Let_def split_beta split: sum.split Reader.split Chunk.split)

lemma limits_payload [simp]:
  "limits (fst (read_payload c m)) = limits c" "held (fst (read_payload c m)) = held c"
  by (simp_all add: read_payload_def Let_def split_beta)

lemma limits_accept [simp]:
  "limits (fst (accept_request c r)) = limits c" "held (fst (accept_request c r)) = held c"
  "limits (fst (accept_informational c a bad)) = limits c" "held (fst (accept_informational c a bad)) = held c"
  "limits (fst (accept_final c a f d)) = limits c" "held (fst (accept_final c a f d)) = held c"
  "limits (fst (accept_response c a)) = limits c" "held (fst (accept_response c a)) = held c"
  by (simp_all add: accept_request_def accept_response_def accept_informational_def accept_final_def Let_def split_beta
      split: sum.split option.split)

lemma limits_sections [simp]:
  "limits (fst (read_head hp c)) = limits c" "held (fst (read_head hp c)) = held c"
  "limits (fst (read_trailers hp c)) = limits c" "held (fst (read_trailers hp c)) = held c"
  by (simp_all add: read_head_def read_trailers_def Let_def split_beta split: sum.split option.split)

lemma limits_in_place: "limits (fst (next_event_in_place c n)) = limits c" "held (fst (next_event_in_place c n)) \<le> held c"
  by (simp_all add: next_event_in_place_def split_beta split: sum.split)

lemma limits_chunked [simp]:
  "limits (fst (read_chunk_size c i)) = limits c" "held (fst (read_chunk_size c i)) = held c"
  "limits (fst (read_data_end c)) = limits c" "held (fst (read_data_end c)) = held c"
  "limits (fst (read_chunked hp c ch)) = limits c" "held (fst (read_chunked hp c ch)) = held c"
  by (simp_all add: read_chunk_size_def read_data_end_def read_chunked_def Let_def split_beta split: option.split Chunk.split)

lemma limits_body [simp]:
  "limits (fst (read_body hp c)) = limits c" "held (fst (read_body hp c)) = held c"
  by (simp_all add: read_body_def Let_def split_beta split: Reader.split)

lemma limits_inner:
  "limits (fst (next_event_inner hp c)) = limits c \<and> held (fst (next_event_inner hp c)) = held c"
proof (induction hp c rule: next_event_inner.induct)
  case (1 hp c)
  have "poll_peer_state c = Some r \<Longrightarrow> limits (fst r) = limits c \<and> held (fst r) = held c" for r
    by (auto simp: poll_peer_state_def split: State.splits if_splits)
  with 1 limits_body(1,2) [of hp c] show ?case
    by (subst (1 2) next_event_inner.simps) (auto split: option.split prod.split simp del: limits_body)
qed

lemma limits_next_event:
  "limits (fst (next_event hp c)) = limits c" "held (fst (next_event hp c)) = held c"
  using limits_inner [of hp c]
  by (auto simp: next_event_def Let_def poison_peer_def buffer_take_eq split: prod.split sum.split recv_error.split Polled.split)

lemma next_event_ok:
  assumes "httparse_ok hp" and "conn_inv c" and "roomy c"
  shows "conn_inv (fst (next_event hp c)) \<and> roomy (fst (next_event hp c)) \<and> snd (next_event hp c) \<noteq> Inl Panic"
  using next_event_safe [OF assms(1,2)] assms(3) by (auto simp: roomy_def limits_next_event)

section \<open>Preservation by the other operations\<close>

lemma conn_inv_eof: "conn_inv (c\<lparr>eof := b\<rparr>) = conn_inv c"
  by (simp add: conn_inv_def conn_base_def local_state_def peer_state_def)

lemma reader_wf_mono: "reader_wf rd k \<Longrightarrow> k \<le> k' \<Longrightarrow> reader_wf rd k'"
  by (auto simp: reader_wf_def split: Reader.splits Chunk.splits)

lemma receive_data_inv: "conn_inv c \<Longrightarrow> conn_inv (fst (receive_data c d))"
proof -
  assume inv: "conn_inv c"
  then have "conn_inv (c\<lparr>conn_input := buffer_extend (conn_input c) d\<rparr>)"
    by (auto simp: conn_inv_def conn_base_def local_state_def peer_state_def intro: reader_wf_mono)
  with inv show ?thesis
    by (simp add: receive_data_def record_eof_def Let_def conn_inv_eof conn_inv_disable)
qed

lemma conn_inv_held: "conn_inv (c\<lparr>held := n\<rparr>) = conn_inv c"
  by (simp add: conn_inv_def conn_base_def local_state_def peer_state_def)

lemma hold_body_data_cases:
  assumes "hold_body_data c n = (c', b)"
  obtains (held) "b = Some True" "c' = c\<lparr>held := held c + n\<rparr>" "n \<noteq> 0" "\<not> eof c" "input_bytes c = []"
      "is_some_and (\<lambda>m. held c + n \<le> m) (payload_remaining c)"
    | (refused) "b = Some False" "c' = c"
    | (overflows) "b = None" "c' = c" "usize_max < held c + n" "payload_remaining c \<noteq> None"
  using assms by (auto simp: hold_body_data_def checked_add_def split: if_splits option.splits)

lemma hold_body_data_inv: "conn_inv c \<Longrightarrow> conn_inv (fst (hold_body_data c n))"
  by (cases "hold_body_data c n") (auto elim: hold_body_data_cases simp: conn_inv_held)

lemma advance_payload_inv:
  assumes "conn_inv c" and "0 < k" and "advance_payload c k = (c1, n, b, e)"
  shows "conn_inv c1"
  using assms
  by (auto simp: advance_payload_def Let_def conn_inv_def conn_base_set_reader reader_phase_def
      split: Reader.splits Chunk.splits)

lemma peer_data_inv:
  assumes "conn_inv c"
  shows "conn_inv (fst (peer_data c n b e))"
proof -
  obtain c' r where a: "advance_peer c Data = (c', r)" by fastforce
  then have "c' = c" by (rule advance_peer_cases) (auto simp: process_event_data)
  with a assms show ?thesis
    by (auto simp: peer_data_def conn_inv_def conn_base_def local_state_def peer_state_def split: sum.split)
qed

lemma next_event_in_place_inv: "conn_inv c \<Longrightarrow> conn_inv (fst (next_event_in_place c n))"
proof -
  assume inv: "conn_inv c"
  obtain c1 m b e where a: "advance_payload c n = (c1, m, b, e)" by (cases "advance_payload c n")
  show ?thesis
  proof (cases "n = 0 \<or> n > held c")
    case False
    with advance_payload_inv [OF inv _ a] have "conn_inv (fst (peer_data c1 n b e))" by (intro peer_data_inv) simp
    with False a show ?thesis
      by (cases "peer_data c1 n b e") (auto simp: next_event_in_place_def conn_inv_held split: sum.split)
  qed (use inv in \<open>auto simp: next_event_in_place_def\<close>)
qed

end
