(* ===== verification/H11r_Transfer.thy ===== *)
theory H11r_Transfer
  imports H11r_Send H11r_Receive
begin

text \<open>
  One end sends a message body (\<open>connection/send.rs\<close>), the other reads it
  (\<open>connection/receive.rs\<close>): the two are composed here. \<open>pending\<close> says what the bytes in front
  of a reader denote; every step of the reader is shown to deliver some of it, to wait, or to
  end the message. A transfer is an interleaving of arrivals and polls.
\<close>

section \<open>What the bytes of a body denote\<close>

definition chunked_text :: "bytes list \<Rightarrow> bytes" where
  "chunked_text ds = concat (map chunk_text ds) @ ''0'' @ CRLF @ CRLF"

definition sendable :: "bytes list \<Rightarrow> bool" where
  "sendable ds \<longleftrightarrow> list_all (\<lambda>d. d \<noteq> [] \<and> length d \<le> usize_max) ds"

text \<open>
  \<open>pending rd stream payload rest\<close>: a reader in state \<open>rd\<close> that is given \<open>stream\<close> has
  \<open>payload\<close> still to deliver, and leaves \<open>rest\<close>.
\<close>

definition pending :: "Reader \<Rightarrow> bytes \<Rightarrow> bytes \<Rightarrow> bytes \<Rightarrow> bool" where
  "pending rd stream payload rest =
     (case rd of
        ReadHead \<Rightarrow> False
      | ReadFixed n \<Rightarrow> length payload = n \<and> stream = payload @ rest
      | ReadCloseDelimited \<Rightarrow> stream = payload \<and> rest = []
      | ReadChunked (Size i) \<Rightarrow>
          \<exists>ds. sendable ds \<and> stream = chunked_text ds @ rest \<and> payload = concat ds
      | ReadChunked (ChunkData n b) \<Rightarrow>
          \<exists>d ds. sendable ds \<and> length d = n \<and> 0 < n \<and> stream = d @ CRLF @ chunked_text ds @ rest
            \<and> payload = d @ concat ds
      | ReadChunked DataEnd \<Rightarrow>
          \<exists>ds. sendable ds \<and> stream = CRLF @ chunked_text ds @ rest \<and> payload = concat ds
      | ReadChunked Trailers \<Rightarrow> stream = CRLF @ rest \<and> payload = [])"

definition scan_ok :: "Reader \<Rightarrow> bytes \<Rightarrow> SectionProgress \<Rightarrow> bool" where
  "scan_ok rd buffered p =
     (case rd of
        ReadChunked (Size i) \<Rightarrow> i \<le> length buffered - 1 \<and> (\<forall>j < i. \<not> crlf_at buffered j)
      | ReadChunked Trailers \<Rightarrow> parsed p \<le> 1
      | _ \<Rightarrow> True)"

definition receiving :: "bool \<Rightarrow> Connection \<Rightarrow> bytes \<Rightarrow> bytes \<Rightarrow> bytes \<Rightarrow> bool" where
  "receiving cl c future payload rest \<longleftrightarrow>
     conn_base c \<and> peer_state c = SendBody \<and> (cl \<longleftrightarrow> cyc_reader (cycle c) = ReadCloseDelimited \<and> \<not> eof c) \<and> (eof c \<longrightarrow> future = [])
     \<and> 16 \<le> max_head_bytes (limits c) \<and> slots_fit (max_header_count (limits c))
     \<and> chunk_extension_bytes (cycle c) \<le> max_head_bytes (limits c)
     \<and> scan_ok (cyc_reader (cycle c)) (input_bytes c) (progress (cycle c)) \<and> pending (cyc_reader (cycle c)) (input_bytes c @ future) payload rest"

text \<open>What the parser of field sections does on an empty section and its prefixes.\<close>

definition empty_section_ok :: "httparse \<Rightarrow> bool" where
  "empty_section_ok hp \<longleftrightarrow>
     (\<forall>n. hp_parse_headers hp [] n = Inr None \<and> hp_parse_headers hp [CR] n = Inr None
        \<and> hp_parse_headers hp CRLF n = Inr (Some (2, [])))"

text \<open>What one step of the reader makes of it.\<close>

definition delivers :: "bool \<Rightarrow> bytes \<Rightarrow> bytes \<Rightarrow> bytes \<Rightarrow> Connection \<times> polled_result \<Rightarrow> bool" where
  "delivers cl future payload rest res =
     (case res of
        (c, Inr (PolledData n _ _)) \<Rightarrow>
          0 < n \<and> n \<le> length (input_bytes c) \<and> take n (input_bytes c) @ drop n payload = payload
          \<and> receiving cl (c\<lparr>conn_input := consume (conn_input c) n\<rparr>) future (drop n payload) rest
      | (c, Inr (PolledEvent (EventEndOfMessage h))) \<Rightarrow>
          headers_iter h = [] \<and> payload = [] \<and> input_bytes c @ future = rest \<and> buffer_inv (conn_input c) \<and> peer_state c \<noteq> SendBody
      | (c, Inr PolledNeedData) \<Rightarrow>
          receiving cl c future payload rest \<and> (future = [] \<longrightarrow> cl)
      | _ \<Rightarrow> False)"

definition continues :: "bool \<Rightarrow> bytes \<Rightarrow> bytes \<Rightarrow> bytes \<Rightarrow> Connection \<times> polled_result option \<Rightarrow> bool" where
  "continues cl future payload rest res =
     (case res of (c, Some r) \<Rightarrow> delivers cl future payload rest (c, r) | (c, None) \<Rightarrow> receiving cl c future payload rest)"

lemma continues_simps [simp]:
  "continues cl f p r (c, Some x) = delivers cl f p r (c, x)" "continues cl f p r (c, None) = receiving cl c f p r"
  by (simp_all add: continues_def)

lemma continues_stop: "delivers cl f p r x \<Longrightarrow> continues cl f p r (case x of (c, r) \<Rightarrow> (c, Some r))"
  by (cases x) simp

lemma delivers_simps [simp]:
  "delivers cl f p r (c, Inr (PolledData n s e)) \<longleftrightarrow>
     0 < n \<and> n \<le> length (input_bytes c) \<and> take n (input_bytes c) @ drop n p = p
     \<and> receiving cl (c\<lparr>conn_input := consume (conn_input c) n\<rparr>) f (drop n p) r"
  "delivers cl f p r (c, Inr (PolledEvent (EventEndOfMessage h))) \<longleftrightarrow>
     headers_iter h = [] \<and> p = [] \<and> input_bytes c @ f = r \<and> buffer_inv (conn_input c) \<and> peer_state c \<noteq> SendBody"
  "delivers cl f p r (c, Inr PolledNeedData) \<longleftrightarrow>
     receiving cl c f p r \<and> (f = [] \<longrightarrow> cl)"
  by (simp_all add: delivers_def)

lemma finish_peer_delivers:
  assumes "peer_state c = SendBody" and "input_bytes c @ f = r" and "buffer_inv (conn_input c)" and "headers_iter h = []"
  shows "delivers cl f [] r (finish_peer c h)"
proof -
  have "role_state (settle (set_role_state s x Done)) x \<noteq> SendBody" for s x
    by (cases x) (auto simp: settle_simps)
  then show ?thesis
    using assms by (simp add: finish_peer_def advance_peer_def process_event_end_of_message accept_if_def peer_state_def)
qed

lemma advance_peer_data: "peer_state c = SendBody \<Longrightarrow> advance_peer c Data = (c, Inr ())"
  by (simp add: advance_peer_def process_event_data accept_if_def peer_state_def)

lemma receiving_waiting: "receiving cl (c\<lparr>cycle := (cycle c)\<lparr>waiting_for_continue := b\<rparr>\<rparr>) f p r = receiving cl c f p r"
  by (simp add: receiving_def conn_base_def local_state_def peer_state_def)


lemma pending_simps [simp]:
  "pending (ReadFixed n) s p r \<longleftrightarrow> length p = n \<and> s = p @ r"
  "pending ReadCloseDelimited s p r \<longleftrightarrow> s = p \<and> r = []"
  "pending (ReadChunked Trailers) s p r \<longleftrightarrow> s = CRLF @ r \<and> p = []"
  "\<not> pending ReadHead s p r"
  by (auto simp: pending_def)

lemma scan_ok_simps [simp]:
  "scan_ok (ReadFixed n) d pr" "scan_ok ReadCloseDelimited d pr" "scan_ok ReadHead d pr"
  "scan_ok (ReadChunked (ChunkData n b)) d pr" "scan_ok (ReadChunked DataEnd) d pr"
  "scan_ok (ReadChunked (Size 0)) d pr" "scan_ok (ReadChunked Trailers) d pr \<longleftrightarrow> parsed pr \<le> 1"
  by (simp_all add: scan_ok_def)

text \<open>Delivering \<open>n\<close> buffered bytes and moving the reader.\<close>

lemma peer_data_delivers:
  assumes "receiving cl c f p r" and "0 < n" and "n \<le> length (input_bytes c)" and "take n (input_bytes c) @ drop n p = p"
    and "\<forall>k. reader_wf rd k" and "scan_ok rd (drop n (input_bytes c)) (progress (cycle c))"
    and "pending rd (drop n (input_bytes c) @ f) (drop n p) r" and "rd = ReadCloseDelimited \<longleftrightarrow> cyc_reader (cycle c) = ReadCloseDelimited"
  shows "delivers cl f p r (peer_data (set_reader c rd) n s e)"
proof -
  have "peer_state (set_reader c rd) = SendBody" using assms(1) by (simp add: receiving_def)
  from advance_peer_data [OF this] show ?thesis
    using assms
    by (simp add: peer_data_def receiving_waiting) (simp add: receiving_def conn_base_def local_state_def peer_state_def set_reader_def)
qed

lemma need_data_delivers:
  assumes "receiving cl c f p r" and "f = [] \<Longrightarrow> cl"
  shows "delivers cl f p r (need_data_or_eof c m)"
  using assms by (auto simp: need_data_or_eof_def receiving_def)

lemma take_payload:
  "b @ f = p @ r \<Longrightarrow> n \<le> length b \<Longrightarrow> n \<le> length p \<Longrightarrow> take n b @ drop n p = p"
  by (metis append_take_drop_id take_append diff_is_0_eq append.right_neutral take0)

text \<open>A piece of the payload, of any size that is there and belongs to it.\<close>

lemma fixed_piece:
  assumes "receiving cl c f p r" and "cyc_reader (cycle c) = ReadFixed n" and "0 < k" and "k \<le> n"
    and "k \<le> length (input_bytes c)"
  shows "delivers cl f p r (peer_data (set_reader c (ReadFixed (n - k))) k s e)"
proof -
  from assms have eq: "input_bytes c @ f = p @ r" "length p = n" by (auto simp: receiving_def)
  have "drop k (input_bytes c) @ f = drop k p @ r"
    using arg_cong [OF eq(1), of "drop k"] eq(2) assms(4,5) by simp
  with eq show ?thesis
    using assms take_payload [OF eq(1), of k] by (intro peer_data_delivers) auto
qed

lemma chunk_piece:
  assumes "receiving cl c f p r" and "cyc_reader (cycle c) = ReadChunked (ChunkData n b)" and "0 < k" and "k \<le> n"
    and "k \<le> length (input_bytes c)"
  shows "delivers cl f p r
    (peer_data (set_reader c (ReadChunked (if k = n then DataEnd else ChunkData (n - k) False))) k s e)"
proof -
  from assms obtain d ds where d: "sendable ds" "length d = n"
    "input_bytes c @ f = d @ CRLF @ chunked_text ds @ r" "p = d @ concat ds"
    by (auto simp: receiving_def pending_def)
  let ?rd = "ReadChunked (if k = n then DataEnd else ChunkData (n - k) False)"
  have "drop k (input_bytes c) @ f = drop k d @ CRLF @ chunked_text ds @ r"
    using arg_cong [OF d(3), of "drop k"] d(2) assms(4,5) by simp
  with d assms(4) have "pending ?rd (drop k (input_bytes c) @ f) (drop k p) r"
    by (auto simp: pending_def intro!: exI [of _ "drop k d"] exI [of _ ds])
  moreover have "take k (input_bytes c) @ drop k p = p"
    using take_payload [of "input_bytes c" f d "CRLF @ chunked_text ds @ r" k] d assms(4,5) by simp
  ultimately show ?thesis using assms d by (intro peer_data_delivers) auto
qed

lemma close_piece:
  assumes "receiving cl c f p r" and "cyc_reader (cycle c) = ReadCloseDelimited" and "0 < k"
    and "k \<le> length (input_bytes c)"
  shows "delivers cl f p r (peer_data c k s e)"
proof -
  have c: "set_reader c ReadCloseDelimited = c" using assms(2) by (simp add: set_reader_def)
  from assms have eq: "input_bytes c @ f = p" "r = []" by (auto simp: receiving_def)
  then have "take k (input_bytes c) @ drop k p = p" "drop k (input_bytes c) @ f = drop k p"
    using assms(4) by (auto simp flip: eq(1))
  with assms eq(2) have "delivers cl f p r (peer_data (set_reader c ReadCloseDelimited) k s e)"
    by (intro peer_data_delivers) auto
  then show ?thesis by (simp only: c)
qed

lemma fixed_delivers:
  assumes "receiving cl c f p r" and "cyc_reader (cycle c) = ReadFixed n" and "0 < n"
  shows "delivers cl f p r (read_payload c m)"
proof (cases "input_bytes c = []")
  case True
  with assms show ?thesis
    by (auto simp: read_payload_def receiving_def intro!: need_data_delivers)
next
  case False
  with fixed_piece [OF assms(1,2), of "min n (length (input_bytes c))" False False] assms(2,3) show ?thesis
    by (simp add: read_payload_def advance_payload_def Let_def)
qed

lemma chunk_data_delivers:
  assumes "receiving cl c f p r" and "cyc_reader (cycle c) = ReadChunked (ChunkData n b)"
  shows "delivers cl f p r (read_payload c m)"
proof (cases "input_bytes c = []")
  case True
  with assms have "f \<noteq> []" by (auto simp: receiving_def pending_def)
  with True need_data_delivers [OF assms(1)] show ?thesis by (simp add: read_payload_def)
next
  case False
  have "0 < n" using assms by (auto simp: receiving_def pending_def)
  with False chunk_piece [OF assms, of "min n (length (input_bytes c))" b "min n (length (input_bytes c)) = n"] assms(2)
  show ?thesis by (simp add: read_payload_def advance_payload_def Let_def)
qed

lemma close_delivers:
  assumes "receiving cl c f p r" and "cyc_reader (cycle c) = ReadCloseDelimited" and "input_bytes c \<noteq> []"
  shows "delivers cl f p r (peer_data c (length (input_bytes c)) s e)"
  using assms by (intro close_piece) auto

lemma receiving_move:
  assumes "receiving cl c f p r" and "n \<le> length (input_bytes c)" and "reader_wf rd (length (input_bytes c) - n)"
    and "scan_ok rd (drop n (input_bytes c)) (progress (cycle c))"
    and "pending rd (drop n (input_bytes c) @ f) p r" and "rd = ReadCloseDelimited \<longleftrightarrow> cyc_reader (cycle c) = ReadCloseDelimited"
  shows "receiving cl (set_reader (consume_input c n) rd) f p r"
  using assms
  by (simp add: receiving_def conn_base_def local_state_def peer_state_def set_reader_def consume_input_def)

lemma data_end_continues:
  assumes "receiving cl c f p r" and "cyc_reader (cycle c) = ReadChunked DataEnd"
  shows "continues cl f p r (read_data_end c)"
proof -
  from assms obtain ds where d: "sendable ds" "input_bytes c @ f = CRLF @ chunked_text ds @ r" "p = concat ds"
    by (auto simp: receiving_def pending_def)
  show ?thesis
  proof (cases "length (input_bytes c) < 2")
    case True
    then have "f \<noteq> []" using arg_cong [OF d(2), of length] by auto
    with True assms show ?thesis
      by (auto simp: read_data_end_def intro!: continues_stop need_data_delivers)
  next
    case False
    then have "take 2 (input_bytes c) = CRLF"
      using arg_cong [OF d(2), of "take 2"] by simp
    moreover have "drop 2 (input_bytes c) @ f = chunked_text ds @ r"
      using arg_cong [OF d(2), of "drop 2"] False by simp
    then have "receiving cl (set_reader (consume_input c 2) (ReadChunked (Size 0))) f p r"
      using d False assms(2) by (intro receiving_move [OF assms(1)]) (auto simp: pending_def)
    ultimately show ?thesis using False by (simp add: read_data_end_def)
  qed
qed

text \<open>The first line of a chunked body: its size, and what follows it.\<close>

lemma chunked_text_line:
  assumes "sendable ds"
  obtains line n rd rem where "chunked_text ds = line @ CRLF @ rem" "CR \<notin> set line" "length line \<le> 16" "line \<noteq> []"
    "parse_chunk_header line = Some n" "chunk_digits line = length line"
    "rd = (if n = 0 then ReadChunked Trailers else ReadChunked (ChunkData n True))"
    "\<And>r. pending rd (rem @ r) (concat ds) r"
proof (cases ds)
  case Nil
  have "parse_chunk_header ''0'' = Some 0" "chunk_digits ''0'' = 1" by code_simp+
  with that [of "''0''" CRLF 0] Nil show thesis by (simp add: chunked_text_def)
next
  case (Cons d es)
  let ?n = "length d"
  let ?line = "hex_digits (chunk_size_digits ?n) ?n"
  have d: "d \<noteq> []" "?n \<le> usize_max" "sendable es" using assms Cons by (auto simp: sendable_def)
  have "chunked_text ds = ?line @ CRLF @ d @ CRLF @ chunked_text es"
    using d by (simp add: Cons chunked_text_def chunk_text_def prefix_bytes_chunk_size)
  moreover have "length ?line \<le> 16" "?line \<noteq> []"
    using chunk_size_digits_bound [OF d(2)] by (auto simp: hex_digits_def)
  moreover have "chunk_digits ?line = length ?line"
    by (simp add: chunk_digits_def takeWhile_all hex_digits_hexdigit)
  moreover have "pending (ReadChunked (ChunkData ?n True)) ((d @ CRLF @ chunked_text es) @ r) (concat ds) r" for r
    using d by (auto simp: pending_def Cons)
  ultimately show thesis
    using that [of ?line "d @ CRLF @ chunked_text es" ?n "ReadChunked (ChunkData ?n True)"] hex_digits_no_cr
      parse_chunk_header_hex [OF d(2)] d(1) by simp
qed

lemma no_crlf_in_prefix:
  assumes "d @ f = line @ CRLF @ rem" and "CR \<notin> set line" and "length d < length line + 2"
  shows "\<not> crlf_at d j"
proof
  assume "crlf_at d j"
  then have j: "j + 1 < length d" "d ! j = CR" by (auto simp: crlf_at_def)
  then have "(line @ CRLF @ rem) ! j = CR" using assms(1) by (metis Suc_eq_plus1 Suc_lessD nth_append)
  moreover have "j < length line" using j(1) assms(3) by simp
  ultimately show False using assms(2) by (metis nth_append nth_mem)
qed


lemma incomplete_line_short:
  assumes "d @ f = line @ CRLF @ rem" and "length d < length line + 2"
  shows "incomplete_line_len d \<le> length line"
proof (cases "length d = length line + 1")
  case True
  then have "d ! length line = CR"
    using assms(1) by (metis less_add_one nth_append nth_append_length append_Cons)
  with True have "last_opt d = Some CR" by (auto simp: last_opt_def last_conv_nth)
  with True show ?thesis by (simp add: incomplete_line_len_def)
qed (use assms(2) in \<open>auto simp: incomplete_line_len_def\<close>)

lemma find_crlf_from:
  assumes "i \<le> length line" and "CR \<notin> set line" and "\<forall>j < i. \<not> crlf_at (line @ CRLF @ rem) j"
  shows "find_crlf (line @ CRLF @ rem) i = Some (Some (length line + 2))"
  using assms find_crlf_line [OF assms(2), of rem]
  by (subst find_crlf_Some) (auto simp: find_crlf_Some)

lemma size_continues:
  assumes "receiving cl c f p r" and "cyc_reader (cycle c) = ReadChunked (Size i)"
  shows "continues cl f p r (read_chunk_size c i)"
proof -
  let ?d = "input_bytes c"
  from assms obtain ds where ds: "sendable ds" "?d @ f = chunked_text ds @ r" "p = concat ds"
    by (auto simp: receiving_def pending_def)
  from assms have i: "i \<le> length ?d - 1" "\<forall>j < i. \<not> crlf_at ?d j" and lim: "16 \<le> max_head_bytes (limits c)"
    "chunk_extension_bytes (cycle c) \<le> max_head_bytes (limits c)"
    by (auto simp: receiving_def scan_ok_def)
  obtain line n rd rem where line: "chunked_text ds = line @ CRLF @ rem" "CR \<notin> set line" "length line \<le> 16"
    "line \<noteq> []" "parse_chunk_header line = Some n" "chunk_digits line = length line"
    "rd = (if n = 0 then ReadChunked Trailers else ReadChunked (ChunkData n True))"
    "\<And>r. pending rd (rem @ r) (concat ds) r"
    using chunked_text_line [OF ds(1)] by metis
  have s: "?d @ f = line @ CRLF @ (rem @ r)" using ds(2) line(1) by simp
  show ?thesis
  proof (cases "length ?d < length line + 2")
    case True
    note none = no_crlf_in_prefix [OF s line(2) True]
    have "f \<noteq> []" using arg_cong [OF s, of length] True by auto
    have find: "find_crlf ?d i = Some None" using i(1) none by (subst find_crlf_None) auto
    have "receiving cl (set_reader c (ReadChunked (Size (length ?d - 1)))) f p r"
      using assms none ds
      by (auto simp: receiving_def conn_base_def local_state_def peer_state_def set_reader_def scan_ok_def pending_def)
    from need_data_delivers [OF this] \<open>f \<noteq> []\<close> find incomplete_line_short [OF s True] line(3) lim show ?thesis
      by (auto simp: read_chunk_size_def Let_def intro!: continues_stop)
  next
    case False
    define dr where "dr = drop (length line + 2) ?d"
    have dr: "?d = line @ CRLF @ dr" "dr @ f = rem @ r"
      using False arg_cong [OF s, of "take (length line + 2)"] arg_cong [OF s, of "drop (length line + 2)"]
        append_take_drop_id [of "length line + 2" ?d]
      by (simp_all add: dr_def)
    have "crlf_at ?d (length line)" by (simp add: dr(1) crlf_at_def nth_append)
    then have "i \<le> length line" using i(2) by (meson not_less)
    then have find: "find_crlf ?d i = Some (Some (length line + 2))"
      using find_crlf_from [OF _ line(2)] i(2) dr(1) by simp
    have same: "c\<lparr>cycle := (cycle c)\<lparr>chunk_extension_bytes := chunk_extension_bytes (cycle c)\<rparr>\<rparr> = c" by simp
    have move: "receiving cl (set_reader (consume_input (set_progress c pr) (length line + 2)) rd) f p r"
      if "progress_inv pr" "n = 0 \<Longrightarrow> parsed pr \<le> 1" for pr
    proof (rule receiving_move)
      show "receiving cl (set_progress c pr) f p r"
        using assms that(1)
        by (auto simp: receiving_def conn_base_def local_state_def peer_state_def set_progress_def scan_ok_def)
      show "reader_wf rd (length (input_bytes (set_progress c pr)) - (length line + 2))" using line(7) by simp
      show "scan_ok rd (drop (length line + 2) (input_bytes (set_progress c pr))) (progress (cycle (set_progress c pr)))"
        using line(7) that(2) by (simp add: set_progress_def)
      show "pending rd (drop (length line + 2) (input_bytes (set_progress c pr)) @ f) p r"
        using line(8) [of r] dr ds(3) by simp
    qed (use False line(7) assms(2) in simp_all)
    have "progress_inv (progress (cycle c))" using assms(1) by (simp add: receiving_def conn_base_def)
    then have "n \<noteq> 0 \<Longrightarrow> receiving cl (set_reader (consume_input c (length line + 2)) rd) f p r"
      using move [of "progress (cycle c)"] by (simp add: set_progress_def)
    moreover have "set_progress (set_reader (consume_input c k) rd) progress_default
        = set_reader (consume_input (set_progress c progress_default) k) rd" for k
      by (simp add: set_progress_def set_reader_def consume_input_def)
    then have "n = 0 \<Longrightarrow> receiving cl (set_progress (set_reader (consume_input c (length line + 2)) rd) progress_default) f p r"
      using move [of progress_default] by (simp add: progress_default_def progress_inv_def)
    ultimately show ?thesis
      using find line lim dr by (simp add: read_chunk_size_def Let_def same)
  qed
qed


lemma poll_parsed: "parsed (snd (poll p d skip)) = parsed p"
  by (induction p rule: poll_induct [of d]) (auto simp: poll_end poll_byte poll_line next_line_def)

lemma due_parsed: "parsed p \<le> 1 \<Longrightarrow> length d \<le> 1 \<Longrightarrow> parsed (snd (due p d skip)) \<le> 1"
  using poll_parsed [of p d skip] by (auto simp: due_def split: prod.splits)

lemma due_early: "parsed p \<le> 1 \<Longrightarrow> 2 \<le> length d \<Longrightarrow> fst (due p d skip)"
proof -
  assume "parsed p \<le> 1" "2 \<le> length d"
  then have "saturating_mul (parsed p) 2 \<le> length d" by (simp add: saturating_mul_def)
  then show ?thesis by (simp add: due_def)
qed

lemma poll_crlf: "fst (poll progress_default (CRLF @ x) False) = Some 2"
  by (simp add: poll_section_end blank_line_def)

lemma parse_trailers_partial:
  assumes "empty_section_ok hp" and "d = [] \<or> d = [CR]" and "slots_fit n"
  shows "parse_trailers hp d n b = Inr None"
proof -
  have "fst (poll progress_default d False) = None" using assms(2) by (auto simp: poll_section_end)
  moreover have "normalize_obs_fold d = d" using assms(2) by (auto simp: normalize_obs_fold_def)
  ultimately show ?thesis using assms by (auto simp: parse_trailers_def empty_section_ok_def)
qed

lemma parse_trailers_empty:
  assumes "empty_section_ok hp" and "slots_fit n"
  shows "\<exists>h. parse_trailers hp (CRLF @ x) n b = Inr (Some (2, h)) \<and> headers_iter h = []"
proof -
  have "normalize_obs_fold CRLF = CRLF" by (simp add: normalize_obs_fold_def)
  moreover have "copy_headers CRLF [] False = Inr (from_section [] [])"
    by (simp add: copy_headers_def copy_section_def slice_def)
  moreover have "headers_iter (from_section [] []) = []" by (simp add: from_section_def headers_iter_def)
  ultimately show ?thesis
    using assms poll_crlf [of x] by (auto simp: parse_trailers_def empty_section_ok_def Let_def)
qed

lemma section_due_progress:
  "section_due c skip = (set_progress c (progress (cycle (fst (section_due c skip)))), snd (section_due c skip))"
  by (auto simp: section_due_def set_progress_def split: prod.splits)

lemma trailers_deliver:
  assumes "receiving cl c f p r" and "cyc_reader (cycle c) = ReadChunked Trailers" and "empty_section_ok hp"
  shows "delivers cl f p r (read_trailers hp c)"
proof -
  let ?d = "input_bytes c"
  from assms have s: "?d @ f = CRLF @ r" "p = []" "parsed (progress (cycle c)) \<le> 1" "progress_inv (progress (cycle c))"
    "16 \<le> max_head_bytes (limits c)" "peer_state c = SendBody" "buffer_inv (conn_input c)"
    "slots_fit (max_header_count (limits c))"
    by (auto simp: receiving_def conn_base_def)
  define pr where "pr = progress (cycle (fst (section_due c False)))"
  define due where "due = snd (section_due c False)"
  have sd: "section_due c False = (set_progress c pr, due)"
    unfolding pr_def due_def by (rule section_due_progress)
  have "progress_inv pr"
    using s(4) due_inv [of "progress (cycle c)" ?d False]
    by (auto simp: pr_def section_due_def set_progress_def split: prod.splits)
  show ?thesis
  proof (cases "length ?d < 2")
    case True
    have f: "f \<noteq> []" "\<not> eof c" using arg_cong [OF s(1), of length] True assms(1) by (auto simp: receiving_def)
    have d: "?d = [] \<or> ?d = [CR]" using s(1) True by (cases ?d) auto
    have "parsed pr \<le> 1"
      using s(3) True due_parsed [of "progress (cycle c)" ?d False]
      by (auto simp: pr_def section_due_def set_progress_def split: prod.splits)
    then have rc: "receiving cl (set_progress c pr) f p r"
      using assms \<open>progress_inv pr\<close>
      by (simp add: receiving_def conn_base_def local_state_def peer_state_def set_progress_def)
    have sec: "head_section (set_progress c pr) = ?d"
      using True s(5) by (simp add: head_section_def Let_def)
    have "wait_for_section (set_progress c pr) False = need_data_or_eof (set_progress c pr) ''unexpected EOF in trailers''"
      using True s(5) by (simp add: wait_for_section_def)
    with need_data_delivers [OF rc] f parse_trailers_partial [OF assms(3) d s(8)] sec show ?thesis
      by (auto simp: read_trailers_def sd)
  next
    case False
    define dr where "dr = drop 2 ?d"
    have dr: "?d = CRLF @ dr" "dr @ f = r"
      using False arg_cong [OF s(1), of "take 2"] arg_cong [OF s(1), of "drop 2"] append_take_drop_id [of 2 ?d]
      by (simp_all add: dr_def)
    have due
      using due_early [OF s(3), of ?d False] False
      by (auto simp: due_def section_due_def split: prod.splits)
    have "\<exists>x. head_section (set_progress c pr) = CRLF @ x"
      using s(5) by (simp add: head_section_def Let_def dr(1) take_Cons split: nat.split)
    then obtain x where x: "head_section (set_progress c pr) = CRLF @ x" ..
    obtain h where h: "parse_trailers hp (CRLF @ x) (max_header_count (limits c)) (role c = Client) = Inr (Some (2, h))"
      "headers_iter h = []"
      using parse_trailers_empty [OF assms(3) s(8)] by blast
    have "delivers cl f p r (finish_peer (set_progress (consume_input (set_progress c pr) 2) progress_default) h)"
      unfolding s(2) using s(6,7) dr h(2) by (intro finish_peer_delivers) (auto simp: consume_input_def peer_state_def)
    with \<open>due\<close> x h show ?thesis by (simp add: read_trailers_def sd)
  qed
qed


lemma read_body_continues:
  assumes "receiving cl c f p r" and "empty_section_ok hp"
  shows "continues cl f p r (read_body hp c)"
proof (cases "cyc_reader (cycle c)")
  case ReadHead
  with assms show ?thesis by (simp add: receiving_def)
next
  case (ReadFixed n)
  show ?thesis
  proof (cases "n = 0")
    case True
    with ReadFixed assms have "p = []" "input_bytes c @ f = r" "peer_state c = SendBody" "buffer_inv (conn_input c)"
      by (auto simp: receiving_def conn_base_def)
    with finish_peer_delivers [of c f r headers_new] ReadFixed True show ?thesis
      by (auto simp: read_body_def Let_def headers.empty_iter intro!: continues_stop)
  next
    case False
    with ReadFixed fixed_delivers [OF assms(1) ReadFixed] show ?thesis
      by (simp add: read_body_def Let_def continues_stop)
  qed
next
  case (ReadChunked ch)
  with assms show ?thesis
    by (cases ch) (auto simp: read_body_def Let_def read_chunked_def size_continues data_end_continues
        intro!: continues_stop chunk_data_delivers trailers_deliver)
next
  case ReadCloseDelimited
  show ?thesis
  proof (cases "input_bytes c = []")
    case True
    with ReadCloseDelimited assms have "\<not> eof c \<Longrightarrow> cl" and "p = f" "r = []" "peer_state c = SendBody" "eof c \<Longrightarrow> f = []"
      "buffer_inv (conn_input c)"
      by (auto simp: receiving_def conn_base_def)
    with True ReadCloseDelimited assms(1) finish_peer_delivers [of c "[]" "[]" headers_new] show ?thesis
      by (auto simp: read_body_def Let_def headers.empty_iter intro!: continues_stop)
  next
    case False
    with close_delivers [OF assms(1) ReadCloseDelimited] ReadCloseDelimited show ?thesis
      by (simp add: read_body_def Let_def continues_stop)
  qed
qed

lemma next_event_inner_delivers:
  "receiving cl c f p r \<Longrightarrow> empty_section_ok hp \<Longrightarrow> delivers cl f p r (next_event_inner hp c)"
proof (induction hp c rule: next_event_inner.induct)
  case (1 hp c)
  have none: "poll_peer_state c = None" using 1(2) by (simp add: poll_peer_state_def receiving_def)
  obtain c1 x where b: "read_body hp c = (c1, x)" by fastforce
  with read_body_continues [OF 1(2,3)] have ok: "continues cl f p r (c1, x)" by simp
  show ?case
  proof (cases x)
    case None
    with ok 1(1) [OF none b [symmetric] None] 1(3) show ?thesis
      by (subst next_event_inner.simps) (simp add: none b)
  next
    case (Some y)
    with ok show ?thesis by (subst next_event_inner.simps) (simp add: none b)
  qed
qed

text \<open>The result of a poll while a body is pending.\<close>

lemma next_event_delivers:
  assumes "receiving cl c f p r" and "empty_section_ok hp"
  obtains (piece) c' d s e where "next_event hp c = (c', Inr (NextEvent (EventData d s e)))" "d \<noteq> []"
      "\<exists>p'. p = d @ p' \<and> receiving cl c' f p' r"
    | (finished) c' h where "next_event hp c = (c', Inr (NextEvent (EventEndOfMessage h)))" "headers_iter h = []"
      "p = []" "input_bytes c' @ f = r" "buffer_inv (conn_input c')" "peer_state c' \<noteq> SendBody"
    | (wait) c' where "next_event hp c = (c', Inr NeedData)" "receiving cl c' f p r"
      "f = [] \<Longrightarrow> cl"
proof -
  obtain c1 x where n: "next_event_inner hp c = (c1, x)" by fastforce
  with next_event_inner_delivers [OF assms] have ok: "delivers cl f p r (c1, x)" by simp
  show thesis
  proof (cases x)
    case (Inl e)
    with ok show ?thesis by (simp add: delivers_def)
  next
    case (Inr y)
    show ?thesis
    proof (cases y)
      case (PolledEvent ev)
      with ok Inr n show ?thesis
        by (cases ev) (auto simp: next_event_def delivers_def intro: finished)
    next
      case (PolledData k s e)
      let ?d = "take k (input_bytes c1)"
      have "next_event hp c = (c1\<lparr>conn_input := consume (conn_input c1) k\<rparr>, Inr (NextEvent (EventData ?d s e)))"
        using Inr PolledData n by (simp add: next_event_def buffer_take_eq)
      moreover have "?d \<noteq> []" using ok Inr PolledData by auto
      moreover have "\<exists>p'. p = ?d @ p' \<and> receiving cl (c1\<lparr>conn_input := consume (conn_input c1) k\<rparr>) f p' r"
        using ok Inr PolledData by (metis delivers_simps(1))
      ultimately show ?thesis by (rule piece)
    next
      case PolledNeedData
      with ok Inr n show ?thesis by (auto simp: next_event_def intro: wait)
    next
      case PolledPaused
      with ok Inr show ?thesis by (simp add: delivers_def)
    qed
  qed
qed


section \<open>A transfer\<close>

text \<open>
  The receiver of a body, the bytes that have not arrived, and the data delivered so far.
  Bytes arrive in any segmentation, the peer may close when all have arrived, and the
  application polls when it likes.
\<close>

datatype transfer_op = Arrive nat | PeerCloses | Poll

type_synonym transfer_state = "Connection \<times> bytes \<times> bytes"

fun transfer_step :: "httparse \<Rightarrow> transfer_state \<Rightarrow> transfer_op \<Rightarrow> transfer_state option" where
  "transfer_step hp (c, future, got) (Arrive k) =
     (if 0 < k \<and> k \<le> length future then
        (case receive_data c (take k future) of
           (c', Inr _) \<Rightarrow> Some (c', drop k future, got)
         | (c', Inl _) \<Rightarrow> None)
      else None)"
| "transfer_step hp (c, future, got) PeerCloses =
     (if future = [] then
        (case receive_data c [] of (c', Inr _) \<Rightarrow> Some (c', future, got) | (c', Inl _) \<Rightarrow> None)
      else None)"
| "transfer_step hp (c, future, got) Poll =
     (if peer_state c \<noteq> SendBody then None
      else case next_event hp c of
             (c', Inr (NextEvent (EventData d _ _))) \<Rightarrow> Some (c', future, got @ d)
           | (c', Inr (NextEvent (EventEndOfMessage h))) \<Rightarrow> if headers_iter h = [] then Some (c', future, got) else None
           | (c', Inr NeedData) \<Rightarrow> Some (c', future, got)
           | _ \<Rightarrow> None)"

fun transfer_inv :: "bool \<Rightarrow> bytes \<Rightarrow> bytes \<Rightarrow> transfer_state \<Rightarrow> bool" where
  "transfer_inv cl body rest (c, future, got) \<longleftrightarrow>
     (if peer_state c = SendBody then \<exists>p cl'. body = got @ p \<and> receiving cl' c future p rest \<and> (cl' \<longrightarrow> cl)
      else got = body \<and> input_bytes c @ future = rest \<and> buffer_inv (conn_input c))"

lemma scan_ok_arrive: "scan_ok rd d pr \<Longrightarrow> scan_ok rd (d @ x) pr"
  by (auto simp: scan_ok_def split: Reader.splits Chunk.splits dest!: crlf_at_append)

lemma receiving_arrive:
  assumes "receiving cl c f p r" and "0 < k" and "k \<le> length f"
  shows "receiving cl (c\<lparr>conn_input := buffer_extend (conn_input c) (take k f)\<rparr>) (drop k f) p r"
  using assms scan_ok_arrive reader_wf_mono
  by (auto simp: receiving_def conn_base_def local_state_def peer_state_def)

lemma peer_state_eof: "peer_state (record_eof c) = SendBody \<longleftrightarrow> peer_state c = SendBody"
proof -
  have "peer_state (c\<lparr>eof := True\<rparr>) = peer_state c" by (simp add: peer_state_def)
  then show ?thesis using peer_state_disable(1) [of "c\<lparr>eof := True\<rparr>"] by (simp add: record_eof_def Let_def)
qed

lemma receiving_eof:
  assumes "receiving cl c [] p r"
  shows "receiving False (record_eof c) [] p r"
proof -
  have e: "receiving False (c\<lparr>eof := True\<rparr>) [] p r"
    using assms by (simp add: receiving_def conn_base_def local_state_def peer_state_def)
  then have "receiving False (conn_disable_keep_alive (c\<lparr>eof := True\<rparr>)) [] p r"
    using conn_base_disable peer_state_disable by (auto simp: receiving_def)
  with e show ?thesis by (simp add: record_eof_def Let_def)
qed

lemma transfer_step_inv:
  assumes "empty_section_ok hp" and "transfer_step hp s op = Some t" and "transfer_inv cl body rest s"
  shows "transfer_inv cl body rest t"
proof -
  obtain c f g where s: "s = (c, f, g)" by (cases s)
  show ?thesis
  proof (cases op)
    case (Arrive k)
    have "peer_state (c\<lparr>conn_input := b\<rparr>) = peer_state c" for b by (simp add: peer_state_def)
    with assms s Arrive receiving_arrive [of _ c f _ rest k] show ?thesis
      by (auto simp: receive_data_def split: if_splits) blast+
  next
    case PeerCloses
    have "conn_input (record_eof c) = conn_input c" by (simp add: record_eof_def Let_def)
    with assms s PeerCloses peer_state_eof [of c] receiving_eof [of _ c _ rest] show ?thesis
      by (auto simp: receive_data_def split: if_splits) blast+
  next
    case Poll
    with assms(2,3) s have sb: "peer_state c = SendBody" by (auto split: if_splits)
    with assms(3) s obtain p cl' where p: "body = g @ p" "receiving cl' c f p rest" "cl' \<longrightarrow> cl" by auto
    from p(2) assms(1) show ?thesis
    proof (cases rule: next_event_delivers)
      case (piece c' d x e)
      then obtain p' where "p = d @ p'" "receiving cl' c' f p' rest" by blast
      moreover from this have "peer_state c' = SendBody" by (simp add: receiving_def)
      ultimately show ?thesis using assms(2) s Poll sb piece(1) p(1,3) by auto
    next
      case (finished c' h)
      then show ?thesis using assms(2) s Poll sb p(1) by auto
    next
      case (wait c')
      then have "peer_state c' = SendBody" by (simp add: receiving_def)
      with wait show ?thesis using assms(2) s Poll sb p(1,3) by auto
    qed
  qed
qed

lemma transfer_run_inv:
  assumes "empty_section_ok hp" and "exec_run (transfer_step hp) s ops = Some t" and "transfer_inv cl body rest s"
  shows "transfer_inv cl body rest t"
  using assms(2,3)
proof (induction ops arbitrary: s)
  case (Cons op ops)
  then show ?case using transfer_step_inv [OF assms(1)] by (auto split: option.splits)
qed simp

text \<open>Once all has arrived, polling on comes to the end.\<close>

lemma transfer_completes:
  assumes "empty_section_ok hp" and "receiving False c [] p r"
  shows "\<exists>n c'. exec_run (transfer_step hp) (c, [], g) (replicate n Poll) = Some (c', [], g @ p) \<and> peer_state c' \<noteq> SendBody"
  using assms(2)
proof (induction "length p" arbitrary: c p g rule: less_induct)
  case less
  have sb: "peer_state c = SendBody" using less.prems by (simp add: receiving_def)
  from less.prems assms(1) show ?case
  proof (cases rule: next_event_delivers)
    case (piece c' d x e)
    then obtain p' where p': "p = d @ p'" "receiving False c' [] p' r" by blast
    then obtain n c'' where "exec_run (transfer_step hp) (c', [], g @ d) (replicate n Poll) = Some (c'', [], (g @ d) @ p')"
      "peer_state c'' \<noteq> SendBody"
      using less.hyps [of p' c' "g @ d"] piece(2) by auto
    with sb piece(1) p'(1) show ?thesis by (intro exI [of _ "Suc n"] exI [of _ c'']) simp
  next
    case (finished c' h)
    with sb show ?thesis by (intro exI [of _ 1] exI [of _ c']) simp
  qed simp
qed


section \<open>The sender\<close>

lemma send_body_close:
  "local_state c = SendBody \<Longrightarrow> writer (cycle c) = Some CloseDelimited \<Longrightarrow>
   \<exists>c'. send_body c ds = Some (c', concat ds) \<and> writer (cycle c') = Some CloseDelimited"
proof (induction ds arbitrary: c)
  case (Cons d ds)
  let ?c = "clear_waiting (set_writer c (Some CloseDelimited))"
  have "send_data c d = (?c, Inr d)"
    using Cons.prems by (simp add: send_data_def send_data_framing_def advance_local_data)
  with Cons.IH [of ?c] Cons.prems show ?case by auto
qed simp

lemma chunked_text_filter:
  "concat (map chunk_text ds) = concat (map chunk_text (filter (\<lambda>d. d \<noteq> []) ds))"
  "concat (filter (\<lambda>d. d \<noteq> []) ds) = concat ds"
  by (induction ds) (auto simp: chunk_text_def)

lemma write_no_headers: "write_headers out headers_new = out"
  by (simp add: write_headers_def headers.empty_iter)

text \<open>What a sender puts on the wire is what a reader of the same framing waits for.\<close>

lemma sent_is_pending:
  assumes "conn_inv s" and "writer (cycle s) = Some w" and "send_message_body s ds headers_new = Some (s', wire)"
    and "\<forall>d \<in> set ds. length d \<le> usize_max" and "w = CloseDelimited \<longrightarrow> rest = []"
  shows "pending (reader w) (wire @ rest) (concat ds) rest"
proof (cases w)
  case (Fixed n)
  with send_message_body_fixed [OF assms(1)] assms(2,3) have "wire = concat ds \<and> length (concat ds) = n"
    by (metis (no_types, lifting) map_option_eq_Some option.distinct(1) option.inject snd_conv)
  with Fixed show ?thesis by (simp add: reader_def)
next
  case Chunked
  let ?es = "filter (\<lambda>d. d \<noteq> []) ds"
  have "wire = chunked_text ?es"
    using send_message_body_chunked [OF assms(1), of headers_new ds] assms(2,3) Chunked chunked_text_filter(1) [of ds]
    by (auto simp: chunked_text_def write_no_headers)
  moreover have "sendable ?es" using assms(4) by (auto simp: sendable_def list_all_iff)
  ultimately show ?thesis
    using Chunked chunked_text_filter(2) [of ds] by (auto simp: reader_def pending_def intro!: exI [of _ ?es])
next
  case CloseDelimited
  obtain c1 where "send_body s ds = Some (c1, concat ds)" "writer (cycle c1) = Some CloseDelimited"
    using send_body_close [OF writer_local [OF assms(1,2)]] assms(2) CloseDelimited by blast
  with assms(3) have "wire = concat ds"
    by (auto simp: send_message_body_def end_of_message_def split: prod.splits sum.splits)
  with CloseDelimited assms(5) show ?thesis by (simp add: reader_def)
qed

text \<open>
  A receiver at the start of a body, with nothing buffered, whose limits let it read what a sender
  writes: the longest chunk-size line, 16 digits, and an empty trailer section.
\<close>

definition ready :: "Connection \<Rightarrow> Framing \<Rightarrow> bool" where
  "ready c w \<longleftrightarrow> conn_inv c \<and> peer_state c = SendBody \<and> cyc_reader (cycle c) = reader w \<and> input_bytes c = []
     \<and> \<not> eof c \<and> 16 \<le> max_head_bytes (limits c) \<and> slots_fit (max_header_count (limits c))
     \<and> chunk_extension_bytes (cycle c) = 0"

lemma ready_receiving:
  assumes "ready c w" and "pending (reader w) stream payload rest"
  shows "receiving (w = CloseDelimited) c stream payload rest"
proof -
  have "scan_ok (reader w) [] pr" "(reader w = ReadCloseDelimited) = (w = CloseDelimited)" for pr
    by (cases w; simp add: reader_def)+
  with assms show ?thesis by (simp add: ready_def receiving_def conn_inv_def)
qed

lemma transfer_start:
  assumes "conn_inv s" and "writer (cycle s) = Some w" and "send_message_body s ds headers_new = Some (s', wire)"
    and "\<forall>d \<in> set ds. length d \<le> usize_max" and "w = CloseDelimited \<longrightarrow> rest = []" and "ready c w"
  shows "transfer_inv (w = CloseDelimited) (concat ds) rest (c, wire @ rest, [])"
  using ready_receiving [OF assms(6) sent_is_pending [OF assms(1-5)]] assms(6)
  by (auto simp: ready_def)

section \<open>Properties\<close>

text \<open>
  C4: a body arrives as it was sent. Whatever pieces one end sends under a framing, and
  however their bytes are cut up in transit and interleaved with polls, the data the other
  end has delivered is always a prefix of the body; no poll fails; when the end of the
  message is reported the data is the whole body, and exactly the bytes of the body have
  been consumed, whatever follows them; and from the moment they have all arrived (for a
  body delimited by the close, and the close has) polling on reaches that end. The receiving
  end is at the start of the body and its limits leave room for a chunk-size line of 16 digits
  and for the slots of the fields (\<open>ready\<close>).
\<close>

theorem body_transfer:
  assumes "empty_section_ok hp" and "conn_inv s" and "writer (cycle s) = Some w"
    and "send_message_body s ds headers_new = Some (s', wire)"
    and "\<forall>d \<in> set ds. length d \<le> usize_max" and "w = CloseDelimited \<longrightarrow> rest = []" and "ready c w"
    and "exec_run (transfer_step hp) (c, wire @ rest, []) ops = Some (c', future, got)"
  shows "if peer_state c' = SendBody
    then (\<exists>more. concat ds = got @ more) \<and> (\<exists>ev. snd (next_event hp c') = Inr ev)
      \<and> (future = [] \<and> (w = CloseDelimited \<longrightarrow> eof c') \<longrightarrow>
          (\<exists>n c''. exec_run (transfer_step hp) (c', future, got) (replicate n Poll) = Some (c'', future, concat ds)
            \<and> peer_state c'' \<noteq> SendBody))
    else got = concat ds \<and> input_bytes c' @ future = rest"
proof (cases "peer_state c' = SendBody")
  case True
  with transfer_run_inv [OF assms(1,8) transfer_start [OF assms(2-7)]] obtain p cl where
    p: "concat ds = got @ p" "receiving cl c' future p rest" "cl \<longrightarrow> w = CloseDelimited"
    by auto
  have "\<exists>ev. snd (next_event hp c') = Inr ev"
    using p(2) assms(1) by (cases rule: next_event_delivers) auto
  moreover have "\<not> cl" if "w = CloseDelimited \<longrightarrow> eof c'"
    using that p(2,3) by (auto simp: receiving_def)
  ultimately show ?thesis
    using True p(1,2) transfer_completes [OF assms(1), of c' p rest got] by auto
next
  case False
  with transfer_run_inv [OF assms(1,8) transfer_start [OF assms(2-7)]] show ?thesis by auto
qed


definition sample_sender :: Connection where
  "sample_sender = fst (send_response sample_server sample_ok)"

definition sample_receiver :: Connection where
  "sample_receiver = (connection_new Client \<lparr>max_head_bytes = 100, max_header_count = 10\<rparr>)
     \<lparr>conn_state := \<lparr>client = Done, server = SendBody, cs_keep_alive = True, proposals = proposals_none\<rparr>,
      cycle := cycle_default\<lparr>request_kind := Some KindOther, cyc_reader := ReadChunked (Size 0)\<rparr>,
      peer_version := Some Http11\<rparr>"

lemma sample_sender_inv: "conn_inv sample_sender" "writer (cycle sample_sender) = Some Chunked"
  unfolding sample_sender_def
   apply (metis prod.collapse sample_server_inv send_response_inv)
  apply code_simp
  done

lemma sample_receiver_ready: "ready sample_receiver Chunked"
  by code_simp

lemma sample_empty_section: "empty_section_ok sample_httparse"
  by (simp add: empty_section_ok_def sample_httparse_def)

definition sample_wire :: bytes where
  "sample_wire = ''2'' @ CRLF @ ''he'' @ CRLF @ ''3'' @ CRLF @ ''llo'' @ CRLF @ ''0'' @ CRLF @ CRLF"

definition sample_transfer :: "transfer_state option" where
  "sample_transfer = exec_run (transfer_step sample_httparse) (sample_receiver, sample_wire, [])
     [Arrive 7, Arrive 13]"


lemma sample_transfer_midway:
  "case sample_transfer of
     Some (c', future, got) \<Rightarrow> peer_state c' = SendBody \<and> future = [] \<and> got = [] | None \<Rightarrow> False"
  by code_simp

lemma sample_wire_sent: "\<exists>s'. send_message_body sample_sender [''he'', ''llo''] headers_new = Some (s', sample_wire)"
proof -
  have "sample_wire = concat (map chunk_text [''he'', ''llo'']) @ write_headers (''0'' @ CRLF) headers_new @ CRLF"
    by code_simp
  with send_message_body_chunked [OF sample_sender_inv validate_no_trailers] show ?thesis by metis
qed

theorem body_transfer_witness:
  "\<exists>c' n c''. sample_transfer = Some (c', [], [])
     \<and> exec_run (transfer_step sample_httparse) (c', [], []) (replicate n Poll) = Some (c'', [], ''hello'')
     \<and> peer_state c'' \<noteq> SendBody"
proof -
  obtain s' where m: "send_message_body sample_sender [''he'', ''llo''] headers_new = Some (s', sample_wire)"
    using sample_wire_sent by blast
  obtain c' where r: "sample_transfer = Some (c', [], [])" "peer_state c' = SendBody"
    using sample_transfer_midway by (auto split: option.splits)
  have "length d \<le> usize_max" if "d \<in> set [''he'', ''llo'']" for d using that by (auto simp: usize_max_def)
  with body_transfer [OF sample_empty_section sample_sender_inv m _ _ sample_receiver_ready, of "[]" "[Arrive 7, Arrive 13]" c' "[]" "[]"] r(2)
    r(1) [unfolded sample_transfer_def]
  obtain n c'' where "exec_run (transfer_step sample_httparse) (c', [], []) (replicate n Poll) = Some (c'', [], ''hello'')"
    "peer_state c'' \<noteq> SendBody" by (auto simp del: exec_run.simps)
  with r(1) show ?thesis by blast
qed

end
