(* ===== verification/H11r_Engine.thy ===== *)
theory H11r_Engine
  imports H11r_Transfer
begin

text \<open>
  The engine as a whole: the calls an application makes on a connection, in any order, as a
  labelled step relation whose labels carry what each call returned. Every call keeps the
  connection's invariant, and takes the connection's state along steps of the lifecycle.
\<close>

section \<open>Steps of a connection\<close>

datatype connection_label =
    Received bytes "LocalProtocolError + unit"
  | HeldBack nat "bool option"
  | TakenInPlace nat "LocalProtocolError + bool \<times> bool"
  | PollResult "recv_error + NextEvent"
  | SendResult send_op "LocalProtocolError + bytes"
  | CycleResult "LocalProtocolError + unit"
  | CloseResult "LocalProtocolError + unit"

inductive connection_step :: "httparse \<Rightarrow> Connection \<Rightarrow> connection_label \<Rightarrow> Connection \<Rightarrow> bool" for hp where
  received: "receive_data c d = (c', r) \<Longrightarrow> connection_step hp c (Received d r) c'"
| held_back: "hold_body_data c n = (c', b) \<Longrightarrow> connection_step hp c (HeldBack n b) c'"
| taken: "next_event_in_place c n = (c', p) \<Longrightarrow> connection_step hp c (TakenInPlace n p) c'"
| polled: "next_event hp c = (c', e) \<Longrightarrow> connection_step hp c (PollResult e) c'"
| sent: "send c op = (c', x) \<Longrightarrow> connection_step hp c (SendResult op x) c'"
| cycled: "start_next_cycle c = (c', r) \<Longrightarrow> connection_step hp c (CycleResult r) c'"
| closed: "close c = (c', r) \<Longrightarrow> connection_step hp c (CloseResult r) c'"

inductive_simps connection_step_simps [simp]:
  "connection_step hp c (Received d r) c'"
  "connection_step hp c (HeldBack n b) c'"
  "connection_step hp c (TakenInPlace n p) c'"
  "connection_step hp c (PollResult e) c'"
  "connection_step hp c (SendResult op x) c'"
  "connection_step hp c (CycleResult r) c'"
  "connection_step hp c (CloseResult r) c'"

text \<open>The same as a function, so that runs compute: a call with another result is \<open>None\<close>.\<close>

definition expect_result :: "'r \<Rightarrow> Connection \<times> 'r \<Rightarrow> Connection option" where
  "expect_result r x = (if snd x = r then Some (fst x) else None)"

fun connection_apply :: "httparse \<Rightarrow> Connection \<Rightarrow> connection_label \<Rightarrow> Connection option" where
  "connection_apply hp c (Received d r) = expect_result r (receive_data c d)"
| "connection_apply hp c (HeldBack n b) = expect_result b (hold_body_data c n)"
| "connection_apply hp c (TakenInPlace n p) = expect_result p (next_event_in_place c n)"
| "connection_apply hp c (PollResult e) = expect_result e (next_event hp c)"
| "connection_apply hp c (SendResult op x) = expect_result x (send c op)"
| "connection_apply hp c (CycleResult r) = expect_result r (start_next_cycle c)"
| "connection_apply hp c (CloseResult r) = expect_result r (close c)"

lemma expect_result_iff: "expect_result r x = Some c' \<longleftrightarrow> x = (c', r)"
  by (cases x) (auto simp: expect_result_def)

interpretation connection_exec: executable_step "connection_step hp" "connection_apply hp" for hp
proof
  fix c l c' show "connection_step hp c l c' \<longleftrightarrow> connection_apply hp c l = Some c'"
    by (cases l) (simp_all add: expect_result_iff)
qed

lemma connection_step_inv:
  assumes "httparse_ok hp" and "connection_step hp c l c'" and "conn_inv c"
  shows "conn_inv c' \<and> (roomy c' \<longrightarrow> l \<noteq> PollResult (Inl Panic))"
  using assms(2)
proof cases
  case (polled e)
  with next_event_safe [OF assms(1,3)] show ?thesis by auto
next
  case (received d r)
  with receive_data_inv [OF assms(3), of d] show ?thesis by simp
next
  case (held_back n b)
  with hold_body_data_inv [OF assms(3), of n] show ?thesis by simp
next
  case (taken n p)
  with next_event_in_place_inv [OF assms(3), of n] show ?thesis by simp
next
  case (sent op x)
  with send_inv [OF assms(3)] show ?thesis by simp
next
  case (cycled r)
  with start_next_cycle_inv [OF assms(3)] show ?thesis by simp
next
  case (closed r)
  with close_inv [OF assms(3)] show ?thesis by simp
qed

interpretation safe: step_invariant "connection_step hp" "\<lambda>c. httparse_ok hp \<and> conn_inv c" for hp
  by unfold_locales (use connection_step_inv in blast)

section \<open>The lifecycle a connection goes through\<close>

text \<open>
  \<open>moves s q a t\<close>: the lifecycle can go from \<open>s\<close> to \<open>t\<close> by steps of which \<open>q\<close> are requests
  and at least \<open>a\<close> final answers.
\<close>

definition moves :: "ConnectionState \<Rightarrow> nat \<Rightarrow> nat \<Rightarrow> ConnectionState \<Rightarrow> bool" where
  "moves s q a t \<longleftrightarrow>
     (\<exists>ops. run lifecycle s ops t \<and> length (filter is_request ops) = q \<and> a \<le> length (filter is_final ops))"

lemma moves_refl: "moves s 0 0 s"
  unfolding moves_def by (rule exI [of _ "[]"]) (simp add: run.run_nil)

lemma moves_trans:
  assumes "moves s q a t" and "moves t q' a' u"
  shows "moves s (q + q') (a + a') u"
proof -
  from assms obtain ops ops' where
    "run lifecycle s ops t" "length (filter is_request ops) = q" "a \<le> length (filter is_final ops)"
    "run lifecycle t ops' u" "length (filter is_request ops') = q'" "a' \<le> length (filter is_final ops')"
    by (auto simp: moves_def)
  then show ?thesis
    unfolding moves_def by (intro exI [of _ "ops @ ops'"]) (auto intro: run_append)
qed

lemma moves_less: "moves s q a t \<Longrightarrow> a' \<le> a \<Longrightarrow> moves s q a' t"
  unfolding moves_def using order_trans by blast

lemma moves_step: "lifecycle s op t \<Longrightarrow> moves s (of_bool (is_request op)) (of_bool (is_final op)) t"
  unfolding moves_def
  by (intro exI [of _ "[op]"]) (auto simp: of_bool_def intro: run_Cons run.run_nil)

lemma moves_event: "process_event s r e = Inr t \<Longrightarrow>
    moves s (of_bool (is_request (Accept r e))) (of_bool (is_final (Accept r e))) t"
  by (rule moves_step) (simp add: lifecycle.accept)

lemma moves_disable: "moves s 0 0 (disable_keep_alive s)"
  using moves_step [of s DisableKeepAlive] by (simp add: no_answer)

lemma moves_error: "moves s 0 0 (process_error s r)"
  using moves_step [of s "Fail r"] by (simp add: no_answer)

lemma moves_then_disable: "moves s q a t \<Longrightarrow> moves s q a (disable_keep_alive t)"
  using moves_trans [OF _ moves_disable] by fastforce

text \<open>What an operation does to the connection's state: the role stays.\<close>

definition advances :: "Connection \<Rightarrow> nat \<Rightarrow> nat \<Rightarrow> Connection \<Rightarrow> bool" where
  "advances c q a c' \<longleftrightarrow> role c' = role c \<and> moves (conn_state c) q a (conn_state c')"

lemma advances_refl: "role c' = role c \<Longrightarrow> conn_state c' = conn_state c \<Longrightarrow> advances c 0 0 c'"
  by (simp add: advances_def moves_refl)

lemma advances_trans: "advances c q a d \<Longrightarrow> advances d q' a' e \<Longrightarrow> advances c (q + q') (a + a') e"
  by (auto simp: advances_def intro: moves_trans)

lemma advances_disable: "advances c q a c' \<Longrightarrow> advances c q a (conn_disable_keep_alive c')"
  by (simp add: advances_def moves_then_disable conn_disable_keep_alive_def)

lemma advance_peer_advances:
  assumes "advance_peer c e = (c', Inr x)"
  shows "advances c (of_bool (is_request (Accept (peer (role c)) e))) (of_bool (is_final (Accept (peer (role c)) e))) c'"
  by (rule advance_peer_cases [OF assms]) (auto simp: advances_def moves_event)

lemma advance_peer_stays: "advance_peer c e = (c', Inl x) \<Longrightarrow> c' = c"
  by (erule advance_peer_cases) auto

lemma advance_local_advances:
  assumes "advance_local c e = (c', Inr x)"
  shows "advances c (of_bool (is_request (Accept (role c) e))) (of_bool (is_final (Accept (role c) e))) c'"
  by (rule advance_local_cases [OF assms]) (auto simp: advances_def moves_event)

text \<open>The requests and final answers among the events of the peer.\<close>

fun event_asks :: "Event \<Rightarrow> nat" where
  "event_asks (EventRequest r) = 1"
| "event_asks _ = 0"

fun event_answers :: "Event \<Rightarrow> nat" where
  "event_answers (EventResponse r) = 1"
| "event_answers (EventInformationalResponse r) = of_bool (as_u16 (resp_status r) = 101)"
| "event_answers _ = 0"

definition poll_mark :: "(Event \<Rightarrow> nat) \<Rightarrow> polled_result \<Rightarrow> nat" where
  "poll_mark f r = (case r of Inr (PolledEvent e) \<Rightarrow> f e | _ \<Rightarrow> 0)"

lemma poll_mark_simps [simp]:
  "poll_mark f (Inl e) = 0" "poll_mark f (Inr (PolledEvent ev)) = f ev"
  "poll_mark f (Inr (PolledData n b c)) = 0" "poll_mark f (Inr PolledNeedData) = 0"
  "poll_mark f (Inr PolledPaused) = 0"
  by (simp_all add: poll_mark_def)

definition poll_advances :: "Connection \<Rightarrow> Connection \<times> polled_result \<Rightarrow> bool" where
  "poll_advances c x = (case x of (c', r) \<Rightarrow> advances c (poll_mark event_asks r) (poll_mark event_answers r) c')"

lemma poll_advances_simp [simp]:
  "poll_advances c (c', r) = advances c (poll_mark event_asks r) (poll_mark event_answers r) c'"
  by (simp add: poll_advances_def)

lemma poll_advances_from:
  "role d = role c \<Longrightarrow> conn_state d = conn_state c \<Longrightarrow> poll_advances d x = poll_advances c x"
  by (cases x) (simp add: advances_def)

lemma request_accepted: "process_event s r (Request p) = Inr t \<Longrightarrow> is_request (Accept r (Request p))"
  by (simp add: process_event_request is_request_def)

lemma final_accepted:
  "process_event s r Response = Inr t \<Longrightarrow> is_final (Accept r Response)"
  "process_event s r (ProtocolSwitch k) = Inr t \<Longrightarrow> is_final (Accept r (ProtocolSwitch k))"
  by (simp_all add: process_event_response process_event_switch is_final_def)

lemma request_not_final [simp]: "\<not> is_final (Accept r (Request p))" "\<not> is_request (Accept r Response)"
  "\<not> is_request (Accept r (ProtocolSwitch k))"
  by (simp_all add: is_final_def is_request_def)

lemma need_data_advances [simp]: "poll_advances c (need_data_or_eof c' m) = advances c 0 0 c'"
  by (simp add: need_data_or_eof_def)

lemma finish_peer_advances: "poll_advances c (finish_peer c h)"
proof -
  obtain c' r where a: "advance_peer c EndOfMessage = (c', r)" by fastforce
  show ?thesis
  proof (cases r)
    case (Inr x)
    with advance_peer_advances [of c EndOfMessage c' x] a show ?thesis
      by (simp add: finish_peer_def no_answer) (simp add: advances_def)
  qed (use a in \<open>auto simp: finish_peer_def dest: advance_peer_stays intro: advances_refl\<close>)
qed

lemma peer_closed_advances: "poll_advances c (peer_closed c)"
proof -
  obtain c' r where a: "advance_peer c ConnectionClosed = (c', r)" by fastforce
  show ?thesis
  proof (cases r)
    case (Inr x)
    with advance_peer_advances [of c ConnectionClosed c' x] a show ?thesis
      by (simp add: peer_closed_def no_answer)
  qed (use a in \<open>auto simp: peer_closed_def dest: advance_peer_stays intro: advances_refl\<close>)
qed

lemma peer_data_advances: "poll_advances c (peer_data c n b e)"
proof -
  obtain c' r where a: "advance_peer c Data = (c', r)" by fastforce
  then have "c' = c" by (rule advance_peer_cases) (auto simp: process_event_data)
  with a show ?thesis by (auto simp: peer_data_def intro: advances_refl split: sum.split)
qed

lemma advance_payload_state:
  "advance_payload c n = (c', k, b, e) \<Longrightarrow> role c' = role c \<and> conn_state c' = conn_state c"
  by (auto simp: advance_payload_def Let_def split: Reader.splits Chunk.splits)

lemma read_payload_advances: "poll_advances c (read_payload c m)"
proof -
  obtain c' k b e where a: "advance_payload c (length (input_bytes c)) = (c', k, b, e)"
    by (cases "advance_payload c (length (input_bytes c))")
  with advance_payload_state [OF a] poll_advances_from [of c' c "peer_data c' k b e"] peer_data_advances [of c' k b e]
  show ?thesis by (simp add: read_payload_def advances_refl)
qed

lemma section_due_state:
  "section_due c skip = (c', b) \<Longrightarrow> role c' = role c \<and> conn_state c' = conn_state c \<and> limits c' = limits c
     \<and> conn_input c' = conn_input c \<and> cyc_reader (cycle c') = cyc_reader (cycle c) \<and> eof c' = eof c
     \<and> lenient c' = lenient c"
  by (auto simp: section_due_def set_progress_def split: if_splits prod.splits)

lemma wait_for_section_advances: "advances c 0 0 c' \<Longrightarrow> poll_advances c (wait_for_section c' skip)"
  by (simp add: wait_for_section_def Let_def)

lemma record_request_advances: "advances c q a c' \<Longrightarrow> advances c q a (record_request c' m v f b u)"
  by (simp add: record_request_def Let_def advances_def moves_then_disable conn_disable_keep_alive_def)

lemma accept_request_cases:
  assumes "accept_request c r = (c', x)"
  obtains e where "x = Inl (Remote e)" "c' = c"
  | b u c1 where "x = Inr (PolledEvent (EventRequest r))"
      "valid_request_target (as_bytes (req_method r)) (req_target r)"
      "valid_host (scan (req_headers r)) (req_version r)"
      "framing (scan (req_headers r)) (req_version r) False = Inr b"
      "\<not> content_forbidden (req_method r) b"
      "advance_peer c (request_event (req_method r) u) = (c1, Inr ())"
      "c' = set_reader ((record_request c1 (req_method r) (req_version r) (scan (req_headers r)) b u)
              \<lparr>peer_version := Some (req_version r)\<rparr>) (reader b)"
proof (cases "framing (scan (req_headers r)) (req_version r) False")
  case (Inl e)
  with assms that(1) show thesis by (auto simp: accept_request_def Let_def split: if_splits)
next
  case (Inr b)
  define u where "u = (if req_version r = Http11 \<and> fld_upgrade (scan (req_headers r))
       then (case upgrade_protocols (req_headers r) of None \<Rightarrow> [] | Some u \<Rightarrow> u) else [])"
  obtain c1 y where a: "advance_peer c (request_event (req_method r) u) = (c1, y)" by fastforce
  show thesis
  proof (cases y)
    case (Inl e)
    from assms a Inr Inl advance_peer_stays [OF a [unfolded Inl]] that(1) show thesis
      unfolding accept_request_def Let_def u_def [symmetric] by (auto split: if_splits)
  next
    case (Inr z)
    from assms a \<open>framing _ _ _ = Inr b\<close> Inr that show thesis
      unfolding accept_request_def Let_def u_def [symmetric] by (auto split: if_splits)
  qed
qed

lemma accept_request_advances: "poll_advances c (accept_request c r)"
proof -
  obtain c' x where acc: "accept_request c r = (c', x)" by fastforce
  then show ?thesis
  proof (rule accept_request_cases)
    fix e assume "x = Inl (Remote e)" "c' = c"
    then show ?thesis by (simp add: acc advances_refl)
  next
    fix b u c1
    assume x: "x = Inr (PolledEvent (EventRequest r))"
      and a: "advance_peer c (request_event (req_method r) u) = (c1, Inr ())"
      and c': "c' = set_reader ((record_request c1 (req_method r) (req_version r) (scan (req_headers r)) b u)
              \<lparr>peer_version := Some (req_version r)\<rparr>) (reader b)"
    from advance_peer_advances [OF a] a have "advances c 1 0 c1"
      by (auto simp: request_event_def dest: request_accepted elim!: advance_peer_cases)
    from record_request_advances [OF this] show ?thesis
      by (simp add: x acc) (simp add: advances_def c')
  qed
qed

lemma record_informational_state [simp]:
  "role (record_informational c st) = role c" "conn_state (record_informational c st) = conn_state c"
  "role (record_response c) = role c" "conn_state (record_response c) = conn_state c"
  by (simp_all add: record_informational_def record_response_def)

lemma informational_event_final:
  assumes "informational_event c st v h = Some e" and "process_event s r e = Inr t"
  shows "is_final (Accept r e) = (as_u16 st = 101) \<and> \<not> is_request (Accept r e)"
  using assms final_accepted
  by (auto simp: informational_event_def no_answer split: if_splits)

lemma accept_informational_advances: "poll_advances c (accept_informational c r b)"
proof (cases "informational_event c (resp_status r) (resp_version r) (resp_headers r)")
  case (Some e)
  obtain c' x where a: "advance_peer c e = (c', x)" by fastforce
  then show ?thesis
  proof (rule advance_peer_cases)
    fix s assume s: "x = Inr ()" "process_event (conn_state c) (peer (role c)) e = Inr s" "c' = c\<lparr>conn_state := s\<rparr>"
    from advance_peer_advances [OF a [unfolded s(1)]] informational_event_final [OF Some s(2)]
    have "advances c 0 (of_bool (as_u16 (resp_status r) = 101)) c'" by simp
    with advances_disable [OF this] a s(1) Some show ?thesis
      by (simp add: accept_informational_def Let_def) (auto simp: advances_def of_bool_def)
  qed (use Some a in \<open>simp add: accept_informational_def advances_refl\<close>)
qed (simp add: accept_informational_def advances_refl)

lemma final_event_accepted:
  assumes "process_event s r (final_response_event c st) = Inr t"
  shows "is_final (Accept r (final_response_event c st)) \<and> \<not> is_request (Accept r (final_response_event c st))"
  using assms final_accepted by (auto simp: final_response_event_def split: if_splits)

lemma advances_state:
  "advances c q a d \<Longrightarrow> a' \<le> a \<Longrightarrow> role d' = role c \<Longrightarrow>
   conn_state d' \<in> {conn_state d, disable_keep_alive (conn_state d), disable_keep_alive (disable_keep_alive (conn_state d)),
     disable_keep_alive (disable_keep_alive (disable_keep_alive (conn_state d)))} \<Longrightarrow> advances c q a' d'"
  by (auto simp: advances_def intro!: moves_then_disable intro: moves_less)

lemma accept_final_advances: "poll_advances c (accept_final c r f d)"
proof -
  let ?e = "final_response_event c (resp_status r)"
  obtain c' x where a: "advance_peer c ?e = (c', x)" by fastforce
  then show ?thesis
  proof (rule advance_peer_cases)
    fix s assume s: "x = Inr ()" "process_event (conn_state c) (peer (role c)) ?e = Inr s" "c' = c\<lparr>conn_state := s\<rparr>"
    from advance_peer_advances [OF a [unfolded s(1)]] final_event_accepted [OF s(2)]
    have adv: "advances c 0 1 c'" by simp
    have stay: "role c' = role c" by (simp add: s(3))
    show ?thesis
      using advances_state [OF adv]
      by (cases d) (auto simp: accept_final_def a s(1) Let_def stay conn_disable_keep_alive_def)
  qed (use a in \<open>simp add: accept_final_def advances_refl\<close>)
qed

lemma accept_response_advances: "poll_advances c (accept_response c r)"
  by (simp add: accept_response_def Let_def accept_informational_advances accept_final_advances advances_refl)


lemma poll_advances_trans: "advances c 0 0 d \<Longrightarrow> poll_advances d x \<Longrightarrow> poll_advances c x"
  using advances_trans by (cases x) fastforce

lemma read_head_advances: "poll_advances c (read_head hp c)"
proof -
  obtain c1 b where due: "section_due c True = (c1, b)" by fastforce
  from section_due_state [OF due] have c1: "advances c 0 0 c1" by (intro advances_refl) auto
  have same: "poll_advances c (accept_request (set_progress (consume_input c1 n) p) r)"
    "poll_advances c (accept_response (set_progress (consume_input c1 n) p) s)" for n p r s
    by (rule poll_advances_trans [OF _ accept_request_advances] poll_advances_trans [OF _ accept_response_advances],
        use c1 in \<open>simp add: advances_def\<close>)+
  have drop: "poll_advances c (accept_response (set_progress (consume_input (conn_disable_keep_alive c1) n) p) s)"
    for n p s
    by (rule poll_advances_trans [OF _ accept_response_advances],
        use advances_disable [OF c1] in \<open>simp add: advances_def\<close>)
  have wait: "poll_advances c (wait_for_section c1 True)"
    by (rule poll_advances_trans [OF c1]) (simp add: wait_for_section_advances advances_refl)
  show ?thesis
    using same drop wait c1
    by (simp add: read_head_def due Let_def split: sum.split option.split prod.split)
qed

definition step_advances :: "Connection \<Rightarrow> Connection \<times> polled_result option \<Rightarrow> bool" where
  "step_advances c x = (case x of (c', None) \<Rightarrow> advances c 0 0 c' | (c', Some r) \<Rightarrow> poll_advances c (c', r))"

lemma step_advances_simps [simp]:
  "step_advances c (c', None) = advances c 0 0 c'" "step_advances c (c', Some r) = poll_advances c (c', r)"
  by (simp_all add: step_advances_def)

lemma step_advances_stop [simp]: "step_advances c (case x of (c', r) \<Rightarrow> (c', Some r)) = poll_advances c x"
  by (cases x) simp

lemma read_chunk_size_advances: "step_advances c (read_chunk_size c i)"
proof -
  have same: "advances c 0 0 c'" if "role c' = role c" "conn_state c' = conn_state c" for c'
    using that by (rule advances_refl)
  show ?thesis
    by (auto simp: read_chunk_size_def Let_def same consume_input_def set_reader_def set_progress_def
        split: option.split)
qed

lemma read_data_end_advances: "step_advances c (read_data_end c)"
  by (simp add: read_data_end_def advances_refl)

lemma read_trailers_advances: "poll_advances c (read_trailers hp c)"
proof -
  obtain c1 b where due: "section_due c False = (c1, b)" by fastforce
  from section_due_state [OF due] have c1: "advances c 0 0 c1" by (intro advances_refl) auto
  have same: "poll_advances c (finish_peer (set_progress (consume_input c1 n) p) h)" for n p h
    by (rule poll_advances_trans [OF _ finish_peer_advances], use c1 in \<open>simp add: advances_def\<close>)
  have wait: "poll_advances c (wait_for_section c1 False)"
    by (rule poll_advances_trans [OF c1]) (simp add: wait_for_section_advances advances_refl)
  show ?thesis
    using same wait c1 by (simp add: read_trailers_def due split: sum.split option.split prod.split)
qed

lemma read_body_advances: "step_advances c (read_body hp c)"
  by (auto simp: read_body_def Let_def read_chunked_def read_head_advances finish_peer_advances read_payload_advances
      peer_data_advances read_chunk_size_advances read_data_end_advances read_trailers_advances advances_refl
      split: Reader.split Chunk.split)

lemma poll_peer_state_advances: "poll_peer_state c = Some x \<Longrightarrow> poll_advances c x"
  using peer_closed_advances [of c]
    poll_advances_trans [OF _ peer_closed_advances, of c "consume_input c (length (input_bytes c))"]
  by (auto simp: poll_peer_state_def advances_refl split: State.splits if_splits)

lemma next_event_inner_advances: "poll_advances c (next_event_inner hp c)"
proof (induction hp c rule: next_event_inner.induct)
  case (1 hp c)
  show ?case
  proof (cases "poll_peer_state c")
    case None
    obtain c1 r where r: "read_body hp c = (c1, r)" by fastforce
    with read_body_advances [of c hp] have adv: "step_advances c (c1, r)" by simp
    show ?thesis
    proof (cases r)
      case None
      with adv 1 [OF \<open>poll_peer_state c = None\<close> r [symmetric] None] \<open>poll_peer_state c = None\<close> r show ?thesis
        by (subst next_event_inner.simps) (simp add: poll_advances_trans)
    next
      case (Some x)
      with adv None r show ?thesis by (subst next_event_inner.simps) simp
    qed
  next
    case (Some x)
    with poll_peer_state_advances [OF Some] show ?thesis by (subst next_event_inner.simps) simp
  qed
qed

definition poll_result_mark :: "(Event \<Rightarrow> nat) \<Rightarrow> recv_error + NextEvent \<Rightarrow> nat" where
  "poll_result_mark f r = (case r of Inr (NextEvent e) \<Rightarrow> f e | _ \<Rightarrow> 0)"

lemma next_event_advances:
  assumes "next_event hp c = (c', r)"
  shows "advances c (poll_result_mark event_asks r) (poll_result_mark event_answers r) c'"
proof -
  obtain c1 x where x: "next_event_inner hp c = (c1, x)" by fastforce
  with next_event_inner_advances [of c hp]
  have adv: "advances c (poll_mark event_asks x) (poll_mark event_answers x) c1" by simp
  show ?thesis
  proof (cases x)
    case (Inl e)
    have "advances c 0 0 (poison_peer c1)"
      using advances_trans [OF adv, of 0 0 "poison_peer c1"] moves_error
      by (auto simp: Inl advances_def poison_peer_def)
    with assms adv x Inl show ?thesis
      by (cases e) (auto simp: next_event_def Let_def poll_result_mark_def)
  next
    case (Inr p)
    with assms adv x show ?thesis
      by (cases p) (auto simp: next_event_def poll_result_mark_def advances_def split: prod.splits)
  qed
qed


section \<open>Sending advances the lifecycle\<close>

lemma set_writer_state [simp]:
  "role (set_writer c w) = role c" "conn_state (set_writer c w) = conn_state c"
  "role (clear_waiting c) = role c" "conn_state (clear_waiting c) = conn_state c"
  by (simp_all add: set_writer_def clear_waiting_def)

lemma send_request_advances:
  assumes "send_request c r = (c', Inr out)"
  shows "advances c 1 0 c'"
  using assms
proof (rule send_request_Inr)
  fix b u s
  assume s: "process_event (conn_state c) Client (request_event (req_method r) u) = Inr s"
    and c': "c' = set_writer (record_request (c\<lparr>conn_state := s\<rparr>) (req_method r) (req_version r) (scan (req_headers r)) b u) (Some b)"
  from moves_event [OF s] request_accepted [OF s [unfolded request_event_def]]
  have "advances c 1 0 (c\<lparr>conn_state := s\<rparr>)" by (simp add: advances_def request_event_def)
  from record_request_advances [OF this] show ?thesis by (simp add: c' advances_def)
qed

lemma send_informational_advances:
  assumes "send_informational_response c r = (c', Inr out)"
  shows "advances c 0 (of_bool (as_u16 (resp_status r) = 101)) c'"
  using assms
proof (rule send_informational_Inr)
  fix ev s
  assume ev: "informational_event c (resp_status r) (resp_version r) (resp_headers r) = Some ev"
    and s: "process_event (conn_state c) Server ev = Inr s"
    and c': "c' = record_informational (c\<lparr>conn_state := s\<rparr>) (resp_status r)"
  from moves_event [OF s] informational_event_final [OF ev s] show ?thesis by (simp add: c' advances_def)
qed

lemma send_response_advances:
  assumes "send_response c r = (c', Inr out)"
  shows "advances c 0 1 c'"
  using assms
proof (rule send_response_Inr)
  fix h1 h2 b s
  assume s: "process_event (conn_state c) Server (final_response_event c (resp_status r)) = Inr s"
    and f: "finish_response_head (c\<lparr>conn_state := s\<rparr>) r (scan (resp_headers r)) h2 b
       (opens_tunnel c (resp_status r)) (peer_is_http11 c r) = (c', out)"
  from moves_event [OF s] final_event_accepted [OF s] have "moves (conn_state c) 0 1 s" by simp
  with f moves_then_disable [OF this] show ?thesis
    by (auto simp: finish_response_head_def Let_def advances_def conn_disable_keep_alive_def split: if_splits)
qed

lemma send_data_framing_advances: "send_data_framing c n = (c', Inr ps) \<Longrightarrow> advances c 0 0 c'"
  by (erule send_data_framing_Inr) (simp add: advances_refl)

lemma end_of_message_advances:
  assumes "end_of_message c h = (c', Inr out)"
  shows "advances c 0 0 c'"
  using assms
proof (rule end_of_message_Inr)
  fix s assume s: "process_event (conn_state c) (role c) EndOfMessage = Inr s"
    and c': "c' = clear_waiting (set_writer (c\<lparr>conn_state := s\<rparr>) None)"
  from moves_event [OF s] show ?thesis by (simp add: c' advances_def no_answer)
qed

lemma complete_after_head_advances:
  assumes "complete_after_head c before n = (c', Inr out)"
  shows "advances c 0 0 c'"
proof -
  obtain c1 y where d: "send_data_framing c n = (c1, y)" by fastforce
  have data: "y = Inr ps \<Longrightarrow> end_of_message c1 headers_new = (c2, Inr x) \<Longrightarrow> advances c 0 0 c2" for ps c2 x
    using advances_trans [OF send_data_framing_advances end_of_message_advances] d by fastforce
  show ?thesis
    using assms d data
    by (auto simp: complete_after_head_def advances_refl split: if_splits sum.splits prod.splits
        intro: end_of_message_advances)
qed

text \<open>A head that makes so many moves, for \<open>send_complete\<close>.\<close>

locale head_mover = head_sender +
  fixes q a :: nat
  assumes head_advances: "head c = (c', Inr out) \<Longrightarrow> advances c q a c'"
begin

lemma send_complete_advances:
  assumes "send_complete c head n = (c', Inr out)"
  shows "advances c q a c'"
proof -
  obtain c1 before where "head c = (c1, Inr before)" "complete_after_head c1 before n = (c', Inr out)"
    using assms by (auto simp: send_complete_def Let_def split: sum.splits prod.splits)
  with advances_trans [OF head_advances complete_after_head_advances] show ?thesis by fastforce
qed

end

interpretation request_mover: head_mover "\<lambda>c. send_request c r" 1 0 for r
  by unfold_locales (rule send_request_advances)

interpretation response_mover: head_mover "\<lambda>c. send_response c r" 0 1 for r
  by unfold_locales (rule send_response_advances)

fun op_asks :: "send_op \<Rightarrow> nat" where
  "op_asks (SendRequest r) = 1"
| "op_asks (SendRequestWithBody r b) = 1"
| "op_asks _ = 0"

fun op_answers :: "send_op \<Rightarrow> nat" where
  "op_answers (SendFinalResponse r) = 1"
| "op_answers (SendResponseWithBody r b) = 1"
| "op_answers (SendInformational r) = of_bool (as_u16 (resp_status r) = 101)"
| "op_answers _ = 0"

lemma send_data_advances: "send_data c d = (c', Inr out) \<Longrightarrow> advances c 0 0 c'"
  by (auto simp: send_data_def split: prod.splits sum.splits dest: send_data_framing_advances)

lemma send_advances:
  assumes "send c op = (c', Inr out)"
  shows "advances c (op_asks op) (op_answers op) c'"
proof (cases op)
  case (SendRequestWithBody r b)
  with assms show ?thesis
    by (auto simp: send_request_with_body_def send_request_with_body_framing_def Let_def
        split: prod.splits sum.splits dest!: request_mover.send_complete_advances)
next
  case (SendResponseWithBody r b)
  with assms show ?thesis
    by (auto simp: send_response_with_body_def send_response_with_body_framing_def Let_def
        split: prod.splits sum.splits dest!: response_mover.send_complete_advances)
next
  case (SendDataParts d)
  with assms show ?thesis unfolding SendDataParts send_data_parts_eq by (simp add: send_data_advances)
qed (use assms send_request_advances send_informational_advances send_response_advances
      send_data_advances end_of_message_advances in auto)

section \<open>Every operation advances the lifecycle\<close>

fun asks :: "connection_label \<Rightarrow> nat" where
  "asks (PollResult r) = poll_result_mark event_asks r"
| "asks (SendResult op (Inr out)) = op_asks op"
| "asks _ = 0"

fun answers :: "connection_label \<Rightarrow> nat" where
  "answers (PollResult r) = poll_result_mark event_answers r"
| "answers (SendResult op (Inr out)) = op_answers op"
| "answers _ = 0"

lemma record_eof_advances: "advances c 0 0 (record_eof c)"
  using moves_refl [of "conn_state c"] moves_disable [of "conn_state c"]
  by (simp add: record_eof_def Let_def advances_def conn_disable_keep_alive_def)

lemma next_event_in_place_advances:
  assumes "next_event_in_place c n = (c', r)"
  shows "advances c 0 0 c'"
proof -
  obtain c1 k b e where a: "advance_payload c n = (c1, k, b, e)" by (cases "advance_payload c n")
  obtain c2 x where d: "peer_data c1 n b e = (c2, x)" by fastforce
  have "conn_state c2 = conn_state c1 \<and> role c2 = role c1"
    using d by (auto simp: peer_data_def advance_peer_def process_event_data accept_if_def
        split: sum.splits if_splits prod.splits)
  with advance_payload_state [OF a] assms a d show ?thesis
    by (auto simp: next_event_in_place_def intro!: advances_refl split: if_splits sum.splits)
qed

lemma start_next_cycle_advances:
  assumes "start_next_cycle c = (c', r)"
  shows "advances c 0 0 c'"
proof (cases "role c = Client \<and> peer_state c = Done \<and> input_bytes c \<noteq> []")
  case True
  with assms moves_disable show ?thesis
    by (auto simp: start_next_cycle_def advances_def conn_disable_keep_alive_def)
next
  case False
  show ?thesis
  proof (cases "state_start_next_cycle (conn_state c)")
    case (Inr s)
    with moves_step [OF lifecycle.next_cycle [OF Inr]] assms False show ?thesis
      by (auto simp: start_next_cycle_def advances_def no_answer)
  qed (use assms False in \<open>auto simp: start_next_cycle_def intro: advances_refl\<close>)
qed

lemma close_advances:
  assumes "close c = (c', r)"
  shows "advances c 0 0 c'"
proof -
  obtain c1 x where a: "advance_local c ConnectionClosed = (c1, x)" by fastforce
  show ?thesis
  proof (cases x)
    case (Inr u)
    with advance_local_advances [of c ConnectionClosed c1 u] a assms show ?thesis
      by (auto simp: close_def no_answer advances_def)
  qed (use a assms in \<open>auto simp: close_def intro: advances_refl dest: advance_local_error\<close>)
qed

lemma connection_step_advances:
  assumes "connection_step hp c l c'"
  shows "advances c (asks l) (answers l) c'"
  using assms
proof cases
  case (received d r)
  then show ?thesis
    by (auto simp: receive_data_def intro: record_eof_advances advances_refl split: if_splits)
next
  case (held_back n b)
  then show ?thesis by (auto elim: hold_body_data_cases intro!: advances_refl)
next
  case (sent op x)
  then show ?thesis by (cases x) (auto dest: send_error send_advances intro: advances_refl)
qed (auto intro: next_event_advances next_event_in_place_advances start_next_cycle_advances close_advances)

lemma connection_run_advances:
  "run (connection_step hp) c ls c' \<Longrightarrow> advances c (sum_list (map asks ls)) (sum_list (map answers ls)) c'"
proof (induction rule: run.induct)
  case run_nil
  show ?case by (simp add: advances_refl)
next
  case (run_snoc ls d l e)
  from advances_trans [OF run_snoc.IH connection_step_advances [OF run_snoc.hyps(2)]] show ?case by simp
qed


section \<open>After an error of the peer\<close>

lemma process_error_state: "role_state (process_error s r) r = Error"
  by (cases r) (simp_all add: state_op_defs settle_simps)

lemma advances_error:
  assumes "advances c q a c'" and "peer_state c = Error"
  shows "peer_state c' = Error"
proof -
  from assms(1) obtain ops where "run lifecycle (conn_state c) ops (conn_state c')" "role c' = role c"
    by (auto simp: advances_def moves_def)
  with poisoned.run_inv [of "conn_state c" ops "conn_state c'" "peer (role c)"] assms(2)
  show ?thesis by (simp add: peer_state_def)
qed

interpretation poisoned_peer: step_invariant "connection_step hp" "\<lambda>c. peer_state c = Error" for hp
  by unfold_locales (blast intro: advances_error connection_step_advances)

lemma next_event_poisons: "next_event hp c = (c', Inl (Remote e)) \<Longrightarrow> peer_state c' = Error"
  by (cases "next_event_inner hp c")
     (auto simp: next_event_def Let_def poison_peer_def peer_state_def process_error_state
       split: sum.splits recv_error.splits Polled.splits prod.splits)

lemma next_event_poisoned:
  "peer_state c = Error \<Longrightarrow> snd (next_event hp c) = Inl (Remote (remote ''peer state is ERROR'' None))"
  by (simp add: next_event_def Let_def next_event_inner.simps poll_peer_state_def remote_def)

lemma in_place_poisoned:
  assumes "peer_state c = Error"
  shows "isl (snd (next_event_in_place c n))"
proof -
  obtain c1 k b e where a: "advance_payload c n = (c1, k, b, e)" by (cases "advance_payload c n")
  from advance_payload_state [OF a] assms have "peer_state c1 = Error" by (simp add: peer_state_def)
  then have "isl (snd (peer_data c1 n b e))"
    by (simp add: peer_data_def advance_peer_def peer_state_def process_event_data accept_if_def)
  with a show ?thesis by (auto simp: next_event_in_place_def split: sum.splits prod.splits)
qed

text \<open>What a call can still return for a poisoned peer.\<close>

fun refused :: "connection_label \<Rightarrow> bool" where
  "refused (PollResult r) = (r = Inl (Remote (remote ''peer state is ERROR'' None)))"
| "refused (TakenInPlace n r) = isl r"
| "refused (HeldBack n b) = (b = Some False)"
| "refused (CycleResult r) = isl r"
| "refused _ = True"

lemma poisoned_refuses:
  assumes "connection_step hp c l c'" and "peer_state c = Error"
  shows "refused l"
  using assms
proof cases
  case (polled e)
  with next_event_poisoned [OF assms(2), of hp] show ?thesis by simp
next
  case (taken n p)
  with in_place_poisoned [OF assms(2), of n] show ?thesis by simp
next
  case (held_back n b)
  from \<open>hold_body_data c n = (c', b)\<close> have "b = Some False" using assms(2)
    by (cases rule: hold_body_data_cases) (auto simp: payload_remaining_def)
  with held_back(1) show ?thesis by simp
next
  case (cycled r)
  with assms(2) show ?thesis
    by (cases "role c") (auto simp: start_next_cycle_def state_start_next_cycle_def peer_state_def split: if_splits)
qed auto

lemma make_lenient_inv: "conn_inv (make_lenient c) = conn_inv c"
  by (simp add: make_lenient_def conn_inv_def conn_base_def local_state_def peer_state_def)

text \<open>The bytes a call declares as held back.\<close>

fun counted :: "connection_label \<Rightarrow> nat" where
  "counted (HeldBack n b) = n"
| "counted _ = 0"

lemma connection_step_transport:
  assumes "connection_step hp c l c'"
  shows "limits c' = limits c" and "held c' \<le> held c + counted l"
    and "l = HeldBack n None \<Longrightarrow> usize_max < held c + n"
proof -
  have "limits c' = limits c \<and> held c' \<le> held c + counted l \<and> (l = HeldBack n None \<longrightarrow> usize_max < held c + n)"
    using assms
  proof cases
    case (received d r)
    then show ?thesis by (auto simp: receive_data_def record_eof_def Let_def split: if_splits)
  next
    case (held_back m b)
    then show ?thesis by (auto elim: hold_body_data_cases)
  next
    case (taken m p)
    with limits_in_place [of c m] show ?thesis by simp
  next
    case (polled e)
    with limits_next_event [of hp c] show ?thesis by simp
  next
    case (sent op x)
    with send_transport [of c op c' x] show ?thesis by (simp add: same_transport_def)
  next
    case (cycled r)
    then show ?thesis by (auto simp: start_next_cycle_def split: if_splits sum.splits)
  next
    case (closed r)
    with advance_limits [of c ConnectionClosed] show ?thesis
      by (cases "advance_local c ConnectionClosed") (auto simp: close_def split: sum.splits)
  qed
  then show "limits c' = limits c" "held c' \<le> held c + counted l" "l = HeldBack n None \<Longrightarrow> usize_max < held c + n"
    by auto
qed

interpretation bounded: step_invariant "connection_step hp" "\<lambda>c. limits c = l" for hp l
  by unfold_locales (simp add: connection_step_transport(1))

lemma run_held:
  "run (connection_step hp) c ls c' \<Longrightarrow> held c' \<le> held c + sum_list (map counted ls)
    \<and> (\<forall>n. HeldBack n None \<in> set ls \<longrightarrow> usize_max < held c + sum_list (map counted ls))"
proof (induction rule: run.induct)
  case (run_snoc ls d l e)
  have "usize_max < held c + sum_list (map counted (ls @ [l]))" if "HeldBack n None \<in> set (ls @ [l])" for n
    using that run_snoc.IH connection_step_transport(3) [OF run_snoc.hyps(2), of n] by fastforce
  with run_snoc.IH connection_step_transport(2) [OF run_snoc.hyps(2)] show ?case by fastforce
qed simp

lemma safe_run_polls:
  assumes "run (connection_step hp) c ls c'" and "httparse_ok hp" and "conn_inv c" and "roomy c"
  shows "PollResult (Inl Panic) \<notin> set ls"
  using assms(1)
proof (induction rule: run.induct)
  case (run_snoc ls d l e)
  have "conn_inv d" using safe.run_inv [OF run_snoc.hyps(1)] assms(2,3) by blast
  moreover have "run (connection_step hp) c (ls @ [l]) e" using run_snoc.hyps by (rule run.run_snoc)
  from bounded.run_inv [OF this refl] have "roomy e" using assms(4) by (simp add: roomy_def)
  ultimately show ?case using run_snoc connection_step_inv [OF assms(2) run_snoc.hyps(2)] by auto
qed simp

lemma next_event_client_error:
  assumes "next_event hp c = (c', Inl (Remote e))"
  shows "role c = Client \<longrightarrow> suggested_status_code e = None"
proof -
  obtain c1 x where x: "next_event_inner hp c = (c1, x)" by fastforce
  with next_event_inner_advances [of c hp] have "role c1 = role c" by (simp add: advances_def)
  with assms x show ?thesis
    by (auto simp: next_event_def Let_def split: sum.splits recv_error.splits Polled.splits prod.splits if_splits)
qed

section \<open>Properties\<close>

text \<open>
  C7: whatever the peer sends and however the application calls the engine, it never panics,
  unless the limit on fields asks for slots that cannot exist, or more bytes are declared as held
  back than an address space has; and every connection it reaches is well formed: the joint
  state is legal, the reader fits the peer's phase, a body is being written exactly in the
  phase for it, and the input buffer and the scan positions are in range.
\<close>

theorem connection_never_panics:
  assumes "httparse_ok hp" and "c \<in> {connection_new r l, make_lenient (connection_new r l)}"
    and "slots_fit (max_header_count l)" and "run (connection_step hp) c ls c'"
  shows "conn_inv c' \<and> PollResult (Inl Panic) \<notin> set ls
    \<and> (\<forall>n. HeldBack n None \<in> set ls \<longrightarrow> usize_max < sum_list (map counted ls))"
proof -
  have inv: "httparse_ok hp \<and> conn_inv c"
    using assms(1,2) conn_inv_new by (auto simp: make_lenient_inv)
  have fresh: "roomy c" "held c = 0"
    using assms(2,3) by (auto simp: roomy_def make_lenient_def connection_new_def)
  from safe.run_inv [OF assms(4) inv] safe_run_polls [OF assms(4)] inv fresh run_held [OF assms(4)] show ?thesis by simp
qed

definition sample_limits :: Limits where
  "sample_limits = \<lparr>max_head_bytes = 100, max_header_count = 10\<rparr>"

definition truncated_head :: "connection_label list" where
  "truncated_head =
     [Received ''GET'' (Inr ()), Received [] (Inr ()),
      PollResult (Inl (Remote (remote ''unexpected EOF in HTTP head'' (Some 400))))]"

definition after_truncated :: Connection where
  "after_truncated = the (exec_run (connection_apply sample_httparse) (connection_new Server sample_limits) truncated_head)"

lemma truncated_head_run:
  "run (connection_step sample_httparse) (connection_new Server sample_limits) truncated_head after_truncated"
proof -
  have "exec_run (connection_apply sample_httparse) (connection_new Server sample_limits) truncated_head \<noteq> None"
    by code_simp
  then show ?thesis by (auto simp: connection_exec.exec_run_iff after_truncated_def)
qed

theorem connection_never_panics_witness:
  "conn_inv after_truncated \<and> PollResult (Inl Panic) \<notin> set truncated_head"
proof -
  have "slots_fit (max_header_count sample_limits)" by code_simp
  from connection_never_panics [OF sample_httparse_ok insertI1 this truncated_head_run] show ?thesis by simp
qed

text \<open>
  C9: a protocol error of the peer is final. After a poll that reports one, no later call
  delivers anything of the peer again: every poll reports the error state without a suggested
  status, no body bytes are held back or taken, and no next cycle starts.
\<close>

theorem peer_error_is_final:
  assumes "next_event hp c = (c1, Inl (Remote e))" and "run (connection_step hp) c1 ls c'"
  shows "peer_state c' = Error \<and> list_all refused ls \<and> (role c = Client \<longrightarrow> suggested_status_code e = None)"
proof (intro conjI)
  note err = next_event_poisons [OF assms(1)]
  show "peer_state c' = Error" using assms(2) err by (rule poisoned_peer.run_inv)
  show "list_all refused ls"
    using poisoned_peer.run_labels [OF assms(2) err poisoned_refuses] by (simp add: list_all_iff)
  show "role c = Client \<longrightarrow> suggested_status_code e = None"
    using assms(1) by (rule next_event_client_error)
qed

theorem peer_error_is_final_witness:
  "\<exists>c1 e c'. next_event sample_httparse
        (fst (receive_data (fst (receive_data (connection_new Server sample_limits) ''GET'')) [])) = (c1, Inl (Remote e))
     \<and> run (connection_step sample_httparse) c1
         [Received [] (Inr ()), PollResult (Inl (Remote (remote ''peer state is ERROR'' None)))] c'
     \<and> peer_state c' = Error"
proof -
  let ?c = "fst (receive_data (fst (receive_data (connection_new Server sample_limits) ''GET'')) [])"
  let ?e = "remote ''unexpected EOF in HTTP head'' (Some 400)"
  let ?ls = "[Received [] (Inr ()), PollResult (Inl (Remote (remote ''peer state is ERROR'' None)))]"
  have "snd (next_event sample_httparse ?c) = Inl (Remote ?e)" by code_simp
  then have e: "next_event sample_httparse ?c = (fst (next_event sample_httparse ?c), Inl (Remote ?e))"
    by (metis prod.collapse)
  have "exec_run (connection_apply sample_httparse) (fst (next_event sample_httparse ?c)) ?ls \<noteq> None"
    by code_simp
  then obtain c' where "run (connection_step sample_httparse) (fst (next_event sample_httparse ?c)) ?ls c'"
    by (auto simp: connection_exec.exec_run_iff simp del: exec_run.simps)
  with e peer_error_is_final [OF e this] show ?thesis by blast
qed

text \<open>
  C8: the calls on a connection refine the request/response lifecycle. Any sequence of calls
  takes the connection's state along a run of the lifecycle that has one request step for each
  request received or sent and a final step for each final answer; so final answers never
  outnumber requests while the connection is reusable, and by at most one when it is not.
\<close>

theorem calls_refine_lifecycle:
  assumes "run (connection_step hp) (connection_new r l) ls c"
  shows "\<exists>ops. run lifecycle connection_state_new ops (conn_state c)
      \<and> length (filter is_request ops) = sum_list (map asks ls)
      \<and> sum_list (map answers ls) \<le> length (filter is_final ops)
      \<and> sum_list (map answers ls) \<le> sum_list (map asks ls) + (if cs_keep_alive (conn_state c) then 0 else 1)"
proof -
  from connection_run_advances [OF assms] obtain ops where
    ops: "run lifecycle connection_state_new ops (conn_state c)"
      "length (filter is_request ops) = sum_list (map asks ls)"
      "sum_list (map answers ls) \<le> length (filter is_final ops)"
    by (auto simp: advances_def moves_def connection_new_def)
  from answer_run [OF ops(1)] ops(2,3)
  have "sum_list (map answers ls) \<le> sum_list (map asks ls) + (if cs_keep_alive (conn_state c) then 0 else 1)"
    by (auto simp: answer_balance_def connection_state_new_def split: if_splits)
  with ops show ?thesis by blast
qed


definition sample_served :: "Connection \<times> (recv_error + NextEvent)" where
  "sample_served = next_event sample_httparse (fst (receive_data (connection_new Server sample_limits) sample_request))"

definition sample_answered :: "bytes sent" where
  "sample_answered = send (fst sample_served) (SendFinalResponse sample_ok)"

definition sample_exchange :: "connection_label list" where
  "sample_exchange =
     [Received sample_request (Inr ()), PollResult (snd sample_served),
      SendResult (SendFinalResponse sample_ok) (snd sample_answered)]"

lemma sample_exchange_run:
  "run (connection_step sample_httparse) (connection_new Server sample_limits) sample_exchange (fst sample_answered)"
proof -
  have "snd (receive_data (connection_new Server sample_limits) sample_request) = Inr ()" by code_simp
  then show ?thesis
    by (simp add: connection_exec.exec_run_iff sample_exchange_def expect_result_def sample_served_def sample_answered_def)
qed

theorem calls_refine_lifecycle_witness:
  "\<exists>ops. run lifecycle connection_state_new ops (conn_state (fst sample_answered))
     \<and> length (filter is_request ops) = 1 \<and> 1 \<le> length (filter is_final ops)"
proof -
  have "sum_list (map asks sample_exchange) = 1" "sum_list (map answers sample_exchange) = 1" by code_simp+
  with calls_refine_lifecycle [OF sample_exchange_run] show ?thesis by metis
qed

end
