(* ===== verification/H11r_Reports.thy ===== *)
theory H11r_Reports
  imports H11r_Engine "HOL-Library.Monad_Syntax"
begin

text \<open>
  What the events the engine reports guarantee to the application: a request or a final
  response that was checked and has one framing, and polling that comes to an end.
\<close>

section \<open>Accepted heads\<close>

fun is_head_event :: "Event \<Rightarrow> bool" where
  "is_head_event (EventRequest r) = True"
| "is_head_event (EventInformationalResponse r) = True"
| "is_head_event (EventResponse r) = True"
| "is_head_event _ = False"

definition no_head :: "polled_result \<Rightarrow> bool" where
  "no_head r \<longleftrightarrow> (\<forall>e. r = Inr (PolledEvent e) \<longrightarrow> \<not> is_head_event e)"

lemma no_head_simps [simp]:
  "no_head (Inl e)" "no_head (Inr (PolledData n b d))" "no_head (Inr PolledNeedData)" "no_head (Inr PolledPaused)"
  "no_head (Inr (PolledEvent ev)) \<longleftrightarrow> \<not> is_head_event ev"
  by (simp_all add: no_head_def)

lemma no_head_parts [simp]:
  "no_head (snd (need_data_or_eof c m))" "no_head (snd (finish_peer c h))" "no_head (snd (peer_closed c))"
  "no_head (snd (peer_data c n b e))" "no_head (snd (wait_for_section c skip))"
  by (auto simp: need_data_or_eof_def finish_peer_def peer_closed_def peer_data_def wait_for_section_def Let_def
      split: sum.split prod.split)

lemma no_head_payload [simp]: "no_head (snd (read_payload c m))"
  by (simp add: read_payload_def Let_def split: prod.split)

lemma no_head_trailers [simp]: "no_head (snd (read_trailers hp c))"
  by (simp add: read_trailers_def split: sum.split option.split prod.split)

lemma no_head_eqs:
  "need_data_or_eof c m = (c', r) \<Longrightarrow> no_head r" "finish_peer c h = (c', r) \<Longrightarrow> no_head r"
  "peer_data c n b e = (c', r) \<Longrightarrow> no_head r" "wait_for_section c skip = (c', r) \<Longrightarrow> no_head r"
  "read_payload c m = (c', r) \<Longrightarrow> no_head r" "read_trailers hp c = (c', r) \<Longrightarrow> no_head r"
  using no_head_parts no_head_payload no_head_trailers by (metis snd_conv)+

lemma poll_peer_state_no_head: "poll_peer_state c = Some x \<Longrightarrow> no_head (snd x)"
  by (auto simp: poll_peer_state_def split: State.splits if_splits)

lemma read_chunk_size_no_head: "read_chunk_size c i = (c', Some r) \<Longrightarrow> no_head r"
  by (auto simp: read_chunk_size_def Let_def need_data_or_eof_def split: option.splits if_splits)

lemma read_chunked_no_head: "read_chunked hp c ch = (c', Some r) \<Longrightarrow> no_head r"
  by (auto simp: read_chunked_def read_data_end_def
      split: Chunk.splits prod.splits if_splits dest: no_head_eqs read_chunk_size_no_head)

lemma read_body_no_head:
  assumes "read_body hp c = (c', Some r)" and "\<not> no_head r"
  shows "cyc_reader (cycle c) = ReadHead \<and> read_head hp c = (c', r)"
  using assms read_chunked_no_head
  by (auto simp: read_body_def Let_def split: Reader.splits prod.splits if_splits dest: no_head_eqs)

lemma read_body_goes_on:
  assumes "read_body hp c = (c', None)"
  shows "cyc_reader (cycle c') \<noteq> ReadHead"
  using assms
  by (auto simp: read_body_def Let_def read_chunked_def read_chunk_size_def read_data_end_def
      split: Reader.splits Chunk.splits prod.splits if_splits option.splits)

lemma next_event_inner_head:
  assumes "next_event_inner hp c = (c', r)" and "\<not> no_head r"
  shows "poll_peer_state c = None \<and> cyc_reader (cycle c) = ReadHead \<and> read_head hp c = (c', r)"
  using assms
proof (induction hp c rule: next_event_inner.induct)
  case (1 hp c)
  show ?case
  proof (cases "poll_peer_state c")
    case None
    obtain c1 x where b: "read_body hp c = (c1, x)" by fastforce
    show ?thesis
    proof (cases x)
      case (Some y)
      with 1(2,3) b None have "read_body hp c = (c', Some r)"
        by (simp add: next_event_inner.simps [of hp c])
      with None read_body_no_head [OF this 1(3)] show ?thesis by simp
    next
      case None
      with 1(2) b \<open>poll_peer_state c = None\<close> have "next_event_inner hp c1 = (c', r)"
        by (simp add: next_event_inner.simps [of hp c])
      with 1(1) [OF \<open>poll_peer_state c = None\<close> b [symmetric] None] 1(3) read_body_goes_on [of hp c c1] b None
      show ?thesis by auto
    qed
  next
    case (Some x)
    with 1(2,3) poll_peer_state_no_head [OF Some] show ?thesis by (simp add: next_event_inner.simps [of hp c])
  qed
qed

lemma next_event_head:
  assumes "next_event hp c = (c', Inr (NextEvent e))" and "is_head_event e"
  shows "peer_state c \<in> {Idle, SendResponse, SendBody} \<and> read_head hp c = (c', Inr (PolledEvent e))"
proof -
  obtain c1 x where x: "next_event_inner hp c = (c1, x)" by fastforce
  with assms have "x = Inr (PolledEvent e)" "c1 = c'"
    by (auto simp: next_event_def Let_def split: sum.splits recv_error.splits Polled.splits prod.splits)
  with next_event_inner_head [OF x] assms(2) show ?thesis
    by (auto simp: poll_peer_state_def split: State.splits if_splits)
qed

lemma accept_response_no_request: "snd (accept_response c s) \<noteq> Inr (PolledEvent (EventRequest r))"
  by (auto simp: accept_response_def accept_informational_def accept_final_def Let_def
      split: sum.split prod.split option.split)

lemma accept_request_event: "accept_request c q = (c', Inr (PolledEvent e)) \<Longrightarrow> e = EventRequest q"
  by (erule accept_request_cases) auto

lemma read_head_request:
  assumes "read_head hp c = (c', Inr (PolledEvent (EventRequest r)))"
  obtains c1 n where "role c = Server" "section_due c True = (c1, True)"
    "parse_request_head hp (head_section c1) (max_header_count (limits c)) = Inr (Some (n, r))"
    "accept_request (set_progress (consume_input c1 n) progress_default) r = (c', Inr (PolledEvent (EventRequest r)))"
proof -
  obtain c1 b where due: "section_due c True = (c1, b)" by fastforce
  from section_due_state [OF due] have c1: "role c1 = role c" "limits c1 = limits c" by auto
  have w: "wait_for_section c1 True \<noteq> (c', Inr (PolledEvent (EventRequest r)))"
    by (auto dest: no_head_eqs)
  have b: b using assms w due by (cases b) (auto simp: read_head_def)
  have s: "role c = Server"
    using assms due c1 b w accept_response_no_request
    by (auto simp: read_head_def Let_def split: sum.splits option.splits prod.splits if_splits) (metis snd_conv)+
  from assms due c1 b w s obtain n q where pq:
    "parse_request_head hp (head_section c1) (max_header_count (limits c)) = Inr (Some (n, q))"
    "accept_request (set_progress (consume_input c1 n) progress_default) q = (c', Inr (PolledEvent (EventRequest r)))"
    by (auto simp: read_head_def Let_def split: sum.splits option.splits prod.splits)
  from accept_request_event [OF pq(2)] have "q = r" by simp
  with pq that [OF s] due b show ?thesis by simp
qed

text \<open>
  What a final response leaves of persistence: it goes on only for the answer to a request, when
  neither the request nor the head asks for the close and the framing is sound.
\<close>

definition stays_reusable :: "Connection \<Rightarrow> Response \<Rightarrow> Framing \<Rightarrow> bool" where
  "stays_reusable c r b \<longleftrightarrow>
     cs_keep_alive (conn_state c) \<and> peer_state c = SendResponse
     \<and> (opens_tunnel c (resp_status r) \<or> \<not> prop_connect (proposals (conn_state c)))
     \<and> persistent (scan (resp_headers r)) (resp_version r) \<and> b \<noteq> CloseDelimited
     \<and> \<not> isl (framing (scan (resp_headers r)) (resp_version r) True)"

lemma final_response_keep_alive:
  assumes "advance_peer c (final_response_event c st) = (c1, Inr u)" and "role c = Client"
  shows "cs_keep_alive (conn_state c1) \<longleftrightarrow> cs_keep_alive (conn_state c) \<and> peer_state c = SendResponse
    \<and> (opens_tunnel c st \<or> \<not> prop_connect (proposals (conn_state c)))"
proof -
  from assms obtain s where s: "process_event (conn_state c) Server (final_response_event c st) = Inr s" "c1 = c\<lparr>conn_state := s\<rparr>"
    by (auto simp: advance_peer_def split: sum.splits)
  with assms(2) show ?thesis
    by (auto simp: final_response_event_def process_event_response process_event_switch accept_if_def peer_state_def split: if_splits)
qed

lemma not_reused [simp]: "\<not> cs_keep_alive (disable_keep_alive s)"
  by (simp add: state_op_defs stabilize_settle)

lemma accept_response_final:
  assumes "accept_response c q = (c', Inr (PolledEvent (EventResponse r)))" and "role c = Client"
  shows "q = r \<and> local_state c \<noteq> Idle \<and> \<not> is_informational (resp_status r)
     \<and> (\<exists>b. cyc_reader (cycle c') = reader b
          \<and> (if response_has_no_body c (resp_status r) then b = Fixed 0
             else framing (scan (resp_headers r)) (resp_version r) True = Inr b)
          \<and> (cs_keep_alive (conn_state c') \<longleftrightarrow> stays_reusable c r b))"
proof -
  let ?f = "scan (resp_headers q)"
  let ?d = "framing ?f (resp_version q) True"
  have info: "\<not> is_informational (resp_status q)"
    using assms(1) by (auto simp: accept_response_def accept_informational_def Let_def
        split: if_splits option.splits sum.splits prod.splits)
  with assms(1) have fin: "local_state c \<noteq> Idle" "accept_final c q ?f ?d = (c', Inr (PolledEvent (EventResponse r)))"
    by (auto simp: accept_response_def Let_def split: if_splits)
  obtain c1 u where a: "advance_peer c (final_response_event c (resp_status q)) = (c1, Inr u)"
    using fin(2) by (auto simp: accept_final_def split: sum.splits prod.splits)
  note keep = final_response_keep_alive [OF a assms(2)]
  have cyc: "cycle c1 = cycle c" using a by (rule advance_peer_cases) auto
  have nb: "cycle d = cycle c \<Longrightarrow> response_has_no_body ((record_response d)\<lparr>peer_version := v\<rparr>) s
      = response_has_no_body c s" for d v s
    by (simp add: record_response_def response_has_no_body_def opens_tunnel_def request_is_def)
  have state: "conn_state (record_response d) = conn_state d" for d by (simp add: record_response_def)
  have off: "\<not> cs_keep_alive (conn_state (conn_disable_keep_alive d))" for d by (simp add: conn_disable_keep_alive_def)
  have "q = r \<and> (\<exists>b. cyc_reader (cycle c') = reader b
          \<and> (if response_has_no_body c (resp_status q) then b = Fixed 0 else ?d = Inr b)
          \<and> (cs_keep_alive (conn_state c') \<longleftrightarrow> stays_reusable c q b))"
    using fin(2) keep
    by (cases ?d) (auto simp: accept_final_def a Let_def nb cyc state off stays_reusable_def split: if_splits)
  with fin(1) info show ?thesis by blast
qed


lemma accept_request_no_response: "snd (accept_request c q) \<noteq> Inr (PolledEvent (EventResponse r))"
  using accept_request_event by (metis Event.distinct(3) prod.collapse)

lemma read_head_response:
  assumes "read_head hp c = (c', Inr (PolledEvent (EventResponse r)))"
  obtains c1 q where "role c = Client"
    "conn_state c1 = conn_state c \<or> lenient c \<and> conn_state c1 = disable_keep_alive (conn_state c)"
    "role c1 = role c" "request_kind (cycle c1) = request_kind (cycle c)"
    "accept_response c1 q = (c', Inr (PolledEvent (EventResponse r)))"
proof -
  obtain c1 b where due: "section_due c True = (c1, b)" by fastforce
  from section_due_state [OF due] have c1: "role c1 = role c" "conn_state c1 = conn_state c" by auto
  have kind: "request_kind (cycle c1) = request_kind (cycle c)" "lenient c1 = lenient c"
    using due by (auto simp: section_due_def set_progress_def split: if_splits prod.splits)
  have w: "wait_for_section c1 True \<noteq> (c', Inr (PolledEvent (EventResponse r)))" by (auto dest: no_head_eqs)
  have b: b using assms w due by (cases b) (auto simp: read_head_def)
  have s: "role c = Client"
    using assms due c1 b w accept_request_no_response
    by (cases "role c") (auto simp: read_head_def Let_def split: sum.splits option.splits prod.splits, metis snd_conv)
  from assms due c1 b w s obtain n q d where
    p: "parse_response_head hp (head_section c1) (max_header_count (limits c1)) (lenient c1) = Inr (Some (n, q, d))" and
    "accept_response (set_progress (consume_input (if d then conn_disable_keep_alive c1 else c1) n) progress_default) q
       = (c', Inr (PolledEvent (EventResponse r)))"
    by (auto simp: read_head_def Let_def split: sum.splits option.splits prod.splits)
  moreover have "d \<Longrightarrow> lenient c1" using p
    by (auto simp: parse_response_head_def Let_def split: sum.splits option.splits if_splits)
  ultimately show ?thesis
    using that [OF s, of "set_progress (consume_input (if d then conn_disable_keep_alive c1 else c1) n) progress_default"] c1 kind
    by (auto simp: conn_disable_keep_alive_def consume_input_def set_progress_def split: if_splits)
qed

text \<open>
  C10: every request the engine reports is one a server may act on. Its target and Host field
  are valid, it has one framing, which the reader of its body follows, content only where the
  method allows it, no more fields than the limit, and its head took at most \<open>max_head_bytes\<close>.
\<close>

theorem reported_request_ok:
  assumes "httparse_ok hp" and "next_event hp c = (c', Inr (NextEvent (EventRequest r)))"
  shows "role c = Server \<and> local_state c = Idle
    \<and> valid_request_target (as_bytes (req_method r)) (req_target r)
    \<and> valid_host (scan (req_headers r)) (req_version r)
    \<and> headers_len (req_headers r) \<le> max_header_count (limits c)
    \<and> (\<exists>b. framing (scan (req_headers r)) (req_version r) False = Inr b \<and> cyc_reader (cycle c') = reader b
          \<and> \<not> content_forbidden (req_method r) b)
    \<and> (\<exists>n. 0 < n \<and> n \<le> max_head_bytes (limits c) \<and> input_bytes c' = drop n (input_bytes c))"
proof -
  from next_event_head [OF assms(2)] have "read_head hp c = (c', Inr (PolledEvent (EventRequest r)))" by simp
  then show ?thesis
  proof (rule read_head_request)
    fix c1 n
    assume s: "role c = Server" and due: "section_due c True = (c1, True)"
      and p: "parse_request_head hp (head_section c1) (max_header_count (limits c)) = Inr (Some (n, r))"
      and a: "accept_request (set_progress (consume_input c1 n) progress_default) r = (c', Inr (PolledEvent (EventRequest r)))"
    note c1 = section_due_state [OF due]
    from parse_request_head_ok(2) [OF assms(1) p] have n: "0 < n" "n \<le> length (head_section c1)"
      "headers_len (req_headers r) \<le> max_header_count (limits c)" by auto
    from a show ?thesis
    proof (rule accept_request_cases)
      fix b u c2
      assume ok: "valid_request_target (as_bytes (req_method r)) (req_target r)"
        "valid_host (scan (req_headers r)) (req_version r)"
        "framing (scan (req_headers r)) (req_version r) False = Inr b" "\<not> content_forbidden (req_method r) b"
        and adv: "advance_peer (set_progress (consume_input c1 n) progress_default) (request_event (req_method r) u) = (c2, Inr ())"
        and c': "c' = set_reader ((record_request c2 (req_method r) (req_version r) (scan (req_headers r)) b u)
              \<lparr>peer_version := Some (req_version r)\<rparr>) (reader b)"
      from adv have "local_state c = Idle" "conn_input c2 = conn_input (consume_input c1 n)"
        using c1 s by (auto simp: request_event_def process_event_request local_state_def elim!: advance_peer_cases)
      moreover from this(2) c1 have "input_bytes c' = drop n (input_bytes c)"
        by (simp add: c' record_request_def Let_def consume_input_def)
      moreover have "n \<le> max_head_bytes (limits c)" using n(2) c1 by (simp add: head_section_def Let_def)
      ultimately show ?thesis using ok n s by (auto simp: c')
    qed simp
  qed
qed

definition reported :: "Connection \<times> (recv_error + NextEvent) \<Rightarrow> Event option" where
  "reported x = (case snd x of Inr (NextEvent e) \<Rightarrow> Some e | _ \<Rightarrow> None)"

lemma reportedD: "reported x = Some e \<Longrightarrow> x = (fst x, Inr (NextEvent e))"
  by (cases x) (auto simp: reported_def split: sum.splits NextEvent.splits)

theorem reported_request_ok_witness:
  "\<exists>r. reported sample_served = Some (EventRequest r) \<and> req_target r = ''/a''
     \<and> valid_host (scan (req_headers r)) (req_version r) \<and> headers_len (req_headers r) \<le> 10"
proof -
  have "case reported sample_served of Some (EventRequest r) \<Rightarrow> req_target r = ''/a'' | _ \<Rightarrow> False" by code_simp
  then obtain r where r: "reported sample_served = Some (EventRequest r)" "req_target r = ''/a''"
    by (auto split: option.splits Event.splits)
  from reported_request_ok [OF sample_httparse_ok reportedD [OF r(1), unfolded sample_served_def]]
  have "valid_host (scan (req_headers r)) (req_version r)" "headers_len (req_headers r)
       \<le> max_header_count (limits (fst (receive_data (connection_new Server sample_limits) sample_request)))"
    by blast+
  with r show ?thesis by (auto simp: receive_data_def connection_new_def sample_limits_def sample_request_def)
qed

text \<open>
  C11: a final response is reported only to a client that has left its idle state, and its body is
  read with the one framing that request and head give: none for a response that cannot have
  a body, and otherwise what the fields declare. The connection stays reusable only if it was
  reusable before, so neither the request nor anything earlier asked for the close; if the
  response answers a request the client has sent (no request is pending in any state but
  \<open>SendResponse\<close>), which was not a refused CONNECT; and if the head allows it and its framing is
  sound and not delimited by the close. For a strict client that is exactly when it stays
  reusable; a lenient one gives reuse up as well when it has dropped a field line.
\<close>

theorem reported_response_framing:
  assumes "next_event hp c = (c', Inr (NextEvent (EventResponse r)))"
  shows "role c = Client \<and> local_state c \<noteq> Idle \<and> \<not> is_informational (resp_status r)
     \<and> (\<exists>b. cyc_reader (cycle c') = reader b
          \<and> (if response_has_no_body c (resp_status r) then b = Fixed 0
             else framing (scan (resp_headers r)) (resp_version r) True = Inr b)
          \<and> (cs_keep_alive (conn_state c') \<longrightarrow> stays_reusable c r b)
          \<and> (stays_reusable c r b \<and> \<not> lenient c \<longrightarrow> cs_keep_alive (conn_state c')))"
proof -
  from next_event_head [OF assms]
  have peer: "peer_state c \<in> {Idle, SendResponse, SendBody}"
    and "read_head hp c = (c', Inr (PolledEvent (EventResponse r)))" by auto
  from this(2) show ?thesis
  proof (rule read_head_response)
    fix c1 q
    assume s: "role c = Client"
      and st: "conn_state c1 = conn_state c \<or> lenient c \<and> conn_state c1 = disable_keep_alive (conn_state c)"
      and same: "role c1 = role c" "request_kind (cycle c1) = request_kind (cycle c)"
      and a: "accept_response c1 q = (c', Inr (PolledEvent (EventResponse r)))"
    have q: "response_has_no_body c1 x = response_has_no_body c x" "opens_tunnel c1 x = opens_tunnel c x" for x
      using same(2) by (simp_all add: response_has_no_body_def opens_tunnel_def request_is_def)
    have "stays_reusable c1 r b = stays_reusable c r b \<or> lenient c \<and> \<not> stays_reusable c1 r b" for b
      using st same(1) q by (auto simp: stays_reusable_def peer_state_def)
    moreover have "local_state c1 \<noteq> Idle \<Longrightarrow> local_state c \<noteq> Idle"
      using st same(1) s peer by (auto simp: local_state_def peer_state_def state_op_defs settle_simps)
    ultimately show ?thesis using accept_response_final [OF a] s same(1) q(1) by metis
  qed
qed


definition sample_get :: Request where
  "sample_get = \<lparr>req_method = method_get, req_target = ''/'', req_headers = headers_from [(''Host'', ''x'')],
     req_version = Http11\<rparr>"

definition sample_client :: Connection where
  "sample_client = fst (receive_data
     (fst (send (connection_new Client sample_limits) (SendRequest sample_get))) sample_response)"

theorem reported_response_framing_witness:
  "\<exists>r b. reported (next_event sample_httparse sample_client) = Some (EventResponse r)
     \<and> cyc_reader (cycle (fst (next_event sample_httparse sample_client))) = reader b
     \<and> framing (scan (resp_headers r)) (resp_version r) True = Inr b"
proof -
  have "case reported (next_event sample_httparse sample_client) of
      Some (EventResponse r) \<Rightarrow> \<not> response_has_no_body sample_client (resp_status r) | _ \<Rightarrow> False"
    by code_simp
  then obtain r where r: "reported (next_event sample_httparse sample_client) = Some (EventResponse r)"
    "\<not> response_has_no_body sample_client (resp_status r)"
    by (auto split: option.splits Event.splits)
  from reported_response_framing [OF reportedD [OF r(1)]] r show ?thesis by auto
qed

section \<open>Polling uses up the input\<close>

abbreviation unread :: "Connection \<Rightarrow> nat" where
  "unread c \<equiv> length (input_bytes c)"

definition poll_progress :: "Connection \<Rightarrow> Connection \<times> polled_result \<Rightarrow> bool" where
  "poll_progress c x =
     (case x of (c', r) \<Rightarrow> unread c' \<le> unread c \<and>
        (case r of
           Inr (PolledEvent e) \<Rightarrow>
             (is_head_event e \<longrightarrow> unread c' < unread c) \<and> (\<forall>d b f. e \<noteq> EventData d b f)
             \<and> (\<forall>h. e = EventEndOfMessage h \<longrightarrow> peer_state c = SendBody \<and> peer_state c' \<noteq> SendBody)
         | _ \<Rightarrow> True))"

lemma poll_progress_simps [simp]:
  "poll_progress c (c', Inl e) \<longleftrightarrow> unread c' \<le> unread c"
  "poll_progress c (c', Inr (PolledData n b d)) \<longleftrightarrow> unread c' \<le> unread c"
  "poll_progress c (c', Inr PolledNeedData) \<longleftrightarrow> unread c' \<le> unread c"
  "poll_progress c (c', Inr PolledPaused) \<longleftrightarrow> unread c' \<le> unread c"
  "poll_progress c (c', Inr (PolledEvent EventConnectionClosed)) \<longleftrightarrow> unread c' \<le> unread c"
  "poll_progress c (c', Inr (PolledEvent (EventEndOfMessage h)))
     \<longleftrightarrow> unread c' \<le> unread c \<and> peer_state c = SendBody \<and> peer_state c' \<noteq> SendBody"
  "is_head_event ev \<Longrightarrow> poll_progress c (c', Inr (PolledEvent ev)) \<longleftrightarrow> unread c' < unread c"
  by (cases ev; auto simp: poll_progress_def)+

lemma poll_progress_from:
  "unread d \<le> unread c \<Longrightarrow> peer_state d = peer_state c \<Longrightarrow> poll_progress d x \<Longrightarrow> poll_progress c x"
  by (auto simp: poll_progress_def split: prod.splits sum.splits Polled.splits)

lemma advance_peer_input: "advance_peer c e = (c', r) \<Longrightarrow> conn_input c' = conn_input c \<and> cycle c' = cycle c"
  by (erule advance_peer_cases) auto

lemma finish_peer_progress: "poll_progress c (finish_peer c h)"
proof -
  obtain c' r where a: "advance_peer c EndOfMessage = (c', r)" by fastforce
  show ?thesis
  proof (rule advance_peer_cases [OF a])
    fix s assume s: "r = Inr ()" "process_event (conn_state c) (peer (role c)) EndOfMessage = Inr s"
      "c' = c\<lparr>conn_state := s\<rparr>"
    then have "peer_state c = SendBody" "peer_state c' \<noteq> SendBody"
      by (cases "role c"; auto simp: process_event_end_of_message peer_state_def settle_simps)+
    with a s(1) advance_peer_input [OF a] show ?thesis by (simp add: finish_peer_def)
  qed (use a in \<open>simp add: finish_peer_def\<close>)
qed

lemma peer_closed_progress: "poll_progress c (peer_closed c)"
  by (auto simp: peer_closed_def dest!: advance_peer_input split: prod.split sum.split)

lemma peer_data_progress: "poll_progress c (peer_data c n b e)"
  by (auto simp: peer_data_def dest!: advance_peer_input split: prod.split sum.split)

lemma need_data_progress [simp]: "poll_progress c (need_data_or_eof c' m) \<longleftrightarrow> unread c' \<le> unread c"
  by (simp add: need_data_or_eof_def)

lemma wait_for_section_progress [simp]: "poll_progress c (wait_for_section c' skip) \<longleftrightarrow> unread c' \<le> unread c"
  by (simp add: wait_for_section_def Let_def)

lemma advance_payload_input: "advance_payload c n = (c', k, b, e) \<Longrightarrow> conn_input c' = conn_input c"
  by (auto simp: advance_payload_def Let_def split: Reader.splits Chunk.splits)

lemma read_payload_progress: "poll_progress c (read_payload c m)"
proof -
  obtain c' k b e where a: "advance_payload c (unread c) = (c', k, b, e)" by (cases "advance_payload c (unread c)")
  with advance_payload_input [OF a] advance_payload_state [OF a]
    poll_progress_from [OF _ _ peer_data_progress, of c' c k b e]
  show ?thesis by (simp add: read_payload_def peer_state_def)
qed

lemma accept_request_input: "conn_input (fst (accept_request c r)) = conn_input c"
proof -
  obtain c' x where a: "accept_request c r = (c', x)" by fastforce
  then show ?thesis
    by (rule accept_request_cases) (auto simp: a record_request_def Let_def dest: advance_peer_input)
qed

lemma accept_informational_input: "conn_input (fst (accept_informational c r b)) = conn_input c"
  by (auto simp: accept_informational_def Let_def record_informational_def
      dest!: advance_peer_input split: option.split prod.split sum.split)

lemma accept_final_input: "conn_input (fst (accept_final c r f d)) = conn_input c"
proof -
  obtain c' x where a: "advance_peer c (final_response_event c (resp_status r)) = (c', x)" by fastforce
  from advance_peer_input [OF a] show ?thesis
    by (cases x; cases d) (auto simp: accept_final_def a Let_def record_response_def)
qed

lemma accept_response_input: "conn_input (fst (accept_response c r)) = conn_input c"
  by (simp add: accept_response_def Let_def accept_informational_input accept_final_input)

definition only_heads :: "polled_result \<Rightarrow> bool" where
  "only_heads r \<longleftrightarrow> (\<forall>e. r = Inr (PolledEvent e) \<longrightarrow> is_head_event e)"

lemma only_heads_simps [simp]: "only_heads (Inl x)" "only_heads (Inr (PolledEvent e)) = is_head_event e"
  by (simp_all add: only_heads_def)

lemma accept_request_heads: "only_heads (snd (accept_request c q))"
  by (cases "accept_request c q") (auto simp: only_heads_def dest: accept_request_event)

lemma accept_informational_heads: "only_heads (snd (accept_informational c s b))"
  by (auto simp: accept_informational_def Let_def split: sum.split prod.split option.split)

lemma accept_final_heads: "only_heads (snd (accept_final c s f d))"
  by (cases d) (auto simp: accept_final_def Let_def split: sum.split prod.split)

lemma accept_response_heads: "only_heads (snd (accept_response c s))"
  by (simp add: accept_response_def Let_def accept_informational_heads accept_final_heads)

lemma poll_progress_less:
  "unread (fst x) < unread c \<Longrightarrow> only_heads (snd x) \<Longrightarrow> poll_progress c x"
  by (cases x) (auto simp: poll_progress_def only_heads_def split: sum.split Polled.split elim: is_head_event.elims)

lemma read_head_progress:
  assumes "httparse_ok hp"
  shows "poll_progress c (read_head hp c)"
proof -
  obtain c1 b where due: "section_due c True = (c1, b)" by fastforce
  from section_due_state [OF due] have c1: "conn_input c1 = conn_input c" by auto
  have req: "poll_progress c (accept_request (set_progress (consume_input c1 n) p) r)"
    if "parse_request_head hp (head_section c1) k = Inr (Some (n, r))" for n p r k
    using parse_request_head_ok(2) [OF assms that] head_section_length [of c1] c1
    by (intro poll_progress_less accept_request_heads) (auto simp: accept_request_input)
  have resp: "poll_progress c (accept_response (set_progress (consume_input (if d then conn_disable_keep_alive c1 else c1) n) p) r)"
    if "parse_response_head hp (head_section c1) k (lenient c1) = Inr (Some (n, r, d))" for n p r d k
    using parse_response_head_ok(2) [OF assms that] head_section_length [of c1] c1
    by (intro poll_progress_less accept_response_heads) (auto simp: accept_response_input consume_input_def)
  show ?thesis
    using req resp c1
    by (auto simp: read_head_def due Let_def split: sum.split option.split prod.split)
qed


definition step_progress :: "Connection \<Rightarrow> Connection \<times> polled_result option \<Rightarrow> bool" where
  "step_progress c x =
     (case x of (c', None) \<Rightarrow> unread c' \<le> unread c \<and> peer_state c' = peer_state c
      | (c', Some r) \<Rightarrow> poll_progress c (c', r))"

lemma step_progress_simps [simp]:
  "step_progress c (c', None) \<longleftrightarrow> unread c' \<le> unread c \<and> peer_state c' = peer_state c"
  "step_progress c (c', Some r) = poll_progress c (c', r)"
  "step_progress c (case x of (d, r) \<Rightarrow> (d, Some r)) = poll_progress c x"
  by (cases x; simp add: step_progress_def)+

lemma read_chunk_size_progress: "step_progress c (read_chunk_size c i)"
  by (auto simp: read_chunk_size_def Let_def consume_input_def set_reader_def set_progress_def peer_state_def
      split: option.split)

lemma read_data_end_progress: "step_progress c (read_data_end c)"
  by (simp add: read_data_end_def)

lemma read_trailers_progress: "poll_progress c (read_trailers hp c)"
proof -
  obtain c1 b where due: "section_due c False = (c1, b)" by fastforce
  from section_due_state [OF due] have c1: "conn_input c1 = conn_input c" "peer_state c1 = peer_state c"
    by (auto simp: peer_state_def)
  have "poll_progress c (finish_peer (set_progress (consume_input c1 n) p) h)" for n p h
    by (rule poll_progress_from [OF _ _ finish_peer_progress]) (simp_all add: c1)
  then show ?thesis
    using c1 by (simp add: read_trailers_def due split: sum.split option.split prod.split)
qed

lemma read_body_progress: "httparse_ok hp \<Longrightarrow> step_progress c (read_body hp c)"
  by (simp add: read_body_def Let_def read_chunked_def read_head_progress finish_peer_progress read_payload_progress
      peer_data_progress read_chunk_size_progress read_data_end_progress read_trailers_progress
      split: Reader.split Chunk.split)

lemma poll_peer_state_progress: "poll_peer_state c = Some x \<Longrightarrow> poll_progress c x"
  using poll_progress_from [OF _ _ peer_closed_progress, of "consume_input c (unread c)" c]
  by (auto simp: poll_peer_state_def peer_closed_progress split: State.splits if_splits)

lemma next_event_inner_progress: "httparse_ok hp \<Longrightarrow> poll_progress c (next_event_inner hp c)"
proof (induction hp c rule: next_event_inner.induct)
  case (1 hp c)
  show ?case
  proof (cases "poll_peer_state c")
    case None
    obtain c1 r where r: "read_body hp c = (c1, r)" by fastforce
    with read_body_progress [OF 1(2), of c] have ok: "step_progress c (c1, r)" by simp
    show ?thesis
    proof (cases r)
      case None
      with ok 1(1) [OF \<open>poll_peer_state c = None\<close> r [symmetric] None 1(2)] \<open>poll_peer_state c = None\<close> r
      show ?thesis by (subst next_event_inner.simps) (auto intro: poll_progress_from)
    next
      case (Some x)
      with ok None r show ?thesis by (subst next_event_inner.simps) simp
    qed
  next
    case (Some x)
    with poll_peer_state_progress [OF Some] show ?thesis by (subst next_event_inner.simps) simp
  qed
qed

text \<open>
  Twice the unread bytes, and one more while the peer's body is open: each event but the
  closing one lowers it.
\<close>

definition poll_rank :: "Connection \<Rightarrow> nat" where
  "poll_rank c = 2 * unread c + of_bool (peer_state c = SendBody)"

lemma next_event_lowers:
  assumes "httparse_ok hp" and "conn_inv c" and "next_event hp c = (c', Inr (NextEvent e))"
    and "e \<noteq> EventConnectionClosed"
  shows "poll_rank c' < poll_rank c"
proof -
  obtain c1 x where x: "next_event_inner hp c = (c1, x)" by fastforce
  from next_event_inner_progress [OF assms(1), of c] x have p: "poll_progress c (c1, x)" by simp
  from next_event_inner_ok [OF assms(1,2)] x have ok: "poll_ok (c1, x)" by simp
  show ?thesis
  proof (cases x)
    case (Inr y)
    show ?thesis
    proof (cases y)
      case (PolledEvent ev)
      with assms(3) x Inr have "ev = e" "c1 = c'" by (auto simp: next_event_def)
      with p Inr PolledEvent assms(4) show ?thesis
        by (cases e) (auto simp: poll_progress_def poll_rank_def of_bool_def)
    next
      case (PolledData n b d)
      with assms(3) x Inr have "unread c' = unread c1 - n" by (auto simp: next_event_def buffer_take_eq)
      with ok p Inr PolledData show ?thesis by (auto simp: poll_rank_def of_bool_def)
    qed (use assms(3) x Inr in \<open>auto simp: next_event_def\<close>)
  qed (use assms(3) x in \<open>auto simp: next_event_def Let_def split: recv_error.splits\<close>)
qed


text \<open>
  The loop of an application that polls until nothing more comes: until a result that is not
  an event, or the end of the connection.
\<close>

partial_function (option) drain :: "httparse \<Rightarrow> Connection \<Rightarrow> (Connection \<times> Event list) option" where
  "drain hp c =
     (case next_event hp c of
        (c1, Inr (NextEvent e)) \<Rightarrow>
          (if e = EventConnectionClosed then Some (c1, [e])
           else do {
             (c2, es) \<leftarrow> drain hp c1;
             Some (c2, e # es)
           })
      | (c1, _) \<Rightarrow> Some (c1, []))"

lemma drain_ends:
  "httparse_ok hp \<Longrightarrow> conn_inv c \<Longrightarrow> \<exists>c' es. drain hp c = Some (c', es) \<and> length es \<le> Suc (poll_rank c)"
proof (induction c rule: measure_induct_rule [of poll_rank])
  case (less c)
  obtain c1 x where x: "next_event hp c = (c1, x)" by fastforce
  show ?case
  proof (cases "\<exists>e. x = Inr (NextEvent e) \<and> e \<noteq> EventConnectionClosed")
    case True
    then obtain e where e: "x = Inr (NextEvent e)" "e \<noteq> EventConnectionClosed" by blast
    have lt: "poll_rank c1 < poll_rank c"
      using next_event_lowers [OF less.prems _ e(2)] x e(1) by simp
    moreover have "conn_inv c1" using next_event_safe [OF less.prems] x by simp
    ultimately obtain c' es where "drain hp c1 = Some (c', es)" "length es \<le> Suc (poll_rank c1)"
      using less by blast
    with x e lt show ?thesis by (simp add: drain.simps [of hp c])
  next
    case False
    with x show ?thesis
      by (auto simp: drain.simps [of hp c] split: sum.split NextEvent.split)
  qed
qed

text \<open>
  C12: an application that polls until nothing more comes gets an end. In every reachable
  connection the loop stops, after at most two events for each unread byte and two more.
\<close>

theorem polling_ends:
  assumes "httparse_ok hp" and "run (connection_step hp) (connection_new r l) ls c"
  shows "\<exists>c' es. drain hp c = Some (c', es) \<and> length es \<le> 2 * length (input_bytes c) + 2"
proof -
  have "httparse_ok hp \<and> conn_inv c"
    using safe.run_inv [OF assms(2)] assms(1) conn_inv_new by blast
  with drain_ends [OF assms(1)] obtain c' es where "drain hp c = Some (c', es)" "length es \<le> Suc (poll_rank c)"
    by blast
  then show ?thesis by (auto simp: poll_rank_def of_bool_def split: if_splits)
qed

theorem polling_ends_witness:
  "\<exists>c' es. drain sample_httparse (fst (receive_data (connection_new Server sample_limits) sample_request)) = Some (c', es)
     \<and> length es \<le> 116"
proof -
  let ?c = "fst (receive_data (connection_new Server sample_limits) sample_request)"
  have ok: "snd (receive_data (connection_new Server sample_limits) sample_request) = Inr ()"
    and len: "length (input_bytes ?c) = 57" by code_simp+
  from ok have "run (connection_step sample_httparse) (connection_new Server sample_limits)
      [Received sample_request (Inr ())] ?c"
    by (simp add: connection_exec.exec_run_iff expect_result_def)
  from polling_ends [OF sample_httparse_ok this] len show ?thesis by simp
qed

end
