(* ===== verification/H11r_Binding.thy ===== *)
theory H11r_Binding
  imports H11r_Values H11r_Reports
begin

text \<open>
  The \<open>Connection\<close> class of the Python binding (\<open>crates/h11r-python/src/api/connection.rs\<close>):
  a connection of the core and a queue of received \<open>bytes\<close> objects that are handed out
  uncopied. The queue is shown to be invisible: a held object is delivered as the copied
  bytes would be, and the core never refuses it.
\<close>

section \<open>The connection object\<close>

text \<open>A held object is an exact \<open>bytes\<close>, which is immutable: its contents stand for it.\<close>

record PyConnection =
  pc_core :: Connection
  pc_queue :: "bytes list"

definition pc_new :: "PyRole \<Rightarrow> nat \<Rightarrow> nat \<Rightarrow> bool \<Rightarrow> PyConnection py_result" where
  "pc_new r head_bytes header_count is_lenient =
     (case limits_new head_bytes header_count of
        Inl _ \<Rightarrow> Inl (PyValueError ''HTTP limits must be non-zero'')
      | Inr l \<Rightarrow>
          (let connection = connection_new (role_from_py r) l
           in Inr \<lparr>pc_core = (if is_lenient then make_lenient connection else connection), pc_queue = []\<rparr>))"

definition pc_copy_data :: "'o python \<Rightarrow> PyConnection \<Rightarrow> 'o \<Rightarrow> PyConnection \<times> unit py_result" where
  "pc_copy_data py p data =
     (case with_buffer py data (receive_data (pc_core p)) of
        Inl e \<Rightarrow> (p, Inl e)
      | Inr (c, Inl e) \<Rightarrow> (p\<lparr>pc_core := c\<rparr>, Inl (local_error e))
      | Inr (c, Inr _) \<Rightarrow> (p\<lparr>pc_core := c\<rparr>, Inr ()))"

definition pc_receive_data :: "'o python \<Rightarrow> PyConnection \<Rightarrow> 'o \<Rightarrow> PyConnection \<times> unit py_result" where
  "pc_receive_data py p data =
     (case cast_exact_bytes py data of
        None \<Rightarrow> pc_copy_data py p data
      | Some b \<Rightarrow>
          (case hold_body_data (pc_core p) (length b) of
             (c, None) \<Rightarrow> (p\<lparr>pc_core := c\<rparr>, Inl PanicException)
           | (c, Some True) \<Rightarrow> (p\<lparr>pc_core := c, pc_queue := pc_queue p @ [b]\<rparr>, Inr ())
           | (c, Some False) \<Rightarrow> pc_copy_data py (p\<lparr>pc_core := c\<rparr>) data))"

definition pc_next_event ::
  "httparse \<Rightarrow> py_cells \<Rightarrow> PyConnection \<Rightarrow> py_cells \<times> PyConnection \<times> 'o py_event py_result" where
  "pc_next_event hp cells p =
     (case pc_queue p of
        data # queue \<Rightarrow>
          (case next_event_in_place (pc_core p) (length data) of
             (c, Inl e) \<Rightarrow> (cells, \<lparr>pc_core = c, pc_queue = queue\<rparr>, Inl (local_error e))
           | (c, Inr (chunk_start, chunk_end)) \<Rightarrow>
               (cells, \<lparr>pc_core = c, pc_queue = queue\<rparr>, Inr (data_to_py data chunk_start chunk_end)))
      | [] \<Rightarrow>
          (case next_event hp (pc_core p) of
             (c, Inl Panic) \<Rightarrow> (cells, p\<lparr>pc_core := c\<rparr>, Inl PanicException)
           | (c, Inl (Remote e)) \<Rightarrow> (cells, p\<lparr>pc_core := c\<rparr>, Inl (remote_error e))
           | (c, Inr NeedData) \<Rightarrow> (cells, p\<lparr>pc_core := c\<rparr>, Inr (PyEvStatus PyNeedData))
           | (c, Inr Paused) \<Rightarrow> (cells, p\<lparr>pc_core := c\<rparr>, Inr (PyEvStatus PyPaused))
           | (c, Inr (NextEvent event)) \<Rightarrow>
               (case event_to_py cells event of (cells1, ev) \<Rightarrow> (cells1, p\<lparr>pc_core := c\<rparr>, Inr ev))))"

section \<open>Sending\<close>

text \<open>A result of the core as a result of the binding: the bytes, or the exception.\<close>

definition core_result :: "PyConnection \<Rightarrow> 'a sent \<Rightarrow> PyConnection \<times> 'a py_result" where
  "core_result p x = (case x of (c, r) \<Rightarrow> (p\<lparr>pc_core := c\<rparr>, map_sum local_error id r))"

definition framed_result :: "PyConnection \<Rightarrow> Connection \<times> bytes py_result \<Rightarrow> PyConnection \<times> bytes py_result" where
  "framed_result p x = (case x of (c, r) \<Rightarrow> (p\<lparr>pc_core := c\<rparr>, r))"

definition pc_send_request ::
  "'o python \<Rightarrow> PyConnection \<Rightarrow> 'o \<Rightarrow> 'o \<Rightarrow> 'o \<Rightarrow> 'o option \<Rightarrow> 'o option \<Rightarrow> PyConnection \<times> bytes py_result" where
  "pc_send_request py p method target headers body http_version =
     (case extract_request py method target headers http_version of
        Inl e \<Rightarrow> (p, Inl e)
      | Inr request \<Rightarrow>
          (case body of
             None \<Rightarrow> core_result p (send_request (pc_core p) request)
           | Some b \<Rightarrow>
               framed_result p (framed py (pc_core p) b
                 (\<lambda>n. send_request_with_body_framing (pc_core p) request n))))"

definition pc_send_informational_response ::
  "'o python \<Rightarrow> PyConnection \<Rightarrow> 'o \<Rightarrow> 'o option \<Rightarrow> 'o option \<Rightarrow> 'o option \<Rightarrow> PyConnection \<times> bytes py_result" where
  "pc_send_informational_response py p status_code headers reason http_version =
     (case py_status py status_code of
        Inl e \<Rightarrow> (p, Inl e)
      | Inr status \<Rightarrow>
          (case extract_response py status headers reason http_version of
             Inl e \<Rightarrow> (p, Inl e)
           | Inr response \<Rightarrow> core_result p (send_informational_response (pc_core p) response)))"

definition pc_send_response ::
  "'o python \<Rightarrow> PyConnection \<Rightarrow> 'o \<Rightarrow> 'o option \<Rightarrow> 'o option \<Rightarrow> 'o option \<Rightarrow> 'o option
     \<Rightarrow> PyConnection \<times> bytes py_result" where
  "pc_send_response py p status_code headers body reason http_version =
     (case py_status py status_code of
        Inl e \<Rightarrow> (p, Inl e)
      | Inr status \<Rightarrow>
          (case extract_response py status headers reason http_version of
             Inl e \<Rightarrow> (p, Inl e)
           | Inr response \<Rightarrow>
               (case body of
                  None \<Rightarrow> core_result p (send_response (pc_core p) response)
                | Some b \<Rightarrow>
                    framed_result p (framed py (pc_core p) b
                      (\<lambda>n. send_response_with_body_framing (pc_core p) response n)))))"

definition prefix_and_suffix :: "(DataPrefix \<times> bytes) sent \<Rightarrow> (bytes \<times> bytes) sent" where
  "prefix_and_suffix x = (case x of (c, r) \<Rightarrow> (c, map_sum id (\<lambda>(prefix, suffix). (prefix_bytes prefix, suffix)) r))"

definition pc_send_data :: "'o python \<Rightarrow> PyConnection \<Rightarrow> 'o \<Rightarrow> PyConnection \<times> bytes py_result" where
  "pc_send_data py p data =
     framed_result p (framed py (pc_core p) data (\<lambda>n. prefix_and_suffix (send_data_framing (pc_core p) n)))"

definition pc_send_data_parts ::
  "'o python \<Rightarrow> PyConnection \<Rightarrow> 'o \<Rightarrow> PyConnection \<times> (bytes \<times> 'o \<times> bytes) py_result" where
  "pc_send_data_parts py p data =
     (case body_nbytes py data of
        Inl e \<Rightarrow> (p, Inl e)
      | Inr n \<Rightarrow>
          (case send_data_framing (pc_core p) n of
             (c, Inl e) \<Rightarrow> (p\<lparr>pc_core := c\<rparr>, Inl (local_error e))
           | (c, Inr (prefix, suffix)) \<Rightarrow> (p\<lparr>pc_core := c\<rparr>, Inr (prefix_bytes prefix, data, suffix))))"

definition pc_end_of_message :: "'o python \<Rightarrow> PyConnection \<Rightarrow> 'o option \<Rightarrow> PyConnection \<times> bytes py_result" where
  "pc_end_of_message py p trailers =
     (case extract_headers py trailers of
        Inl e \<Rightarrow> (p, Inl e)
      | Inr h \<Rightarrow> core_result p (end_of_message (pc_core p) h))"

definition pc_start_next_cycle :: "PyConnection \<Rightarrow> PyConnection \<times> unit py_result" where
  "pc_start_next_cycle p = core_result p (start_next_cycle (pc_core p))"

definition pc_close :: "PyConnection \<Rightarrow> PyConnection \<times> unit py_result" where
  "pc_close p = core_result p (close (pc_core p))"

section \<open>Attributes\<close>

definition pc_local_state :: "PyConnection \<Rightarrow> PyState" where
  "pc_local_state p = py_state_from (local_state (pc_core p))"

definition pc_peer_state :: "PyConnection \<Rightarrow> PyState" where
  "pc_peer_state p = py_state_from (peer_state (pc_core p))"

definition pc_peer_http_version :: "py_cells \<Rightarrow> PyConnection \<Rightarrow> py_cells \<times> bytes option" where
  "pc_peer_http_version cells p =
     (case peer_http_version (pc_core p) of
        None \<Rightarrow> (cells, None)
      | Some v \<Rightarrow> (case py_version cells v of (cells1, b) \<Rightarrow> (cells1, Some b)))"

definition pc_keep_alive :: "PyConnection \<Rightarrow> bool" where
  "pc_keep_alive p = keep_alive (pc_core p)"

definition pc_client_is_waiting_for_100_continue :: "PyConnection \<Rightarrow> bool" where
  "pc_client_is_waiting_for_100_continue p = client_is_waiting_for_100_continue (pc_core p)"

definition pc_trailing_data :: "PyConnection \<Rightarrow> bytes \<times> bool" where
  "pc_trailing_data p = trailing_data (pc_core p)"

definition pc_buffered_nbytes :: "PyConnection \<Rightarrow> nat" where
  "pc_buffered_nbytes p = length (fst (trailing_data (pc_core p))) + held_body_len (pc_core p)"

section \<open>Calls\<close>

datatype 'o py_call =
    CallReceiveData 'o
  | CallNextEvent
  | CallSendRequest 'o 'o 'o "'o option" "'o option"
  | CallSendInformational 'o "'o option" "'o option" "'o option"
  | CallSendResponse 'o "'o option" "'o option" "'o option" "'o option"
  | CallSendData 'o
  | CallSendDataParts 'o
  | CallEndOfMessage "'o option"
  | CallStartNextCycle
  | CallClose

datatype 'o py_value =
    ValueNone
  | ValueBytes bytes
  | ValueParts bytes 'o bytes
  | ValueEvent "'o py_event"

type_synonym py_process = "py_cells \<times> PyConnection"

definition returning :: "py_cells \<Rightarrow> ('a \<Rightarrow> 'o py_value) \<Rightarrow> PyConnection \<times> 'a py_result \<Rightarrow> py_process \<times> 'o py_value py_result" where
  "returning cells f x = (case x of (p, r) \<Rightarrow> ((cells, p), map_sum id f r))"

fun perform :: "'o python \<Rightarrow> httparse \<Rightarrow> py_process \<Rightarrow> 'o py_call \<Rightarrow> py_process \<times> 'o py_value py_result" where
  "perform py hp (cells, p) (CallReceiveData d) = returning cells (\<lambda>_. ValueNone) (pc_receive_data py p d)"
| "perform py hp (cells, p) CallNextEvent =
     (case pc_next_event hp cells p of (cells1, p1, r) \<Rightarrow> ((cells1, p1), map_sum id ValueEvent r))"
| "perform py hp (cells, p) (CallSendRequest m t h b v) =
     returning cells ValueBytes (pc_send_request py p m t h b v)"
| "perform py hp (cells, p) (CallSendInformational s h r v) =
     returning cells ValueBytes (pc_send_informational_response py p s h r v)"
| "perform py hp (cells, p) (CallSendResponse s h b r v) =
     returning cells ValueBytes (pc_send_response py p s h b r v)"
| "perform py hp (cells, p) (CallSendData d) = returning cells ValueBytes (pc_send_data py p d)"
| "perform py hp (cells, p) (CallSendDataParts d) =
     returning cells (\<lambda>(pre, d, suf). ValueParts pre d suf) (pc_send_data_parts py p d)"
| "perform py hp (cells, p) (CallEndOfMessage t) = returning cells ValueBytes (pc_end_of_message py p t)"
| "perform py hp (cells, p) CallStartNextCycle = returning cells (\<lambda>_. ValueNone) (pc_start_next_cycle p)"
| "perform py hp (cells, p) CallClose = returning cells (\<lambda>_. ValueNone) (pc_close p)"

inductive py_step ::
  "'o python \<Rightarrow> httparse \<Rightarrow> py_process \<Rightarrow> 'o py_call \<times> 'o py_value py_result \<Rightarrow> py_process \<Rightarrow> bool" for py hp where
  called: "perform py hp s call = (s', r) \<Longrightarrow> py_step py hp s (call, r) s'"

inductive_simps py_step_iff [simp]: "py_step py hp s (call, r) s'"

section \<open>The queue of held objects\<close>

definition queue_ok :: "PyConnection \<Rightarrow> bool" where
  [inv_defs]: "queue_ok p \<longleftrightarrow>
     held (pc_core p) = length (concat (pc_queue p)) \<and> [] \<notin> set (pc_queue p)
     \<and> (pc_queue p \<noteq> [] \<longrightarrow> is_some_and (\<lambda>n. held (pc_core p) \<le> n) (payload_remaining (pc_core p)))"

definition pc_inv :: "PyConnection \<Rightarrow> bool" where
  [inv_defs]: "pc_inv p \<longleftrightarrow> conn_inv (pc_core p) \<and> roomy (pc_core p) \<and> queue_ok p"

text \<open>What an operation of the local side leaves alone.\<close>

definition reader_kept :: "Connection \<Rightarrow> Connection \<Rightarrow> bool" where
  "reader_kept c c' \<longleftrightarrow>
     role c' = role c \<and> limits c' = limits c \<and> held c' = held c \<and> cyc_reader (cycle c') = cyc_reader (cycle c)
     \<and> phase_kept (peer (role c)) (conn_state c) (conn_state c')"

lemma phase_kept_refl [simp]: "phase_kept r s s"
  by (simp add: phase_kept_def)

lemma reader_kept_refl [simp]: "reader_kept c c"
  by (simp add: reader_kept_def)

lemma reader_kept_trans: "reader_kept a b \<Longrightarrow> reader_kept b c \<Longrightarrow> reader_kept a c"
  by (auto simp: reader_kept_def intro: phase_kept_trans)

lemma reader_kept_simps [simp]:
  "reader_kept c (set_writer d w) = reader_kept c d" "reader_kept c (clear_waiting d) = reader_kept c d"
  "reader_kept c (record_response d) = reader_kept c d"
  "reader_kept c (record_informational d st) = reader_kept c d"
  by (simp_all add: reader_kept_def set_writer_def clear_waiting_def record_response_def record_informational_def)

lemma reader_kept_disable: "reader_kept c d \<Longrightarrow> reader_kept c (conn_disable_keep_alive d)"
  by (auto simp: reader_kept_def conn_disable_keep_alive_def intro: phase_kept_trans phase_kept_disable)

lemma reader_kept_record_request: "reader_kept c d \<Longrightarrow> reader_kept c (record_request d m v f b u)"
  using reader_kept_disable [of c d] by (auto simp: record_request_def Let_def reader_kept_def)

lemma reader_kept_local:
  "process_event (conn_state c) (role c) e = Inr s \<Longrightarrow> reader_kept c (c\<lparr>conn_state := s\<rparr>)"
  by (simp add: reader_kept_def phase_kept_event)

lemma reader_kept_roomy: "reader_kept c c' \<Longrightarrow> roomy c' = roomy c"
  by (simp add: roomy_def reader_kept_def)

lemma reader_kept_payload: "reader_kept c c' \<Longrightarrow> payload_remaining c = Some n \<Longrightarrow> payload_remaining c' = Some n"
  by (auto simp: payload_remaining_def reader_kept_def peer_state_def phase_kept_def split: if_splits)

lemma queue_ok_kept:
  "queue_ok p \<Longrightarrow> reader_kept (pc_core p) c \<Longrightarrow> queue_ok (p\<lparr>pc_core := c\<rparr>)"
  using reader_kept_payload by (fastforce simp: queue_ok_def reader_kept_def split: option.splits)

lemma send_request_kept: "send_request c r = (c', x) \<Longrightarrow> reader_kept c c'"
  by (cases x) (auto dest!: send_request_error elim!: send_request_Inr
      intro!: reader_kept_record_request reader_kept_local)

lemma send_informational_kept: "send_informational_response c r = (c', x) \<Longrightarrow> reader_kept c c'"
  by (cases x) (auto dest!: send_informational_error elim!: send_informational_Inr intro!: reader_kept_local)

lemma finish_response_head_kept: "reader_kept c (fst (finish_response_head c r f h b cn h11))"
  by (simp add: finish_response_head_def Let_def reader_kept_disable)

lemma send_response_kept: "send_response c r = (c', x) \<Longrightarrow> reader_kept c c'"
proof (cases x)
  case (Inr out)
  assume "send_response c r = (c', x)"
  with Inr have "send_response c r = (c', Inr out)" by simp
  then show ?thesis
    by (rule send_response_Inr) (metis finish_response_head_kept fst_conv reader_kept_local reader_kept_trans)
qed (auto dest!: send_response_error)

lemma send_data_framing_kept: "send_data_framing c n = (c', x) \<Longrightarrow> reader_kept c c'"
  by (cases x) (auto dest!: send_data_framing_error elim!: send_data_framing_Inr)

lemma end_of_message_kept: "end_of_message c h = (c', x) \<Longrightarrow> reader_kept c c'"
  by (cases x) (auto dest!: end_of_message_error elim!: end_of_message_Inr intro!: reader_kept_local)

lemma complete_after_head_kept:
  assumes "complete_after_head c before n = (c', Inr out)"
  shows "reader_kept c c'"
proof -
  obtain c1 y where d: "send_data_framing c n = (c1, y)" by fastforce
  have "end_of_message c1 headers_new = (c2, z) \<Longrightarrow> reader_kept c c2" for c2 z
    using reader_kept_trans [OF send_data_framing_kept [OF d] end_of_message_kept] .
  with assms d show ?thesis
    by (auto simp: complete_after_head_def split: if_splits sum.splits prod.splits intro: end_of_message_kept)
qed

locale head_keeper = head_sender +
  assumes head_kept: "head c = (c', x) \<Longrightarrow> reader_kept c c'"
begin

lemma send_complete_kept:
  assumes "send_complete c head n = (c', x)"
  shows "reader_kept c c'"
proof (cases x)
  case (Inl e)
  with send_complete_error [of c n c' e] assms show ?thesis by simp
next
  case (Inr out)
  with assms obtain c1 before where "head c = (c1, Inr before)" "complete_after_head c1 before n = (c', Inr out)"
    by (auto simp: send_complete_def Let_def split: sum.splits prod.splits)
  with reader_kept_trans [OF head_kept complete_after_head_kept] show ?thesis by blast
qed

end

interpretation request_keeper: head_keeper "\<lambda>c. send_request c r" for r
  by unfold_locales (rule send_request_kept)

interpretation response_keeper: head_keeper "\<lambda>c. send_response c r" for r
  by unfold_locales (rule send_response_kept)

lemma close_kept: "close c = (c', x) \<Longrightarrow> reader_kept c c'"
proof -
  assume c: "close c = (c', x)"
  obtain c1 y where a: "advance_local c ConnectionClosed = (c1, y)" by fastforce
  then have "reader_kept c c1" by (rule advance_local_cases) (auto intro: reader_kept_local)
  with a c show ?thesis by (cases y) (auto simp: close_def reader_kept_def)
qed

lemma with_buffer_map: "with_buffer py v use = map_sum id use (with_buffer py v (\<lambda>b. b))"
  by (simp add: with_buffer_def split: option.split sum.split)

lemma framed_eq:
  "framed py c v f =
     (case with_buffer py v (\<lambda>b. b) of
        Inl e \<Rightarrow> (c, Inl e)
      | Inr data \<Rightarrow>
          (case f (length data) of
             (c1, Inl e) \<Rightarrow> (c1, Inl (local_error e))
           | (c1, Inr (before, after)) \<Rightarrow> (c1, Inr (before @ data @ after))))"
  unfolding framed_def by (subst with_buffer_map) (simp split: sum.split)

lemma map_sum_Inl: "map_sum f g x = Inl y \<Longrightarrow> (\<And>z. x = Inl z \<Longrightarrow> y = f z \<Longrightarrow> thesis) \<Longrightarrow> thesis"
  by (cases x) auto

text \<open>A framing that \<open>framed\<close> may be given: it keeps the reader and the invariant, and changes nothing when it fails.\<close>

locale framing_call =
  fixes frame :: "Connection \<Rightarrow> nat \<Rightarrow> (bytes \<times> bytes) sent"
  assumes frame_inv: "conn_inv c \<Longrightarrow> frame c n = (c', x) \<Longrightarrow> conn_inv c'"
    and frame_kept: "frame c n = (c', x) \<Longrightarrow> reader_kept c c'"
    and frame_error: "frame c n = (c', Inl e) \<Longrightarrow> c' = c"
begin

lemma framed_cases:
  assumes "framed py c v (frame c) = (c', r)"
  obtains e where "r = Inl e" "c' = c"
  | data before after where "r = Inr (before @ data @ after)" "frame c (length data) = (c', Inr (before, after))"
      "with_buffer py v (\<lambda>b. b) = Inr data"
proof (cases "with_buffer py v (\<lambda>b. b)")
  case (Inl e)
  with assms have "r = Inl e" "c' = c" by (simp_all add: framed_eq)
  then show thesis by (rule that(1))
next
  case (Inr data)
  obtain c1 x where f: "frame c (length data) = (c1, x)" by fastforce
  show thesis
  proof (cases x)
    case (Inl e)
    with assms Inr f frame_error [of c "length data" c1 e] that(1) \<open>with_buffer py v (\<lambda>b. b) = Inr data\<close> show thesis
      by (auto simp: framed_eq)
  next
    case (Inr ba)
    with assms f that(2) \<open>with_buffer py v (\<lambda>b. b) = Inr data\<close> show thesis
      by (cases ba) (auto simp: framed_eq)
  qed
qed

lemma framed_result_inv:
  assumes "pc_inv p"
  shows "pc_inv (fst (framed_result p (framed py (pc_core p) v (frame (pc_core p)))))"
proof -
  obtain c' r where f: "framed py (pc_core p) v (frame (pc_core p)) = (c', r)" by fastforce
  then show ?thesis
  proof (rule framed_cases)
    fix data before after assume "frame (pc_core p) (length data) = (c', Inr (before, after))"
    with assms frame_inv frame_kept queue_ok_kept reader_kept_roomy f show ?thesis
      by (fastforce simp: framed_result_def pc_inv_def)
  qed (use f assms in \<open>simp add: framed_result_def\<close>)
qed

lemma framed_result_error:
  "framed_result p (framed py (pc_core p) v (frame (pc_core p))) = (p', Inl e) \<Longrightarrow> p' = p"
  by (cases "framed py (pc_core p) v (frame (pc_core p))") (auto simp: framed_result_def elim!: framed_cases)

end

interpretation request_body: framing_call "\<lambda>c n. send_request_with_body_framing c r n" for r
proof
  fix c c' n x
  show "send_request_with_body_framing c r n = (c', x) \<Longrightarrow> reader_kept c c'"
    unfolding send_request_with_body_framing_def by (auto simp: Let_def dest: request_keeper.send_complete_kept)
  show "conn_inv c \<Longrightarrow> send_request_with_body_framing c r n = (c', x) \<Longrightarrow> conn_inv c'"
    unfolding send_request_with_body_framing_def by (auto simp: Let_def dest: request_head.send_complete_inv)
next
  fix c c' n e
  show "send_request_with_body_framing c r n = (c', Inl e) \<Longrightarrow> c' = c"
    unfolding send_request_with_body_framing_def by (auto simp: Let_def dest: request_head.send_complete_error)
qed

interpretation response_body: framing_call "\<lambda>c n. send_response_with_body_framing c r n" for r
proof
  fix c c' n x
  show "send_response_with_body_framing c r n = (c', x) \<Longrightarrow> reader_kept c c'"
    unfolding send_response_with_body_framing_def by (auto simp: Let_def dest: response_keeper.send_complete_kept)
  show "conn_inv c \<Longrightarrow> send_response_with_body_framing c r n = (c', x) \<Longrightarrow> conn_inv c'"
    unfolding send_response_with_body_framing_def by (auto simp: Let_def dest: response_head.send_complete_inv)
next
  fix c c' n e
  show "send_response_with_body_framing c r n = (c', Inl e) \<Longrightarrow> c' = c"
    unfolding send_response_with_body_framing_def by (auto simp: Let_def dest: response_head.send_complete_error)
qed

interpretation data_body: framing_call "\<lambda>c n. prefix_and_suffix (send_data_framing c n)"
  by unfold_locales
     (auto simp: prefix_and_suffix_def split: prod.splits
       dest: send_data_framing_inv send_data_framing_kept send_data_framing_error elim!: map_sum_Inl)

section \<open>The invariant of the binding\<close>

text \<open>A call of the core that \<open>core_result\<close> hands on.\<close>

lemma core_result_inv:
  "pc_inv p \<Longrightarrow> x = (c, r) \<Longrightarrow> conn_inv c \<Longrightarrow> reader_kept (pc_core p) c \<Longrightarrow> pc_inv (fst (core_result p x))"
  by (simp add: core_result_def pc_inv_def queue_ok_kept reader_kept_roomy)

lemma core_result_error: "core_result p (c, r) = (p', Inl e) \<Longrightarrow> \<exists>e'. r = Inl e' \<and> p' = p\<lparr>pc_core := c\<rparr>"
  by (cases r) (auto simp: core_result_def)


lemma peer_state_disable_body: "peer_state c = SendBody \<Longrightarrow> peer_state (conn_disable_keep_alive c) = SendBody"
  using reader_kept_disable [of c c] by (auto simp: reader_kept_def phase_kept_def peer_state_def)

lemma receive_data_kept: "receive_data c d = (c', r) \<Longrightarrow> reader_kept c c'"
proof -
  assume r: "receive_data c d = (c', r)"
  have "reader_kept c (c\<lparr>eof := True\<rparr>)" by (simp add: reader_kept_def)
  from this reader_kept_disable [OF this] have "reader_kept c (record_eof c)" by (simp add: record_eof_def Let_def)
  with r show ?thesis by (auto simp: receive_data_def reader_kept_def split: if_splits)
qed

lemma copied_inv:
  assumes "pc_inv p" and "receive_data (pc_core p) d = (c, r)"
  shows "pc_inv (p\<lparr>pc_core := c\<rparr>)"
  using assms receive_data_inv [of "pc_core p" d] receive_data_kept [OF assms(2)]
  by (simp add: pc_inv_def queue_ok_kept reader_kept_roomy)

lemma payload_remaining_held: "payload_remaining (c\<lparr>held := n\<rparr>) = payload_remaining c"
  by (simp add: payload_remaining_def peer_state_def)

lemma held_inv:
  assumes "pc_inv p" and "hold_body_data (pc_core p) (length d) = (c, Some True)"
  shows "pc_inv (p\<lparr>pc_core := c, pc_queue := pc_queue p @ [d]\<rparr>)"
proof (rule hold_body_data_cases [OF assms(2)])
  assume c: "c = pc_core p\<lparr>held := held (pc_core p) + length d\<rparr>" "length d \<noteq> 0"
    "is_some_and (\<lambda>m. held (pc_core p) + length d \<le> m) (payload_remaining (pc_core p))"
  with assms(1) show ?thesis
    by (auto simp: pc_inv_def queue_ok_def conn_inv_held payload_remaining_held roomy_def)
qed simp_all

lemma pc_copy_data_eq:
  "pc_copy_data py p d =
     (case with_buffer py d (\<lambda>b. b) of
        Inl e \<Rightarrow> (p, Inl e)
      | Inr b \<Rightarrow> core_result p (receive_data (pc_core p) b))"
  unfolding pc_copy_data_def
  by (subst with_buffer_map) (auto simp: core_result_def split: sum.split prod.split)

lemma pc_copy_data_inv: "pc_inv p \<Longrightarrow> pc_inv (fst (pc_copy_data py p d))"
  using copied_inv [of p] by (auto simp: pc_copy_data_eq core_result_def split: sum.split prod.split)

text \<open>Receiving an object holds it, or copies what it gives.\<close>

lemma pc_receive_data_cases:
  obtains (holds) b c where "cast_exact_bytes py d = Some b" "hold_body_data (pc_core p) (length b) = (c, Some True)"
      "pc_receive_data py p d = (p\<lparr>pc_core := c, pc_queue := pc_queue p @ [b]\<rparr>, Inr ())"
    | (copies) "pc_receive_data py p d = pc_copy_data py p d"
    | (overflows) "pc_receive_data py p d = (p, Inl PanicException)"
proof (cases "cast_exact_bytes py d")
  case None
  then show thesis by (intro copies) (simp add: pc_receive_data_def)
next
  case (Some b)
  obtain c k where h: "hold_body_data (pc_core p) (length b) = (c, k)" by fastforce
  then show thesis
  proof (cases rule: hold_body_data_cases)
    case held
    with Some h show thesis by (intro holds) (simp_all add: pc_receive_data_def)
  next
    case refused
    with Some h show thesis by (intro copies) (simp add: pc_receive_data_def)
  next
    case overflows
    with Some h show thesis by (intro that(3)) (simp add: pc_receive_data_def)
  qed
qed

lemma pc_receive_data_inv:
  assumes "pc_inv p"
  shows "pc_inv (fst (pc_receive_data py p d))"
proof (cases rule: pc_receive_data_cases [of py d p])
  case (holds b c)
  with held_inv [OF assms holds(2)] show ?thesis by simp
qed (simp_all add: pc_copy_data_inv assms)


section \<open>Polling leaves the count of held bytes alone\<close>

lemma held_simps [simp]:
  "held (set_reader c r) = held c" "held (set_progress c p) = held c" "held (consume_input c n) = held c"
  "held (record_request c m v f b u) = held c" "held (record_response c) = held c"
  "held (record_informational c st) = held c" "held (poison_peer c) = held c"
  by (simp_all add: set_reader_def set_progress_def consume_input_def record_request_def record_response_def
      record_informational_def poison_peer_def Let_def)

lemma next_event_held: "next_event hp c = (c', r) \<Longrightarrow> held c' = held c"
  using limits_next_event(2) [of hp c] by simp

section \<open>Taking a held object\<close>

lemma payload_remaining_Some:
  assumes "payload_remaining c = Some n"
  obtains (fixed) "peer_state c = SendBody" "cyc_reader (cycle c) = ReadFixed n" "0 < n"
    | (chunk) b where "peer_state c = SendBody" "cyc_reader (cycle c) = ReadChunked (ChunkData n b)"
    | (close) "peer_state c = SendBody" "cyc_reader (cycle c) = ReadCloseDelimited" "n = usize_max"
  using assms by (auto simp: payload_remaining_def split: if_splits Reader.splits Chunk.splits)

text \<open>The connection after it: the reader has moved on, and the bytes are no longer counted.\<close>

lemma in_place_ok:
  assumes "payload_remaining c = Some n" and "0 < k" and "k \<le> held c" and "held c \<le> n"
  shows "\<exists>rd s e. advance_payload c k = (set_reader c rd, k, s, e)
    \<and> next_event_in_place c k
        = ((set_reader c rd)\<lparr>cycle := (cycle (set_reader c rd))\<lparr>waiting_for_continue := False\<rparr>, held := held c - k\<rparr>, Inr (s, e))
    \<and> (k < held c \<longrightarrow> is_some_and (\<lambda>m. held c - k \<le> m)
        (payload_remaining ((set_reader c rd)\<lparr>cycle := (cycle (set_reader c rd))\<lparr>waiting_for_continue := False\<rparr>, held := held c - k\<rparr>)))"
  using assms(1)
proof (cases rule: payload_remaining_Some)
  case fixed
  with assms(2-4) show ?thesis
    by (intro exI [of _ "ReadFixed (n - k)"] exI [of _ False])
       (simp add: advance_payload_def next_event_in_place_def Let_def peer_data_def advance_peer_data payload_remaining_def
         peer_state_def set_reader_def diff_le_mono)
next
  case (chunk b)
  with assms(2-4) show ?thesis
    by (intro exI [of _ "ReadChunked (if k = n then DataEnd else ChunkData (n - k) False)"] exI [of _ b]
          exI [of _ "k = n"])
       (simp add: advance_payload_def next_event_in_place_def Let_def peer_data_def advance_peer_data payload_remaining_def
         peer_state_def set_reader_def diff_le_mono)
next
  case close
  then have "set_reader c ReadCloseDelimited = c" by (simp add: set_reader_def)
  with close assms(2-4) show ?thesis
    by (intro exI [of _ "ReadCloseDelimited"] exI [of _ False])
       (simp add: advance_payload_def next_event_in_place_def Let_def peer_data_def advance_peer_data payload_remaining_def
         peer_state_def, arith)
qed

text \<open>A poll takes the first held object, or asks the core.\<close>

lemma pc_next_event_held:
  assumes "queue_ok p" and "pc_queue p = d # ds"
  obtains c s e where "next_event_in_place (pc_core p) (length d) = (c, Inr (s, e))"
    "pc_next_event hp cells p = (cells, \<lparr>pc_core = c, pc_queue = ds\<rparr>, Inr (data_to_py d s e))"
    "queue_ok \<lparr>pc_core = c, pc_queue = ds\<rparr>"
proof -
  let ?c = "pc_core p"
  from assms obtain n where n: "payload_remaining ?c = Some n" "held ?c \<le> n"
    by (auto simp: queue_ok_def split: option.splits)
  have d: "0 < length d" "length d \<le> held ?c" "held ?c - length d = length (concat ds)" "[] \<notin> set ds"
    using assms by (auto simp: queue_ok_def)
  from in_place_ok [OF n(1) d(1,2) n(2)] obtain c s e where
    c: "next_event_in_place ?c (length d) = (c, Inr (s, e))" "held c = held ?c - length d"
      "length d < held ?c \<longrightarrow> is_some_and (\<lambda>m. held ?c - length d \<le> m) (payload_remaining c)"
    by force
  have "0 < length (concat ds)" if "ds \<noteq> []" using that d(4) by (cases ds) auto
  with d have "ds \<noteq> [] \<Longrightarrow> length d < held ?c" by linarith
  with c d have "queue_ok \<lparr>pc_core = c, pc_queue = ds\<rparr>" by (auto simp: queue_ok_def)
  with c(1) assms(2) that show thesis by (simp add: pc_next_event_def)
qed

definition only_remote :: "'a py_result \<Rightarrow> bool" where
  "only_remote r = (case r of Inr _ \<Rightarrow> True | Inl (PyRemoteProtocolError _ _) \<Rightarrow> True | Inl _ \<Rightarrow> False)"

lemma pc_next_event_inv:
  assumes "httparse_ok hp" and "pc_inv p" and "pc_next_event hp cells p = (cells', p', r)"
  shows "pc_inv p' \<and> only_remote r"
proof (cases "pc_queue p")
  case Nil
  obtain c x where x: "next_event hp (pc_core p) = (c, x)" by fastforce
  from next_event_ok [OF assms(1), of "pc_core p"] assms(2) x have "conn_inv c" "roomy c" "x \<noteq> Inl Panic"
    by (auto simp: pc_inv_def)
  with assms(2,3) Nil x next_event_held [OF x] show ?thesis
    by (cases x) (auto simp: pc_next_event_def pc_inv_def queue_ok_def only_remote_def remote_error_def
        split: recv_error.splits NextEvent.splits prod.splits)
next
  case (Cons d ds)
  from assms(2) have q: "queue_ok p" by (simp add: pc_inv_def)
  from q Cons obtain c s e where "next_event_in_place (pc_core p) (length d) = (c, Inr (s, e))"
    "pc_next_event hp cells p = (cells, \<lparr>pc_core = c, pc_queue = ds\<rparr>, Inr (data_to_py d s e) :: 'a py_event py_result)"
    "queue_ok \<lparr>pc_core = c, pc_queue = ds\<rparr>"
    by (rule pc_next_event_held)
  with assms(2,3) next_event_in_place_inv [of "pc_core p" "length d"] limits_in_place(1) [of "pc_core p" "length d"] show ?thesis
    by (auto simp: pc_inv_def only_remote_def roomy_def)
qed

lemma start_next_cycle_queue:
  assumes "pc_inv p" and "start_next_cycle (pc_core p) = (c, r)"
  shows "pc_inv (p\<lparr>pc_core := c\<rparr>)"
proof (cases "pc_queue p")
  case Nil
  have "held c = held (pc_core p)" "limits c = limits (pc_core p)"
    using assms(2) by (auto simp: start_next_cycle_def split: if_splits sum.splits)
  with Nil assms start_next_cycle_inv [of "pc_core p"] show ?thesis by (simp add: pc_inv_def queue_ok_def roomy_def)
next
  case (Cons d ds)
  with assms(1) have "peer_state (pc_core p) = SendBody"
    by (auto simp: pc_inv_def queue_ok_def payload_remaining_def split: option.splits if_splits)
  with assms(2) have "c = pc_core p"
    by (cases "role (pc_core p)")
       (auto simp: start_next_cycle_def state_start_next_cycle_def peer_state_def split: if_splits)
  with assms(1) show ?thesis by simp
qed


section \<open>Every call keeps the invariant\<close>

lemma core_call_inv:
  assumes "pc_inv p" and "\<And>c r. x = (c, r) \<Longrightarrow> conn_inv c \<and> reader_kept (pc_core p) c"
  shows "pc_inv (fst (core_result p x))"
  using assms core_result_inv [OF assms(1)] by (cases x) blast

lemma pc_sends_inv:
  assumes "pc_inv p"
  shows "pc_inv (fst (pc_send_request py p m t h b v))"
    and "pc_inv (fst (pc_send_informational_response py p s h' r v))"
    and "pc_inv (fst (pc_send_response py p s h' b r v))"
    and "pc_inv (fst (pc_send_data py p d))"
    and "pc_inv (fst (pc_send_data_parts py p d))"
    and "pc_inv (fst (pc_end_of_message py p tr))"
    and "pc_inv (fst (pc_close p))"
proof -
  have inv: "conn_inv (pc_core p)" using assms by (simp add: pc_inv_def)
  show "pc_inv (fst (pc_send_request py p m t h b v))"
    using inv send_request_inv send_request_kept assms
    by (auto simp: pc_send_request_def request_body.framed_result_inv split: sum.split option.split intro!: core_call_inv)
  show "pc_inv (fst (pc_send_informational_response py p s h' r v))"
    using inv send_informational_inv send_informational_kept assms
    by (auto simp: pc_send_informational_response_def split: sum.split intro!: core_call_inv)
  show "pc_inv (fst (pc_send_response py p s h' b r v))"
    using inv send_response_inv send_response_kept assms
    by (auto simp: pc_send_response_def response_body.framed_result_inv split: sum.split option.split intro!: core_call_inv)
  show "pc_inv (fst (pc_send_data py p d))"
    using assms by (simp add: pc_send_data_def data_body.framed_result_inv)
  show "pc_inv (fst (pc_send_data_parts py p d))"
    using inv send_data_framing_inv send_data_framing_kept assms queue_ok_kept
    by (auto simp: pc_send_data_parts_def pc_inv_def split: sum.split prod.split) (use reader_kept_roomy in blast)+
  show "pc_inv (fst (pc_end_of_message py p tr))"
    using inv end_of_message_inv end_of_message_kept assms
    by (auto simp: pc_end_of_message_def split: sum.split intro!: core_call_inv)
  show "pc_inv (fst (pc_close p))"
    using close_inv [OF inv] close_kept assms by (auto simp: pc_close_def intro!: core_call_inv)
qed

lemma pc_start_next_cycle_inv: "pc_inv p \<Longrightarrow> pc_inv (fst (pc_start_next_cycle p))"
  using start_next_cycle_queue by (cases "start_next_cycle (pc_core p)") (simp add: pc_start_next_cycle_def core_result_def)

lemma returning_snd: "snd (fst (returning cells f x)) = fst x"
  by (cases x) (simp add: returning_def)

lemma perform_inv:
  assumes "httparse_ok hp" and "pc_inv (snd s)" and "perform py hp s call = (s', r)"
  shows "pc_inv (snd s') \<and> (call = CallNextEvent \<longrightarrow> only_remote r)"
proof -
  obtain cells p where s: "s = (cells, p)" by (cases s)
  have p: "pc_inv p" using assms(2) s by simp
  show ?thesis
  proof (cases "call = CallNextEvent")
    case True
    obtain cells1 p1 x where x: "pc_next_event hp cells p = (cells1, p1, x :: 'a py_event py_result)"
      by (cases "pc_next_event hp cells p :: py_cells \<times> PyConnection \<times> 'a py_event py_result")
    from pc_next_event_inv [OF assms(1) p x] True s assms(3) x show ?thesis
      by (cases x) (auto simp: only_remote_def)
  next
    case False
    have "pc_inv (snd (fst (perform py hp s call)))"
      using False pc_sends_inv [OF p] pc_receive_data_inv [OF p] pc_start_next_cycle_inv [OF p]
      by (cases call) (simp_all add: s returning_snd)
    with False assms(3) show ?thesis by simp
  qed
qed

interpretation py_safe: step_invariant "py_step py hp" "\<lambda>s. httparse_ok hp \<and> pc_inv (snd s)" for py hp
proof
  fix s l t
  assume "py_step py hp s l t" and inv: "httparse_ok hp \<and> pc_inv (snd s)"
  then obtain call r where "perform py hp s call = (t, r)" by (auto elim: py_step.cases)
  with inv show "httparse_ok hp \<and> pc_inv (snd t)" by (blast dest: perform_inv)
qed

lemma pc_new_inv:
  assumes "pc_new r h n l = Inr p" and "slots_fit n"
  shows "pc_inv p"
proof -
  from assms(1) obtain c where "p = \<lparr>pc_core = c, pc_queue = []\<rparr>" "conn_inv c" "limits c = \<lparr>max_head_bytes = h, max_header_count = n\<rparr>"
      "held c = 0"
    by (auto simp: pc_new_def Let_def conn_inv_new make_lenient_inv limits_new_def split: sum.splits if_splits)
       (auto simp: connection_new_def make_lenient_def)
  with assms(2) show ?thesis by (simp add: pc_inv_def queue_ok_def roomy_def)
qed

section \<open>Exceptions change nothing\<close>

lemma core_send_error:
  "core_result p x = (p', Inl e) \<Longrightarrow> (\<And>c e. x = (c, Inl e) \<Longrightarrow> c = pc_core p) \<Longrightarrow> p' = p"
  by (cases x) (force dest!: core_result_error)

lemma receive_data_error: "receive_data c d = (c', Inl e) \<Longrightarrow> c' = c"
  by (auto simp: receive_data_def split: if_splits)

lemma close_error: "close c = (c', Inl e) \<Longrightarrow> c' = c"
  by (auto simp: close_def split: sum.splits prod.splits dest: advance_local_error)

lemma returning_error: "returning cells f x = (s', Inl e) \<Longrightarrow> \<exists>p'. x = (p', Inl e) \<and> s' = (cells, p')"
  by (cases x; cases "snd x") (auto simp: returning_def)

lemma pc_receive_data_error:
  assumes "pc_receive_data py p d = (p', Inl e)"
  shows "p' = p"
proof (cases rule: pc_receive_data_cases [of py d p])
  case copies
  with assms show ?thesis
    by (auto simp: pc_copy_data_eq split: sum.splits dest: core_send_error receive_data_error)
qed (use assms in auto)

lemma pc_send_error:
  "pc_send_request py p m t h b v = (p', Inl e) \<Longrightarrow> p' = p"
  "pc_send_informational_response py p s h' r v = (p', Inl e) \<Longrightarrow> p' = p"
  "pc_send_response py p s h' b r v = (p', Inl e) \<Longrightarrow> p' = p"
  "pc_send_data py p d = (p', Inl e) \<Longrightarrow> p' = p"
  "pc_send_data_parts py p d = (p', Inl e) \<Longrightarrow> p' = p"
  "pc_end_of_message py p tr = (p', Inl e) \<Longrightarrow> p' = p"
  "pc_close p = (p', Inl e) \<Longrightarrow> p' = p"
proof -
  show "pc_send_request py p m t h b v = (p', Inl e) \<Longrightarrow> p' = p"
    by (auto simp: pc_send_request_def split: sum.splits option.splits
        dest: core_send_error send_request_error request_body.framed_result_error)
  show "pc_send_informational_response py p s h' r v = (p', Inl e) \<Longrightarrow> p' = p"
    by (auto simp: pc_send_informational_response_def split: sum.splits dest: core_send_error send_informational_error)
  show "pc_send_response py p s h' b r v = (p', Inl e) \<Longrightarrow> p' = p"
    by (auto simp: pc_send_response_def split: sum.splits option.splits
        dest: core_send_error send_response_error response_body.framed_result_error)
  show "pc_send_data py p d = (p', Inl e) \<Longrightarrow> p' = p"
    unfolding pc_send_data_def by (rule data_body.framed_result_error)
  show "pc_send_data_parts py p d = (p', Inl e) \<Longrightarrow> p' = p"
    by (auto simp: pc_send_data_parts_def split: sum.splits prod.splits dest: send_data_framing_error)
  show "pc_end_of_message py p tr = (p', Inl e) \<Longrightarrow> p' = p"
    by (auto simp: pc_end_of_message_def split: sum.splits dest: core_send_error end_of_message_error)
  show "pc_close p = (p', Inl e) \<Longrightarrow> p' = p"
    unfolding pc_close_def by (blast dest: core_send_error close_error)
qed

lemma perform_error:
  assumes "perform py hp s call = (s', Inl e)" and "call \<notin> {CallNextEvent, CallStartNextCycle}"
  shows "s' = s"
proof -
  obtain cells p where s: "s = (cells, p)" by (cases s)
  show ?thesis
    using assms
    by (cases call) (auto simp: s dest!: returning_error dest: pc_send_error pc_receive_data_error)
qed

section \<open>Sending through the binding\<close>

text \<open>What an object's bytes are, and that its length is theirs.\<close>

definition has_bytes :: "'o python \<Rightarrow> 'o \<Rightarrow> bytes \<Rightarrow> bool" where
  "has_bytes py v b \<longleftrightarrow> with_buffer py v (\<lambda>b. b) = Inr b"

lemma pc_send_data_core:
  "has_bytes py v b \<Longrightarrow> pc_send_data py p v = core_result p (send_data (pc_core p) b)"
  by (cases "send_data_framing (pc_core p) (length b)")
     (auto simp: has_bytes_def pc_send_data_def framed_eq prefix_and_suffix_def framed_result_def core_result_def send_data_def
       split: sum.splits)

lemma framed_join:
  "has_bytes py v b \<Longrightarrow> framed_result p (framed py (pc_core p) v f)
     = core_result p (case f (length b) of (c, Inl e) \<Rightarrow> (c, Inl e) | (c, Inr fr) \<Rightarrow> (c, Inr (join_framing fr b)))"
  by (cases "f (length b)")
     (auto simp: has_bytes_def framed_eq framed_result_def core_result_def join_framing_def split: sum.splits prod.splits)


section \<open>A held body is delivered as a copied one\<close>

text \<open>
  The connection that the core would be if it had been given the held objects as bytes: they
  are in front of what it has buffered.
\<close>

definition pc_view :: "PyConnection \<Rightarrow> Connection" where
  "pc_view p = (pc_core p)\<lparr>conn_input := buffer_extend buffer_default (concat (pc_queue p) @ input_bytes (pc_core p))\<rparr>"

lemma pc_view_input [simp]: "input_bytes (pc_view p) = concat (pc_queue p) @ input_bytes (pc_core p)"
  by (simp add: pc_view_def)

lemma pc_view_simps [simp]:
  "role (pc_view p) = role (pc_core p)" "conn_state (pc_view p) = conn_state (pc_core p)"
  "limits (pc_view p) = limits (pc_core p)" "eof (pc_view p) = eof (pc_core p)" "cycle (pc_view p) = cycle (pc_core p)"
  "buffer_inv (conn_input (pc_view p))" "peer_state (pc_view p) = peer_state (pc_core p)"
  by (simp_all add: pc_view_def peer_state_def)

lemma receiving_like:
  assumes "receiving cl c f p r" and "input_bytes c' = input_bytes c" and "buffer_inv (conn_input c')"
    and "role c' = role c" and "conn_state c' = conn_state c" and "limits c' = limits c" and "eof c' = eof c"
    and "cycle c' = cycle c"
  shows "receiving cl c' f p r"
  using assms by (simp add: receiving_def conn_base_def local_state_def peer_state_def)

definition py_receiving :: "bool \<Rightarrow> PyConnection \<Rightarrow> bytes \<Rightarrow> bytes \<Rightarrow> bytes \<Rightarrow> bool" where
  "py_receiving cl p f pl r \<longleftrightarrow>
     receiving cl (pc_view p) f pl r \<and> queue_ok p \<and> buffer_inv (conn_input (pc_core p))"

lemma py_receiving_held:
  assumes "py_receiving cl p f pl r" and "hold_body_data (pc_core p) (length b) = (c, Some True)" and "b \<noteq> []"
    and "f = b @ f'"
  shows "py_receiving cl (p\<lparr>pc_core := c, pc_queue := pc_queue p @ [b]\<rparr>) f' pl r"
proof (rule hold_body_data_cases [OF assms(2)])
  assume c: "c = pc_core p\<lparr>held := held (pc_core p) + length b\<rparr>" "input_bytes (pc_core p) = []"
    "is_some_and (\<lambda>m. held (pc_core p) + length b \<le> m) (payload_remaining (pc_core p))"
  let ?p = "p\<lparr>pc_core := c, pc_queue := pc_queue p @ [b]\<rparr>"
  have "receiving cl (pc_view p) f pl r" using assms(1) by (simp add: py_receiving_def)
  from receiving_arrive [OF this, of "length b"] assms(3,4)
  have "receiving cl ((pc_view p)\<lparr>conn_input := buffer_extend (conn_input (pc_view p)) b\<rparr>) f' pl r" by simp
  then have "receiving cl (pc_view ?p) f' pl r" by (rule receiving_like) (simp_all add: c)
  with assms(1,3) c show ?thesis by (auto simp: py_receiving_def queue_ok_def payload_remaining_held)
qed simp_all

lemma py_receiving_copied:
  assumes "py_receiving cl p f pl r" and "b \<noteq> []" and "f = b @ f'"
    and "receive_data (pc_core p) b = (c, Inr x)"
  shows "py_receiving cl (p\<lparr>pc_core := c\<rparr>) f' pl r"
proof -
  have c: "c = (pc_core p)\<lparr>conn_input := buffer_extend (conn_input (pc_core p)) b\<rparr>"
    using assms(2,4) by (auto simp: receive_data_def split: if_splits)
  have "receiving cl (pc_view p) f pl r" using assms(1) by (simp add: py_receiving_def)
  from receiving_arrive [OF this, of "length b"] assms(2,3)
  have "receiving cl ((pc_view p)\<lparr>conn_input := buffer_extend (conn_input (pc_view p)) b\<rparr>) f' pl r" by simp
  then have "receiving cl (pc_view (p\<lparr>pc_core := c\<rparr>)) f' pl r"
    by (rule receiving_like) (use assms(1) in \<open>simp_all add: c py_receiving_def\<close>)
  moreover have "queue_ok (p\<lparr>pc_core := c\<rparr>)"
    using assms(1) receive_data_kept [OF assms(4)] by (auto simp: py_receiving_def intro: queue_ok_kept)
  ultimately show ?thesis using assms(1) by (simp add: py_receiving_def c)
qed

lemma py_receiving_eof:
  assumes "py_receiving cl p [] pl r" and "receive_data (pc_core p) [] = (c, Inr x)"
  shows "py_receiving False (p\<lparr>pc_core := c\<rparr>) [] pl r"
proof -
  have c: "c = record_eof (pc_core p)" using assms(2) by (auto simp: receive_data_def split: if_splits)
  have in_c: "conn_input c = conn_input (pc_core p)" by (simp add: c record_eof_def Let_def)
  have "receiving cl (pc_view p) [] pl r" using assms(1) by (simp add: py_receiving_def)
  from receiving_eof [OF this] have "receiving False (pc_view (p\<lparr>pc_core := c\<rparr>)) [] pl r"
    by (rule receiving_like) (auto simp: c record_eof_def Let_def conn_disable_keep_alive_def)
  moreover have "queue_ok (p\<lparr>pc_core := c\<rparr>)"
    using assms(1) receive_data_kept [OF assms(2)] by (auto simp: py_receiving_def intro: queue_ok_kept)
  ultimately show ?thesis using assms(1) in_c by (simp add: py_receiving_def)
qed

text \<open>The first held object is the next piece of the body.\<close>

lemma piece_delivers:
  assumes "receiving cl c f pl r" and "payload_remaining c = Some n" and "0 < k" and "k \<le> n"
    and "k \<le> length (input_bytes c)" and "advance_payload c k = (c1, k', s, e)"
  shows "delivers cl f pl r (peer_data c1 k s e)"
  using assms(2)
proof (cases rule: payload_remaining_Some)
  case fixed
  with assms fixed_piece [OF assms(1) fixed(2) assms(3-5), of s e] show ?thesis
    by (auto simp: advance_payload_def Let_def)
next
  case (chunk b)
  with assms chunk_piece [OF assms(1) chunk(2) assms(3-5), of s e] show ?thesis
    by (auto simp: advance_payload_def Let_def)
next
  case close
  with assms close_piece [OF assms(1) close(2) assms(3,5), of s e] show ?thesis
    by (auto simp: advance_payload_def)
qed


lemma advance_payload_input_change:
  "advance_payload (c\<lparr>conn_input := b\<rparr>) k
     = (case advance_payload c k of (c1, n, s, e) \<Rightarrow> (c1\<lparr>conn_input := b\<rparr>, n, s, e))"
  by (simp add: advance_payload_def Let_def set_reader_def split: Reader.split Chunk.split)

lemma py_receiving_take:
  assumes "py_receiving cl p f pl r" and "pc_queue p = d # ds"
    and "next_event_in_place (pc_core p) (length d) = (c, Inr (s, e))" and "queue_ok \<lparr>pc_core = c, pc_queue = ds\<rparr>"
  shows "\<exists>pl'. pl = d @ pl' \<and> py_receiving cl \<lparr>pc_core = c, pc_queue = ds\<rparr> f pl' r"
proof -
  let ?c = "pc_core p" and ?v = "pc_view p" and ?k = "length d"
  from assms(1,2) obtain n where n: "payload_remaining ?c = Some n" "held ?c \<le> n" and v: "receiving cl ?v f pl r"
    by (auto simp: py_receiving_def queue_ok_def split: option.splits)
  have k: "0 < ?k" "?k \<le> held ?c" using assms(1,2) by (auto simp: py_receiving_def queue_ok_def)
  from in_place_ok [OF n(1) k n(2)] assms(3) obtain rd where
    rd: "advance_payload ?c ?k = (set_reader ?c rd, ?k, s, e)"
    and c: "c = (set_reader ?c rd)\<lparr>cycle := (cycle (set_reader ?c rd))\<lparr>waiting_for_continue := False\<rparr>, held := held ?c - ?k\<rparr>"
    by auto
  have "advance_payload ?v ?k = (set_reader ?v rd, ?k, s, e)"
    using rd by (simp add: pc_view_def advance_payload_input_change) (simp add: set_reader_def)
  moreover have "payload_remaining ?v = payload_remaining ?c" by (simp add: payload_remaining_def)
  ultimately have "delivers cl f pl r (peer_data (set_reader ?v rd) ?k s e)"
    using piece_delivers [OF v, of n ?k] k n assms(2) by simp
  moreover have sb: "peer_state (set_reader ?v rd) = SendBody" using v by (simp add: receiving_def)
  ultimately have pl: "d @ drop ?k pl = pl"
    and rec: "receiving cl ((set_reader ?v rd)\<lparr>cycle := (cycle (set_reader ?v rd))\<lparr>waiting_for_continue := False\<rparr>,
        conn_input := consume (conn_input (set_reader ?v rd)) ?k\<rparr>) f (drop ?k pl) r"
    using assms(2) by (simp_all add: peer_data_def advance_peer_data)
  from rec have "receiving cl (pc_view \<lparr>pc_core = c, pc_queue = ds\<rparr>) f (drop ?k pl) r"
    by (rule receiving_like) (simp_all add: c assms(2) set_reader_def)
  moreover have "conn_input c = conn_input ?c" by (simp add: c)
  ultimately have "py_receiving cl \<lparr>pc_core = c, pc_queue = ds\<rparr> f (drop ?k pl) r"
    using assms(1,4) by (simp add: py_receiving_def)
  with pl show ?thesis by metis
qed

lemma py_receiving_core:
  "py_receiving cl p f pl r \<Longrightarrow> pc_queue p = [] \<Longrightarrow> receiving cl (pc_core p) f pl r"
  by (auto simp: py_receiving_def elim: receiving_like)

lemma core_py_receiving:
  assumes "receiving cl c f pl r" and "held c = 0"
  shows "py_receiving cl \<lparr>pc_core = c, pc_queue = []\<rparr> f pl r"
proof -
  from assms(1) have "receiving cl (pc_view \<lparr>pc_core = c, pc_queue = []\<rparr>) f pl r"
    by (rule receiving_like) simp_all
  moreover have "buffer_inv (conn_input c)" using assms(1) by (simp add: receiving_def conn_base_def)
  ultimately show ?thesis using assms(2) by (simp add: py_receiving_def queue_ok_def)
qed

lemma pc_next_event_delivers:
  fixes p :: PyConnection
  assumes "py_receiving cl p f pl r" and "empty_section_ok hp"
  obtains (piece) p' d where
      "(pc_next_event hp cells p :: py_cells \<times> PyConnection \<times> 'o py_event py_result) = (cells, p', Inr (PyEvData d))"
      "pd_data d \<noteq> []" "\<exists>pl'. pl = pd_data d @ pl' \<and> py_receiving cl p' f pl' r"
    | (finished) p' m where
      "(pc_next_event hp cells p :: py_cells \<times> PyConnection \<times> 'o py_event py_result) = (cells, p', Inr (PyEvEndOfMessage m))"
      "headers_iter (ph_fields (pm_trailers m)) = []" "pl = []" "input_bytes (pc_core p') @ f = r" "pc_queue p' = []"
      "buffer_inv (conn_input (pc_core p'))"
      "peer_state (pc_core p') \<noteq> SendBody"
    | (wait) p' where
      "(pc_next_event hp cells p :: py_cells \<times> PyConnection \<times> 'o py_event py_result)
         = (cells, p', Inr (PyEvStatus PyNeedData))"
      "py_receiving cl p' f pl r" "f = [] \<Longrightarrow> cl"
proof (cases "pc_queue p")
  case (Cons d ds)
  from assms(1) have q: "queue_ok p" by (simp add: py_receiving_def)
  from q Cons obtain c s e where t: "next_event_in_place (pc_core p) (length d) = (c, Inr (s, e))"
    "(pc_next_event hp cells p :: py_cells \<times> PyConnection \<times> 'o py_event py_result)
       = (cells, \<lparr>pc_core = c, pc_queue = ds\<rparr>, Inr (data_to_py d s e))"
    "queue_ok \<lparr>pc_core = c, pc_queue = ds\<rparr>"
    by (rule pc_next_event_held)
  have "d \<noteq> []" using q Cons by (auto simp: queue_ok_def)
  with t py_receiving_take [OF assms(1) Cons t(1,3)] show thesis
    by (intro piece [of "\<lparr>pc_core = c, pc_queue = ds\<rparr>" "\<lparr>pd_data = d, pd_chunk_start = s, pd_chunk_end = e\<rparr>"])
       (simp_all add: data_to_py_def)
next
  case Nil
  have h: "held (pc_core p) = 0" using assms(1) Nil by (simp add: py_receiving_def queue_ok_def)
  have q: "p\<lparr>pc_core := c\<rparr> = \<lparr>pc_core = c, pc_queue = []\<rparr>" for c using Nil by simp
  from py_receiving_core [OF assms(1) Nil] assms(2) show thesis
  proof (cases rule: next_event_delivers)
    case (piece c' d s e)
    with next_event_held [OF piece(1)] h core_py_receiving Nil show thesis
      by (intro that(1) [of "\<lparr>pc_core = c', pc_queue = []\<rparr>" "\<lparr>pd_data = d, pd_chunk_start = s, pd_chunk_end = e\<rparr>"])
         (force simp: pc_next_event_def data_to_py_def q)+
  next
    case (finished c' hd)
    with Nil show thesis by (intro that(2) [of "\<lparr>pc_core = c', pc_queue = []\<rparr>" "\<lparr>pm_trailers = new_py hd\<rparr>"])
           (simp_all add: pc_next_event_def new_py_def q)
  next
    case (wait c')
    with next_event_held [OF wait(1)] h core_py_receiving [OF wait(2)] Nil show thesis
      by (intro that(3) [of "\<lparr>pc_core = c', pc_queue = []\<rparr>"]) (simp_all add: pc_next_event_def q)
  qed
qed


section \<open>A transfer through the binding\<close>

text \<open>
  Objects arrive whose bytes are the next ones of the stream: of any type that gives bytes,
  so that some are held and some are copied.
\<close>

datatype 'o py_transfer_op = ObjectArrives 'o | PeerCloses 'o | PyPoll

type_synonym py_transfer_state = "PyConnection \<times> bytes \<times> bytes"

fun py_transfer_step ::
  "'o python \<Rightarrow> httparse \<Rightarrow> py_transfer_state \<Rightarrow> 'o py_transfer_op \<Rightarrow> py_transfer_state option" where
  "py_transfer_step py hp (p, future, got) (ObjectArrives v) =
     (case with_buffer py v (\<lambda>b. b) of
        Inl _ \<Rightarrow> None
      | Inr b \<Rightarrow>
          if b \<noteq> [] \<and> take (length b) future = b then
            (case pc_receive_data py p v of
               (p', Inr _) \<Rightarrow> Some (p', drop (length b) future, got)
             | (p', Inl _) \<Rightarrow> None)
          else None)"
| "py_transfer_step py hp (p, future, got) (PeerCloses v) =
     (if with_buffer py v (\<lambda>b. b) = Inr [] \<and> future = [] then
        (case pc_receive_data py p v of (p', Inr _) \<Rightarrow> Some (p', future, got) | (p', Inl _) \<Rightarrow> None)
      else None)"
| "py_transfer_step py hp (p, future, got) PyPoll =
     (if peer_state (pc_core p) \<noteq> SendBody then None
      else case (pc_next_event hp cells_new p :: py_cells \<times> PyConnection \<times> 'o py_event py_result) of
             (_, p', Inr (PyEvData d)) \<Rightarrow> Some (p', future, got @ pd_data d)
           | (_, p', Inr (PyEvEndOfMessage m)) \<Rightarrow>
               if headers_iter (ph_fields (pm_trailers m)) = [] then Some (p', future, got) else None
           | (_, p', Inr (PyEvStatus PyNeedData)) \<Rightarrow> Some (p', future, got)
           | _ \<Rightarrow> None)"

fun py_transfer_inv :: "bool \<Rightarrow> bytes \<Rightarrow> bytes \<Rightarrow> py_transfer_state \<Rightarrow> bool" where
  "py_transfer_inv cl body rest (p, future, got) \<longleftrightarrow>
     (if peer_state (pc_core p) = SendBody
      then \<exists>pl cl'. body = got @ pl \<and> py_receiving cl' p future pl rest \<and> (cl' \<longrightarrow> cl)
      else got = body \<and> input_bytes (pc_core p) @ future = rest \<and> pc_queue p = [] \<and> buffer_inv (conn_input (pc_core p)))"

lemma pc_copy_data_ok:
  "with_buffer py v (\<lambda>b. b) = Inr b \<Longrightarrow> pc_copy_data py p v = (p', Inr x) \<Longrightarrow>
   \<exists>c. receive_data (pc_core p) b = (c, Inr ()) \<and> p' = p\<lparr>pc_core := c\<rparr>"
  by (cases "receive_data (pc_core p) b"; cases "snd (receive_data (pc_core p) b)")
     (auto simp: pc_copy_data_eq core_result_def)

lemma exact_bytes_with_buffer:
  "python_ok py \<Longrightarrow> cast_exact_bytes py v = Some b \<Longrightarrow> with_buffer py v use = Inr (use b)"
  by (simp add: with_buffer_def python_okD(1))

lemma py_arrival:
  assumes "python_ok py" and "py_receiving cl p f pl r" and "with_buffer py v (\<lambda>b. b) = Inr b" and "b \<noteq> []"
    and "f = b @ f'" and "pc_receive_data py p v = (p', Inr x)"
  shows "py_receiving cl p' f' pl r"
proof (cases rule: pc_receive_data_cases [of py v p])
  case (holds b' c)
  with exact_bytes_with_buffer [OF assms(1) holds(1), of "\<lambda>b. b"] assms(3) have "b' = b" by simp
  with holds py_receiving_held [OF assms(2) _ assms(4,5)] assms(6) show ?thesis by auto
next
  case copies
  with assms(6) pc_copy_data_ok [OF assms(3)] obtain c where
    "receive_data (pc_core p) b = (c, Inr ())" "p' = p\<lparr>pc_core := c\<rparr>" by metis
  with py_receiving_copied [OF assms(2,4,5)] show ?thesis by blast
qed (use assms(6) in simp)

lemma py_close:
  assumes "python_ok py" and "with_buffer py v (\<lambda>b. b) = Inr []" and "pc_receive_data py p v = (p', Inr x)"
  shows "\<exists>c. receive_data (pc_core p) [] = (c, Inr ()) \<and> p' = p\<lparr>pc_core := c\<rparr>"
proof (cases rule: pc_receive_data_cases [of py v p])
  case (holds b' c)
  with exact_bytes_with_buffer [OF assms(1) holds(1), of "\<lambda>b. b"] assms(2) have "b' = []" by simp
  with holds(2) show ?thesis by (simp add: hold_body_data_def)
next
  case copies
  with assms(2,3) pc_copy_data_ok show ?thesis by metis
qed (use assms(3) in simp)


lemma done_copies:
  assumes "peer_state (pc_core p) \<noteq> SendBody" and "with_buffer py v (\<lambda>b. b) = Inr b"
    and "pc_receive_data py p v = (p', Inr x)"
  shows "\<exists>c. receive_data (pc_core p) b = (c, Inr ()) \<and> p' = p\<lparr>pc_core := c\<rparr>"
proof (cases rule: pc_receive_data_cases [of py v p])
  case (holds b' c)
  with assms(1) show ?thesis by (auto elim!: hold_body_data_cases simp: payload_remaining_def)
next
  case copies
  with assms(2,3) pc_copy_data_ok show ?thesis by metis
qed (use assms(3) in simp)

lemma py_transfer_step_inv:
  fixes py :: "'o python"
  assumes "python_ok py" and "empty_section_ok hp" and "py_transfer_step py hp s op = Some t"
    and "py_transfer_inv cl body rest s"
  shows "py_transfer_inv cl body rest t"
proof -
  obtain p f g where s: "s = (p, f, g)" by (cases s)
  show ?thesis
  proof (cases op)
    case (ObjectArrives v)
    with assms(3) s obtain b p' where b: "with_buffer py v (\<lambda>b. b) = Inr b" "b \<noteq> []" "take (length b) f = b"
      "pc_receive_data py p v = (p', Inr ())" "t = (p', drop (length b) f, g)"
      by (auto split: sum.splits if_splits prod.splits)
    have f: "f = b @ drop (length b) f" using b(3) by (metis append_take_drop_id)
    show ?thesis
    proof (cases "peer_state (pc_core p) = SendBody")
      case True
      with assms(4) s obtain pl cl' where pl: "body = g @ pl" "py_receiving cl' p f pl rest" "cl' \<longrightarrow> cl" by auto
      from py_arrival [OF assms(1) pl(2) b(1,2) f b(4)] have "py_receiving cl' p' (drop (length b) f) pl rest" .
      moreover from this have "peer_state (pc_core p') = SendBody" by (simp add: py_receiving_def receiving_def)
      ultimately show ?thesis using b(5) pl(1,3) by auto
    next
      case False
      then obtain c where c: "receive_data (pc_core p) b = (c, Inr ())" "p' = p\<lparr>pc_core := c\<rparr>"
        using done_copies [OF False b(1,4)] by blast
      with b(2) have "c = (pc_core p)\<lparr>conn_input := buffer_extend (conn_input (pc_core p)) b\<rparr>"
        by (auto simp: receive_data_def split: if_splits)
      with False assms(4) s c(2) b(5) f show ?thesis by (simp add: peer_state_def)
    qed
  next
    case (PeerCloses v)
    with assms(3) s obtain p' where b: "with_buffer py v (\<lambda>b. b) = Inr []" "f = []"
      "pc_receive_data py p v = (p', Inr ())" "t = (p', [], g)"
      by (auto split: sum.splits if_splits prod.splits)
    from py_close [OF assms(1) b(1,3)] obtain c where c: "receive_data (pc_core p) [] = (c, Inr ())" "p' = p\<lparr>pc_core := c\<rparr>"
      by blast
    have e: "c = record_eof (pc_core p)" using c(1) by (auto simp: receive_data_def split: if_splits)
    then have "conn_input c = conn_input (pc_core p)" by (simp add: record_eof_def Let_def)
    with e assms(4) s c b(2,4) peer_state_eof [of "pc_core p"] py_receiving_eof [of _ p _ rest c] show ?thesis
      by (auto split: if_splits)
  next
    case PyPoll
    with assms(3,4) s have sb: "peer_state (pc_core p) = SendBody" by (auto split: if_splits)
    with assms(4) s obtain pl cl' where pl: "body = g @ pl" "py_receiving cl' p f pl rest" "cl' \<longrightarrow> cl" by auto
    from pl(2) assms(2) show ?thesis
    proof (cases rule: pc_next_event_delivers [where cells = cells_new and 'o = 'o])
      case (piece p' d)
      then obtain pl' where "pl = pd_data d @ pl'" "py_receiving cl' p' f pl' rest" by blast
      moreover from this have "peer_state (pc_core p') = SendBody" by (simp add: py_receiving_def receiving_def)
      ultimately show ?thesis using assms(3) s PyPoll sb piece(1) pl(1,3) by auto
    next
      case (finished p' m)
      then show ?thesis using assms(3) s PyPoll sb pl(1) by auto
    next
      case (wait p')
      then have "peer_state (pc_core p') = SendBody" by (simp add: py_receiving_def receiving_def)
      with wait show ?thesis using assms(3) s PyPoll sb pl(1,3) by auto
    qed
  qed
qed


lemma py_transfer_run_inv:
  assumes "python_ok py" and "empty_section_ok hp" and "exec_run (py_transfer_step py hp) s ops = Some t"
    and "py_transfer_inv cl body rest s"
  shows "py_transfer_inv cl body rest t"
  using assms(3,4)
proof (induction ops arbitrary: s)
  case (Cons op ops)
  then show ?case using py_transfer_step_inv [OF assms(1,2)] by (auto split: option.splits)
qed simp

lemma py_transfer_completes:
  fixes py :: "'o python"
  assumes "empty_section_ok hp" and "py_receiving False p [] pl r"
  shows "\<exists>n p'. exec_run (py_transfer_step py hp) (p, [], g) (replicate n PyPoll) = Some (p', [], g @ pl)
    \<and> peer_state (pc_core p') \<noteq> SendBody"
  using assms(2)
proof (induction "length pl" arbitrary: p pl g rule: less_induct)
  case less
  have sb: "peer_state (pc_core p) = SendBody" using less.prems by (simp add: py_receiving_def receiving_def)
  from less.prems assms(1) show ?case
  proof (cases rule: pc_next_event_delivers [where cells = cells_new and 'o = 'o])
    case (piece p' d)
    then obtain pl' where p': "pl = pd_data d @ pl'" "py_receiving False p' [] pl' r" by blast
    then obtain n p'' where
      "exec_run (py_transfer_step py hp) (p', [], g @ pd_data d) (replicate n PyPoll) = Some (p'', [], (g @ pd_data d) @ pl')"
      "peer_state (pc_core p'') \<noteq> SendBody"
      using less.hyps [of pl' p' "g @ pd_data d"] piece(2) by auto
    with sb piece(1) p'(1) show ?thesis by (intro exI [of _ "Suc n"] exI [of _ p'']) simp
  next
    case (finished p' m)
    with sb show ?thesis by (intro exI [of _ 1] exI [of _ p']) simp
  qed simp
qed


text \<open>The steps as a function, so that runs compute.\<close>

fun py_apply ::
  "'o python \<Rightarrow> httparse \<Rightarrow> py_process \<Rightarrow> 'o py_call \<times> 'o py_value py_result \<Rightarrow> py_process option" where
  "py_apply py hp s (call, r) = (case perform py hp s call of (s', r') \<Rightarrow> if r' = r then Some s' else None)"

interpretation py_exec: executable_step "py_step py hp" "py_apply py hp" for py hp
  by unfold_locales (auto split: prod.splits if_splits)

section \<open>Properties\<close>

text \<open>
  C5: holding received objects instead of copying them is invisible. A body that one end
  sends, and whose bytes reach the binding as objects of any types in any segmentation,
  interleaved with polls in any way, some objects held and some copied, is delivered as it
  was sent: the data so far is always a prefix of it; no poll raises; when the end is
  reported the data is the whole body, nothing is left in the queue and exactly the bytes of
  the body have been consumed; and once they have all arrived polling on reaches that end. The
  receiving end is \<open>ready\<close> as in the transfer of the core.
\<close>

theorem held_body_transfer:
  fixes py :: "'o python"
  assumes "python_ok py" and "empty_section_ok hp" and "conn_inv s" and "writer (cycle s) = Some w"
    and "send_message_body s ds headers_new = Some (s', wire)"
    and "\<forall>d \<in> set ds. length d \<le> usize_max" and "w = CloseDelimited \<longrightarrow> rest = []" and "ready c w" and "held c = 0"
    and "exec_run (py_transfer_step py hp) (\<lparr>pc_core = c, pc_queue = []\<rparr>, wire @ rest, []) ops = Some (p', future, got)"
  shows "if peer_state (pc_core p') = SendBody
    then (\<exists>more. concat ds = got @ more)
      \<and> (\<exists>ev. snd (snd (pc_next_event hp cells_new p' :: py_cells \<times> PyConnection \<times> 'o py_event py_result)) = Inr ev)
      \<and> (future = [] \<and> (w = CloseDelimited \<longrightarrow> eof (pc_core p')) \<longrightarrow>
          (\<exists>n p''. exec_run (py_transfer_step py hp) (p', future, got) (replicate n PyPoll) = Some (p'', future, concat ds)
            \<and> peer_state (pc_core p'') \<noteq> SendBody))
    else got = concat ds \<and> input_bytes (pc_core p') @ future = rest \<and> pc_queue p' = []"
proof -
  let ?p = "\<lparr>pc_core = c, pc_queue = []\<rparr>"
  have "py_receiving (w = CloseDelimited) ?p (wire @ rest) (concat ds) rest"
    using ready_receiving [OF assms(8) sent_is_pending [OF assms(3-7)]] assms(9) by (rule core_py_receiving)
  then have "py_transfer_inv (w = CloseDelimited) (concat ds) rest (?p, wire @ rest, [])"
    using assms(8) by (auto simp: ready_def)
  from py_transfer_run_inv [OF assms(1,2,10) this] have inv: "py_transfer_inv (w = CloseDelimited) (concat ds) rest (p', future, got)" .
  show ?thesis
  proof (cases "peer_state (pc_core p') = SendBody")
    case True
    with inv obtain pl cl where pl: "concat ds = got @ pl" "py_receiving cl p' future pl rest" "cl \<longrightarrow> w = CloseDelimited"
      by auto
    have "\<exists>ev. snd (snd (pc_next_event hp cells_new p' :: py_cells \<times> PyConnection \<times> 'o py_event py_result)) = Inr ev"
      using pl(2) assms(2) by (cases rule: pc_next_event_delivers [where cells = cells_new and 'o = 'o]) auto
    moreover have "\<not> cl" if "w = CloseDelimited \<longrightarrow> eof (pc_core p')"
      using that pl(2,3) by (auto simp: py_receiving_def receiving_def)
    ultimately show ?thesis
      using True pl(1,2) py_transfer_completes [OF assms(2), of p' pl rest py got] by auto
  next
    case False
    with inv show ?thesis by auto
  qed
qed

definition sample_arrivals :: "sample_object py_transfer_op list" where
  "sample_arrivals =
     [ObjectArrives (SBytes (''2'' @ CRLF)), PyPoll, ObjectArrives (SBytes ''he''),
      ObjectArrives (SByteArray (CRLF @ ''3'' @ CRLF @ ''llo'' @ CRLF @ ''0'' @ CRLF @ CRLF))]"

definition sample_held :: "py_transfer_state option" where
  "sample_held = exec_run (py_transfer_step sample_python sample_httparse)
     (\<lparr>pc_core = sample_receiver, pc_queue = []\<rparr>, sample_wire, []) sample_arrivals"

lemma sample_held_midway:
  "case sample_held of
     Some (p', future, got) \<Rightarrow> peer_state (pc_core p') = SendBody \<and> pc_queue p' = [''he''] \<and> future = [] \<and> got = []
   | None \<Rightarrow> False"
  by code_simp

theorem held_body_transfer_witness:
  "\<exists>p' n p''. sample_held = Some (p', [], []) \<and> pc_queue p' = [''he'']
     \<and> exec_run (py_transfer_step sample_python sample_httparse) (p', [], []) (replicate n PyPoll) = Some (p'', [], ''hello'')"
proof -
  obtain s' where m: "send_message_body sample_sender [''he'', ''llo''] headers_new = Some (s', sample_wire)"
    using sample_wire_sent by blast
  obtain p' where r: "sample_held = Some (p', [], [])" "peer_state (pc_core p') = SendBody" "pc_queue p' = [''he'']"
    using sample_held_midway by (auto split: option.splits)
  have "length d \<le> usize_max" if "d \<in> set [''he'', ''llo'']" for d using that by (auto simp: usize_max_def)
  moreover have "held sample_receiver = 0" by (simp add: sample_receiver_def connection_new_def)
  ultimately obtain n p'' where
    "exec_run (py_transfer_step sample_python sample_httparse) (p', [], []) (replicate n PyPoll) = Some (p'', [], ''hello'')"
    using held_body_transfer [OF sample_python_ok sample_empty_section sample_sender_inv m _ _ sample_receiver_ready,
        of "[]" sample_arrivals p' "[]" "[]"] r(2) r(1) [unfolded sample_held_def]
    by (auto simp del: exec_run.simps)
  with r show ?thesis by blast
qed


text \<open>
  C13: polling through the binding raises nothing but the peer's protocol errors. Whatever
  calls a program makes on a \<open>Connection\<close>, made with a limit on fields whose slots can exist,
  with whatever objects, and whatever they raise, a later \<open>next_event\<close> neither panics nor finds
  a held object that the core refuses; and \<open>buffered_nbytes\<close> is the number of bytes received
  and not yet delivered or parsed.
\<close>

theorem binding_polls_safely:
  assumes "httparse_ok hp" and "pc_new r n m lenient_flag = Inr p" and "slots_fit m"
    and "run (py_step py hp) (cells_new, p) ls s"
  shows "pc_inv (snd s) \<and> (\<forall>(call, result) \<in> set ls. call = CallNextEvent \<longrightarrow> only_remote result)
     \<and> pc_buffered_nbytes (snd s) = length (concat (pc_queue (snd s))) + length (input_bytes (pc_core (snd s)))"
proof -
  have start: "httparse_ok hp \<and> pc_inv (snd (cells_new, p))" using assms(1) pc_new_inv [OF assms(2,3)] by simp
  have inv: "pc_inv (snd s)" using py_safe.run_inv [OF assms(4) start] by simp
  have "case l of (call, result) \<Rightarrow> call = CallNextEvent \<longrightarrow> only_remote result"
    if "py_step py hp u l v" and "httparse_ok hp \<and> pc_inv (snd u)" for u l v
    using that by (auto elim!: py_step.cases dest: perform_inv)
  then have "\<forall>l \<in> set ls. case l of (call, result) \<Rightarrow> call = CallNextEvent \<longrightarrow> only_remote result"
    using py_safe.run_labels [OF assms(4) start,
        where P = "\<lambda>l. case l of (call, result) \<Rightarrow> call = CallNextEvent \<longrightarrow> only_remote result"]
    by blast
  moreover have "pc_buffered_nbytes (snd s) = length (concat (pc_queue (snd s))) + length (input_bytes (pc_core (snd s)))"
    using inv by (auto simp: pc_inv_def queue_ok_def pc_buffered_nbytes_def trailing_data_def held_body_len_def)
  ultimately show ?thesis using inv by blast
qed

definition sample_pc :: PyConnection where
  "sample_pc = projr (pc_new PyRoleServer 100 10 False)"

definition sample_calls :: "(sample_object py_call \<times> sample_object py_value py_result) list" where
  "sample_calls =
     [(CallReceiveData (SBytes ''GET''), Inr ValueNone), (CallReceiveData (SByteArray []), Inr ValueNone),
      (CallNextEvent, Inl (PyRemoteProtocolError ''unexpected EOF in HTTP head'' (Some 400)))]"

theorem binding_polls_safely_witness:
  "\<exists>s. run (py_step sample_python sample_httparse) (cells_new, sample_pc) sample_calls s
     \<and> pc_inv (snd s) \<and> pc_buffered_nbytes (snd s) = length (concat (pc_queue (snd s))) + length (input_bytes (pc_core (snd s)))"
proof -
  have new: "pc_new PyRoleServer 100 10 False = Inr sample_pc"
    by (simp add: sample_pc_def pc_new_def limits_new_def Let_def)
  have "exec_run (py_apply sample_python sample_httparse) (cells_new, sample_pc) sample_calls \<noteq> None"
    by code_simp
  then obtain s where "run (py_step sample_python sample_httparse) (cells_new, sample_pc) sample_calls s"
    by (auto simp: py_exec.exec_run_iff)
  moreover have "slots_fit 10" by code_simp
  ultimately show ?thesis using binding_polls_safely [OF sample_httparse_ok new] by blast
qed

text \<open>
  C15: a call that raises changes nothing. Whatever exception a call of \<open>receive_data\<close>, of a
  send method or of \<open>close\<close> raises, from reading its arguments or from the protocol, the
  connection, its queue and the shared objects are as they were.
\<close>

theorem raising_call_changes_nothing:
  assumes "perform py hp s call = (s', Inl e)" and "call \<notin> {CallNextEvent, CallStartNextCycle}"
  shows "s' = s"
  using assms by (rule perform_error)

theorem raising_call_changes_nothing_witness:
  "fst (perform sample_python sample_httparse (cells_new, sample_pc)
     (CallSendResponse (SInt 200) (Some (STuple [STuple [SStr ''A'', SBytes ''b'']])) (Some (SInt 5)) None None))
   = (cells_new, sample_pc)"
proof -
  let ?call = "CallSendResponse (SInt 200) (Some (STuple [STuple [SStr ''A'', SBytes ''b'']])) (Some (SInt 5)) None None"
  have "isl (snd (perform sample_python sample_httparse (cells_new, sample_pc) ?call))" by code_simp
  then obtain e where "perform sample_python sample_httparse (cells_new, sample_pc) ?call
      = (fst (perform sample_python sample_httparse (cells_new, sample_pc) ?call), Inl e)"
    by (metis isl_def prod.collapse)
  from raising_call_changes_nothing [OF this] show ?thesis by simp
qed

text \<open>
  C14: the send methods write what the core would write for the same bytes. For an object with
  the bytes \<open>b\<close>, of whatever type, \<open>send_data\<close> and a complete message give the core's result
  for \<open>b\<close>, with the body copied once between its framing; and where the object has that many
  bytes, the parts of \<open>send_data_parts\<close> around it are the same bytes.
\<close>

theorem binding_sends_as_core:
  assumes "has_bytes py v b"
    and "extract_request py m t h ver = Inr q" and "py_status py st = Inr code"
    and "extract_response py code hs rs ver' = Inr a" and "body_nbytes py v = Inr (length b)"
  shows "pc_send_data py p v = core_result p (send_data (pc_core p) b)
    \<and> pc_send_request py p m t h (Some v) ver = core_result p (send_request_with_body (pc_core p) q b)
    \<and> pc_send_response py p st hs (Some v) rs ver' = core_result p (send_response_with_body (pc_core p) a b)
    \<and> (case pc_send_data_parts py p v of
         (p', r) \<Rightarrow> (p', map_sum id (\<lambda>(before, w, after). before @ b @ after) r) = pc_send_data py p v
           \<and> (\<forall>before w after. r = Inr (before, w, after) \<longrightarrow> w = v))"
proof -
  note data = pc_send_data_core [OF assms(1), of p]
  have "pc_send_request py p m t h (Some v) ver = core_result p (send_request_with_body (pc_core p) q b)"
    using framed_join [OF assms(1)] assms(2) by (simp add: pc_send_request_def send_request_with_body_def)
  moreover have "pc_send_response py p st hs (Some v) rs ver' = core_result p (send_response_with_body (pc_core p) a b)"
    using framed_join [OF assms(1)] assms(3,4) by (simp add: pc_send_response_def send_response_with_body_def)
  moreover have "case pc_send_data_parts py p v of
         (p', r) \<Rightarrow> (p', map_sum id (\<lambda>(before, w, after). before @ b @ after) r) = core_result p (send_data (pc_core p) b)
           \<and> (\<forall>before w after. r = Inr (before, w, after) \<longrightarrow> w = v)"
    using assms(5)
    by (cases "send_data_framing (pc_core p) (length b)")
       (auto simp: pc_send_data_parts_def send_data_def core_result_def split: sum.split)
  ultimately show ?thesis by (simp add: data)
qed

theorem binding_sends_as_core_witness:
  "pc_send_data sample_python \<lparr>pc_core = sample_sending, pc_queue = []\<rparr> (SByteArray ''hello'')
   = core_result \<lparr>pc_core = sample_sending, pc_queue = []\<rparr> (send_data sample_sending ''hello'')"
proof -
  let ?h = "STuple [STuple [SStr ''Host'', SBytes ''x'']]"
  have b: "has_bytes sample_python (SByteArray ''hello'') ''hello''" "body_nbytes sample_python (SByteArray ''hello'') = Inr (length ''hello'')"
    by code_simp+
  let ?code = "projr (py_status sample_python (SInt 200))"
  have "\<not> isl (extract_request sample_python (SStr ''GET'') (SBytes ''/'') ?h None)"
    and "\<not> isl (py_status sample_python (SInt 200))"
    and "\<not> isl (extract_response sample_python ?code (Some ?h) None None)"
    by code_simp+
  then obtain q a where q: "extract_request sample_python (SStr ''GET'') (SBytes ''/'') ?h None = Inr q"
    and code: "py_status sample_python (SInt 200) = Inr ?code"
    and a: "extract_response sample_python ?code (Some ?h) None None = Inr a"
    by (metis sum.collapse(2))
  from binding_sends_as_core [OF b(1) q code a b(2), of "\<lparr>pc_core = sample_sending, pc_queue = []\<rparr>"] show ?thesis by simp
qed

end
