(* ===== verification/H11r_Segmentation.thy ===== *)
theory H11r_Segmentation
  imports H11r_Reports
begin

text \<open>
  What a connection reports does not depend on how the peer's bytes are cut into pieces, on
  when the application polls, or on whether the end of the input is known early. Every run is
  compared with the one in which all bytes and the end of the input arrive before the first
  poll: a turn of polling taken early is a turn, or a part of one, that this run takes too.
\<close>

section \<open>Changes that advancing the peer does not notice\<close>


lemma disable_keep_alive_settle: "disable_keep_alive s = settle (s\<lparr>cs_keep_alive := False\<rparr>)"
  by (simp add: state_op_defs)

lemma process_event_disable:
  assumes "lifecycle_inv s"
  shows "process_event (disable_keep_alive s) Server e = map_sum id disable_keep_alive (process_event s Server e)"
proof (cases s)
  case (fields c v k p)
  have "legal_pair c v" using assms fields by (simp add: lifecycle_inv_def)
  then show ?thesis
    using assms fields
    by (cases c; cases e)
       (auto simp: process_event_eqs disable_keep_alive_settle settle_simps accept_if_def lifecycle_inv_def)
qed

lemma disable_twice: "disable_keep_alive (disable_keep_alive s) = disable_keep_alive s"
proof -
  have "disable_keep_alive s\<lparr>cs_keep_alive := False\<rparr> = disable_keep_alive s"
    by (simp add: disable_keep_alive_settle settle_def Let_def)
  then show ?thesis
    by (metis disable_keep_alive_settle settle_settle)
qed

text \<open>
  A change of the connection that the functions advancing the peer's side do not notice: it
  may be made before or after them.
\<close>

locale bystander =
  fixes t :: "Connection \<Rightarrow> Connection" and ok :: "Connection \<Rightarrow> bool"
  assumes advance: "ok c \<Longrightarrow> advance_peer (t c) e = apfst t (advance_peer c e)"
    and disable: "conn_disable_keep_alive (t c) = t (conn_disable_keep_alive c)"
    and version: "(t c)\<lparr>peer_version := v\<rparr> = t (c\<lparr>peer_version := v\<rparr>)"
    and reader_set: "set_reader (t c) rd = t (set_reader c rd)"
    and waiting: "clear_waiting (t c) = t (clear_waiting c)"
    and request: "record_request (t c) m ver f w us = t (record_request c m ver f w us)"
    and informational: "record_informational (t c) s = t (record_informational c s)"
    and response: "record_response (t c) = t (record_response c)"
    and idle: "ok c \<Longrightarrow> local_state (t c) = Idle \<longleftrightarrow> local_state c = Idle"
    and queries: "response_has_no_body (t c) s = response_has_no_body c s"
      "final_response_event (t c) s = final_response_event c s"
      "informational_event (t c) s ver h = informational_event c s ver h"
begin

lemmas laws = version reader_set waiting request informational response queries disable

lemma accept_request: "ok c \<Longrightarrow> accept_request (t c) r = apfst t (accept_request c r)"
  by (auto simp: accept_request_def Let_def advance laws split: sum.split prod.split)

lemma accept_informational: "ok c \<Longrightarrow> accept_informational (t c) r b = apfst t (accept_informational c r b)"
  by (auto simp: accept_informational_def Let_def advance laws split: sum.split prod.split option.split)

lemma accept_final: "ok c \<Longrightarrow> accept_final (t c) r f d = apfst t (accept_final c r f d)"
  by (cases d) (auto simp: accept_final_def Let_def advance laws split: sum.split prod.split)

lemma accept_response: "ok c \<Longrightarrow> accept_response (t c) r = apfst t (accept_response c r)"
  by (simp add: accept_response_def Let_def idle accept_informational accept_final)

lemma finish_peer: "ok c \<Longrightarrow> finish_peer (t c) h = apfst t (finish_peer c h)"
  by (auto simp: finish_peer_def advance laws split: sum.split prod.split)

lemma peer_closed: "ok c \<Longrightarrow> peer_closed (t c) = apfst t (peer_closed c)"
  by (auto simp: peer_closed_def advance split: sum.split prod.split)

lemma peer_data: "ok c \<Longrightarrow> peer_data (t c) n b e = apfst t (peer_data c n b e)"
  using waiting by (auto simp: peer_data_def clear_waiting_def advance split: sum.split prod.split)

end

text \<open>The bytes and the scan positions behind them are bystanders, and so is the end of the input.\<close>

definition swap :: "Buffer \<Rightarrow> SectionProgress \<Rightarrow> Connection \<Rightarrow> Connection" where
  "swap b p c = c\<lparr>conn_input := b, cycle := (cycle c)\<lparr>progress := p\<rparr>\<rparr>"

interpretation swap: bystander "swap b p" "\<lambda>_. True" for b p
  by unfold_locales
     (auto simp: swap_def advance_peer_def conn_disable_keep_alive_def set_reader_def clear_waiting_def record_request_def
       record_informational_def record_response_def response_has_no_body_def final_response_event_def informational_event_def
       local_state_def request_is_def opens_tunnel_def valid_upgrade_response_def Let_def split: sum.split)

definition ok_state :: "Connection \<Rightarrow> bool" where
  "ok_state c \<longleftrightarrow> lifecycle_inv (conn_state c)"

lemma disable_idle:
  assumes "lifecycle_inv s"
  shows "role_state (disable_keep_alive s) r = Idle \<longleftrightarrow> role_state s r = Idle"
proof (cases s)
  case (fields c v k p)
  with assms show ?thesis
    by (cases r; cases c; cases v) (simp_all add: disable_keep_alive_settle lifecycle_inv_def settle_simps)
qed

lemma cycle_queries:
  assumes "cycle d = cycle c"
  shows "response_has_no_body d s = response_has_no_body c s"
    and "final_response_event d s = final_response_event c s"
    and "informational_event d s ver h = informational_event c s ver h"
  using assms
  by (simp_all add: response_has_no_body_def final_response_event_def informational_event_def request_is_def
      opens_tunnel_def valid_upgrade_response_def)

lemma record_eof_simps [simp]:
  "cycle (record_eof c) = cycle c" "conn_input (record_eof c) = conn_input c" "eof (record_eof c)"
  "role (record_eof c) = role c" "limits (record_eof c) = limits c" "lenient (record_eof c) = lenient c"
  by (simp_all add: record_eof_def conn_disable_keep_alive_def Let_def)

interpretation ended: bystander record_eof ok_state
proof unfold_locales
  fix c e assume "ok_state c"
  then show "advance_peer (record_eof c) e = apfst record_eof (advance_peer c e)"
    by (cases "role c") (auto simp: advance_peer_def record_eof_def conn_disable_keep_alive_def ok_state_def
        process_event_disable Let_def split: sum.split)
next
  fix c assume "ok_state c"
  then show "local_state (record_eof c) = Idle \<longleftrightarrow> local_state c = Idle"
    using disable_idle [of "conn_state c" "role c"]
    by (cases "role c") (simp_all add: local_state_def record_eof_def conn_disable_keep_alive_def ok_state_def Let_def)
next
  fix c s ver h
  show "response_has_no_body (record_eof c) s = response_has_no_body c s"
    and "final_response_event (record_eof c) s = final_response_event c s"
    and "informational_event (record_eof c) s ver h = informational_event c s ver h"
    by (intro cycle_queries; simp)+
qed (auto simp: record_eof_def conn_disable_keep_alive_def disable_twice set_reader_def clear_waiting_def record_request_def
       record_informational_def record_response_def Let_def)

section \<open>Turns\<close>

text \<open>One turn of \<open>next_event_inner\<close>, and what \<open>next_event\<close> makes of its result.\<close>

definition turn :: "httparse \<Rightarrow> Connection \<Rightarrow> Connection \<times> polled_result option" where
  "turn hp c = (case poll_peer_state c of Some (c1, r) \<Rightarrow> (c1, Some r) | None \<Rightarrow> read_body hp c)"

lemma next_event_inner_turn:
  "next_event_inner hp c = (case turn hp c of (c1, Some r) \<Rightarrow> (c1, r) | (c1, None) \<Rightarrow> next_event_inner hp c1)"
  by (subst next_event_inner.simps) (auto simp: turn_def split: option.split prod.split)

lemma next_event_turn:
  "turn hp c = (c1, None) \<Longrightarrow> next_event hp c = next_event hp c1"
  "turn hp c = (c1, Some (Inr (PolledEvent e))) \<Longrightarrow> next_event hp c = (c1, Inr (NextEvent e))"
  "turn hp c = (c1, Some (Inr (PolledData n b f))) \<Longrightarrow>
     next_event hp c = (consume_input c1 n, Inr (NextEvent (EventData (take n (input_bytes c1)) b f)))"
  "turn hp c = (c1, Some (Inr PolledNeedData)) \<Longrightarrow> next_event hp c = (c1, Inr NeedData)"
  "turn hp c = (c1, Some (Inr PolledPaused)) \<Longrightarrow> next_event hp c = (c1, Inr Paused)"
  "turn hp c = (c1, Some (Inl Panic)) \<Longrightarrow> next_event hp c = (c1, Inl Panic)"
  "turn hp c = (c1, Some (Inl (Remote err))) \<Longrightarrow>
     next_event hp c = (poison_peer c1, Inl (Remote (if role c1 = Client then err\<lparr>suggested_status_code := None\<rparr> else err)))"
  using next_event_inner_turn [of hp c] by (simp_all add: next_event_def buffer_take_eq consume_input_def)

text \<open>
  Where polling to the end comes to: the events, the body, the states and what is left, or the
  status of an error.
\<close>

datatype settlement = Settled "Event list" bytes "State \<times> State" bytes | Failed "nat option"

fun add_event :: "Event \<Rightarrow> settlement \<Rightarrow> settlement" where
  "add_event e (Settled es body states rest) = Settled (e # es) body states rest"
| "add_event e (Failed status) = Failed status"

fun add_body :: "bytes \<Rightarrow> settlement \<Rightarrow> settlement" where
  "add_body d (Settled es body states rest) = Settled es (d @ body) states rest"
| "add_body d (Failed status) = Failed status"

definition as_it_stands :: "Event list \<Rightarrow> Connection \<Rightarrow> settlement" where
  "as_it_stands es c = Settled es [] (local_state c, peer_state c) (input_bytes c)"

inductive settles :: "httparse \<Rightarrow> Connection \<Rightarrow> settlement \<Rightarrow> bool" for hp where
  again: "turn hp c = (c1, None) \<Longrightarrow> settles hp c1 s \<Longrightarrow> settles hp c s"
| event: "turn hp c = (c1, Some (Inr (PolledEvent e))) \<Longrightarrow> e \<noteq> EventConnectionClosed \<Longrightarrow> settles hp c1 s
    \<Longrightarrow> settles hp c (add_event e s)"
| closed: "turn hp c = (c1, Some (Inr (PolledEvent EventConnectionClosed)))
    \<Longrightarrow> settles hp c (as_it_stands [EventConnectionClosed] c1)"
| data: "turn hp c = (c1, Some (Inr (PolledData n b f))) \<Longrightarrow> settles hp (consume_input c1 n) s
    \<Longrightarrow> settles hp c (add_body (take n (input_bytes c1)) s)"
| waits: "turn hp c = (c1, Some (Inr PolledNeedData)) \<Longrightarrow> settles hp c (as_it_stands [] c1)"
| pauses: "turn hp c = (c1, Some (Inr PolledPaused)) \<Longrightarrow> settles hp c (as_it_stands [] c1)"
| fails: "turn hp c = (c1, Some (Inl (Remote e)))
    \<Longrightarrow> settles hp c (Failed (if role c1 = Client then None else suggested_status_code e))"

inductive_cases settlesE: "settles hp c s"

lemma settles_again: "turn hp c = (c1, None) \<Longrightarrow> settles hp c s \<longleftrightarrow> settles hp c1 s"
  by (auto elim: settlesE intro: settles.again)

lemma settles_event:
  "turn hp c = (c1, Some (Inr (PolledEvent e))) \<Longrightarrow> e \<noteq> EventConnectionClosed \<Longrightarrow>
   settles hp c s \<longleftrightarrow> (\<exists>s'. s = add_event e s' \<and> settles hp c1 s')"
  by (subst settles.simps) auto

lemma settles_data:
  "turn hp c = (c1, Some (Inr (PolledData n b f))) \<Longrightarrow>
   settles hp c s \<longleftrightarrow> (\<exists>s'. s = add_body (take n (input_bytes c1)) s' \<and> settles hp (consume_input c1 n) s')"
  by (subst settles.simps) auto

lemmas settles_turn = settles_again settles_event settles_data

lemma settles_unique: "settles hp c s \<Longrightarrow> settles hp c s' \<Longrightarrow> s' = s"
proof (induction arbitrary: s' rule: settles.induct)
  case (data c c1 n b f s)
  from data.prems data.hyps(1) obtain t where "s' = add_body (take n (input_bytes c1)) t" "settles hp (consume_input c1 n) t"
    by (auto simp: settles_turn)
  with data.IH show ?case by blast
next
  case (event c c1 e s)
  from event.prems event.hyps obtain t where "s' = add_event e t" "settles hp c1 t"
    by (auto simp: settles_turn)
  with event.IH show ?case by blast
qed (auto elim: settlesE simp: settles_turn)

section \<open>Connections that differ in bookkeeping only\<close>

text \<open>
  Once the end of the input is known, the layout of the buffer, the progress through a section
  and, as long as it finds the same line end, the position of a scan make no difference.
\<close>

definition akin :: "Connection \<Rightarrow> Connection \<Rightarrow> bool" where
  "akin c d \<longleftrightarrow> (\<exists>b p. as_slice b = input_bytes c \<and>
     (d = swap b p c \<or>
      (\<exists>k k'. peer_state c = SendBody \<and> cyc_reader (cycle c) = ReadChunked (Size k)
         \<and> find_crlf (input_bytes c) k = find_crlf (input_bytes c) k'
         \<and> d = set_reader (swap b p c) (ReadChunked (Size k')))))"

lemma swap_simps [simp]:
  "input_bytes (swap b p c) = as_slice b" "conn_input (swap b p c) = b" "role (swap b p c) = role c"
  "eof (swap b p c) = eof c" "limits (swap b p c) = limits c" "lenient (swap b p c) = lenient c"
  "conn_state (swap b p c) = conn_state c" "cyc_reader (cycle (swap b p c)) = cyc_reader (cycle c)"
  "peer_state (swap b p c) = peer_state c" "local_state (swap b p c) = local_state c"
  "chunk_extension_bytes (cycle (swap b p c)) = chunk_extension_bytes (cycle c)"
  "swap b' p' (swap b p c) = swap b' p' c"
  by (simp_all add: swap_def peer_state_def local_state_def)

lemma swap_self [simp]: "swap (conn_input c) (progress (cycle c)) c = c"
  by (simp add: swap_def)

lemma akin_swap: "as_slice b = as_slice b' \<Longrightarrow> akin (swap b p c) (swap b' p' c)"
  unfolding akin_def by (intro exI [of _ b'] exI [of _ p']) simp

lemma akin_swap_self: "as_slice b = input_bytes c \<Longrightarrow> akin c (swap b p c)"
  using akin_swap [of "conn_input c" b "progress (cycle c)" c p] by simp

lemma consume_set_progress: "set_progress (consume_input c n) p = swap (consume (conn_input c) n) p c"
  by (simp add: set_progress_def consume_input_def swap_def)

lemma consume_swap: "consume_input c n = swap (consume (conn_input c) n) (progress (cycle c)) c"
  by (simp add: consume_input_def swap_def)

text \<open>Two results alike: the same value, and connections akin.\<close>

definition alike :: "Connection \<times> 'a \<Rightarrow> Connection \<times> 'a \<Rightarrow> bool" where
  "alike x y \<longleftrightarrow> snd x = snd y \<and> akin (fst x) (fst y)"

lemma alike_simps [simp]:
  "alike (c, v) (d, v) \<longleftrightarrow> akin c d"
  "alike (case x of (c, r) \<Rightarrow> (c, Some r)) (case y of (c, r) \<Rightarrow> (c, Some r)) \<longleftrightarrow> alike x y"
  by (simp_all add: alike_def split: prod.split)

lemma alike_apfst: "as_slice b = as_slice b' \<Longrightarrow> alike (apfst (swap b p) x) (apfst (swap b' p') x)"
  by (cases x) (simp add: akin_swap)

lemma alike_apfst_self: "as_slice b = input_bytes (fst x) \<Longrightarrow> alike x (apfst (swap b p) x)"
  by (cases x) (simp add: akin_swap_self)

lemma peer_closed_input: "conn_input (fst (peer_closed c)) = conn_input c"
  by (auto simp: peer_closed_def dest!: advance_peer_input split: prod.split sum.split)

lemma finish_peer_input: "conn_input (fst (finish_peer c h)) = conn_input c"
  by (auto simp: finish_peer_def dest!: advance_peer_input split: prod.split sum.split)

lemma peer_data_input: "conn_input (fst (peer_data c n b e)) = conn_input c"
  by (auto simp: peer_data_def dest!: advance_peer_input split: prod.split sum.split)

lemma poll_peer_state_swap:
  assumes "as_slice b = input_bytes c"
  shows "rel_option alike (poll_peer_state c) (poll_peer_state (swap b p c))"
proof -
  have closed: "alike (peer_closed c) (peer_closed (swap b p c))"
    using assms by (simp add: swap.peer_closed alike_apfst_self peer_closed_input)
  have "alike (peer_closed (consume_input c n)) (peer_closed (consume_input (swap b p c) n))" for n
    using assms by (simp add: consume_swap [of c] consume_swap [of "swap b p c"] swap.peer_closed alike_apfst)
  with closed akin_swap_self [OF assms] assms show ?thesis
    by (auto simp: poll_peer_state_def split: State.split)
qed

lemma head_section_swap: "as_slice b = input_bytes c \<Longrightarrow> head_section (swap b p c) = head_section c"
  by (simp add: head_section_def)

lemma wait_for_section_swap:
  "as_slice b = input_bytes c \<Longrightarrow> alike (wait_for_section c skip) (wait_for_section (swap b p c) skip)"
  by (simp add: wait_for_section_def need_data_or_eof_def Let_def head_section_swap akin_swap_self)

lemma conn_disable_swap: "conn_disable_keep_alive (swap b p c) = swap b p (conn_disable_keep_alive c)"
  by (rule swap.disable)

lemma read_head_swap:
  assumes "eof c" and "as_slice b = input_bytes c"
  shows "alike (read_head hp c) (read_head hp (swap b p c))"
proof -
  have "alike (accept_request (set_progress (consume_input c n) q) r)
      (accept_request (set_progress (consume_input (swap b p c) n) q) r)" for n q r
    using assms(2) by (simp add: consume_set_progress swap.accept_request alike_apfst)
  moreover have "alike (accept_response (set_progress (consume_input c n) q) r)
      (accept_response (set_progress (consume_input (swap b p c) n) q) r)" for n q r
    using assms(2) by (simp add: consume_set_progress swap.accept_response alike_apfst)
  moreover have "alike (accept_response (set_progress (consume_input (conn_disable_keep_alive c) n) q) r)
      (accept_response (set_progress (consume_input (conn_disable_keep_alive (swap b p c)) n) q) r)" for n q r
    using assms(2) by (simp add: conn_disable_swap consume_set_progress swap.accept_response alike_apfst)
  ultimately show ?thesis
    using assms wait_for_section_swap [OF assms(2)] akin_swap_self [OF assms(2)]
    by (auto simp: read_head_def section_due_def head_section_swap Let_def split: sum.split option.split)
qed

lemma read_trailers_swap:
  assumes "eof c" and "as_slice b = input_bytes c"
  shows "alike (read_trailers hp c) (read_trailers hp (swap b p c))"
proof -
  have "alike (finish_peer (set_progress (consume_input c n) q) h)
      (finish_peer (set_progress (consume_input (swap b p c) n) q) h)" for n q h
    using assms(2) by (simp add: consume_set_progress swap.finish_peer alike_apfst)
  then show ?thesis
    using assms wait_for_section_swap [OF assms(2)] akin_swap_self [OF assms(2)]
    by (auto simp: read_trailers_def section_due_def head_section_swap Let_def split: sum.split option.split)
qed

lemma advance_payload_swap: "advance_payload (swap b p c) n = apfst (swap b p) (advance_payload c n)"
  by (auto simp: advance_payload_def Let_def swap.reader_set split: Reader.split Chunk.split)

lemma read_payload_swap:
  "as_slice b = input_bytes c \<Longrightarrow> alike (read_payload c m) (read_payload (swap b p c) m)"
  using advance_payload_input [of c "length (input_bytes c)"]
  by (auto simp: read_payload_def need_data_or_eof_def Let_def advance_payload_swap swap.peer_data akin_swap_self
      alike_apfst_self peer_data_input split: prod.split)

lemma set_reader_swap: "set_reader (swap b p c) rd = swap b p (set_reader c rd)"
  by (rule swap.reader_set)

lemma read_data_end_swap:
  "as_slice b = input_bytes c \<Longrightarrow> alike (read_data_end c) (read_data_end (swap b p c))"
  by (simp add: read_data_end_def need_data_or_eof_def akin_swap_self consume_swap [of c] consume_swap [of "swap b p c"]
      set_reader_swap akin_swap)

definition add_extension :: "Connection \<Rightarrow> nat \<Rightarrow> Connection" where
  "add_extension c n = c\<lparr>cycle := (cycle c)\<lparr>chunk_extension_bytes := chunk_extension_bytes (cycle c) + n\<rparr>\<rparr>"

lemma add_extension_simps [simp]:
  "add_extension (swap b p c) n = swap b p (add_extension c n)"
  "add_extension (set_reader c rd) n = set_reader (add_extension c n) rd"
  "conn_input (add_extension c n) = conn_input c" "peer_state (add_extension c n) = peer_state c"
  "cyc_reader (cycle (add_extension c n)) = cyc_reader (cycle c)" "limits (add_extension c n) = limits c"
  "role (add_extension c n) = role c" "eof (add_extension c n) = eof c"
  "chunk_extension_bytes (cycle (add_extension c n)) = chunk_extension_bytes (cycle c) + n"
  by (simp_all add: add_extension_def swap_def set_reader_def peer_state_def)

lemma set_reader_simps [simp]:
  "set_reader (set_reader c rd) rd' = set_reader c rd'" "peer_state (set_reader c rd) = peer_state c"
  "cyc_reader (cycle (set_reader c rd)) = rd" "limits (set_reader c rd) = limits c" "role (set_reader c rd) = role c"
  "eof (set_reader c rd) = eof c" "local_state (set_reader c rd) = local_state c"
  "chunk_extension_bytes (cycle (set_reader c rd)) = chunk_extension_bytes (cycle c)"
  by (simp_all add: set_reader_def peer_state_def local_state_def)

lemma read_chunk_size_found:
  assumes "find_crlf (input_bytes c) k = Some (Some ended)"
  shows "read_chunk_size c k =
    (let too_long = (\<lambda>m. Some (Inl (Remote (remote m (if role c = Server then Some 400 else None)))));
         line = take (ended - 2) (input_bytes c);
         c1 = add_extension c (length line - chunk_digits line)
     in if ended - 2 > max_head_bytes (limits c) then (c, too_long ''chunk line exceeds max_head_bytes'')
        else case parse_chunk_header line of
          None \<Rightarrow> (c, Some (Inl (Remote (remote ''invalid chunk size'' (Some 400)))))
        | Some n \<Rightarrow>
            if chunk_extension_bytes (cycle c1) > max_head_bytes (limits c)
            then (c1, too_long ''chunk extensions exceed max_head_bytes'')
            else if n = 0 then (set_reader (swap (consume (conn_input c) ended) progress_default c1) (ReadChunked Trailers), None)
            else (set_reader (consume_input c1 ended) (ReadChunked (ChunkData n True)), None))"
  using assms
  by (auto simp: read_chunk_size_def Let_def add_extension_def swap_def set_reader_def set_progress_def consume_input_def
      split: option.split)

lemma akin_add_extension: "akin c d \<Longrightarrow> akin (add_extension c n) (add_extension d n)"
  unfolding akin_def by (elim exE conjE disjE; simp) blast+

lemma akin_size:
  assumes "peer_state c = SendBody" and "cyc_reader (cycle c) = ReadChunked (Size k)"
    and "find_crlf (input_bytes c) k = find_crlf (input_bytes c) k'" and "as_slice b = input_bytes c"
  shows "akin c (set_reader (swap b p c) (ReadChunked (Size k')))"
  unfolding akin_def using assms by (intro exI [of _ b] exI [of _ p]) auto

lemma read_chunk_size_akin:
  assumes "eof c" and "as_slice b = input_bytes c" and "find_crlf (input_bytes c) k = find_crlf (input_bytes c) k'"
    and "d = swap b p c \<or> d = set_reader (swap b p c) rd" and "akin c d"
  shows "alike (read_chunk_size c k) (read_chunk_size d k')"
proof -
  from assms(2,4) have d: "input_bytes d = input_bytes c" "role d = role c" "limits d = limits c" "eof d = eof c"
    "chunk_extension_bytes (cycle d) = chunk_extension_bytes (cycle c)"
    by auto
  have moved: "akin (set_reader (swap b1 q c1) rd1) (set_reader (swap b2 q' (add_extension d n)) rd1)"
    if "as_slice b1 = as_slice b2" "c1 = add_extension c n" for b1 b2 q q' rd1 c1 n
    using that assms(4) by (auto simp: set_reader_swap akin_swap)
  show ?thesis
  proof (cases "find_crlf (input_bytes c) k")
    case None
    with assms(3,5) d show ?thesis by (simp add: read_chunk_size_def Let_def)
  next
    case (Some f)
    show ?thesis
    proof (cases f)
      case None
      have "akin (set_reader c rd1) (set_reader d rd1)" for rd1
        using assms(2,4) akin_swap_self [of b "set_reader c rd1" p] by (auto simp: set_reader_swap)
      with None Some assms(1,3,5) d show ?thesis
        by (simp add: read_chunk_size_def Let_def need_data_or_eof_def)
    next
      case (Some ended)
      with \<open>find_crlf (input_bytes c) k = Some f\<close>
      have f: "find_crlf (input_bytes c) k = Some (Some ended)" "find_crlf (input_bytes d) k' = Some (Some ended)"
        using assms(3) d by auto
      show ?thesis
        using assms(5) akin_add_extension [OF assms(5)] moved d
        by (auto simp: read_chunk_size_found [OF f(1)] read_chunk_size_found [OF f(2)] Let_def consume_swap split: option.split)
    qed
  qed
qed

lemma read_body_swap:
  assumes "eof c" and "as_slice b = input_bytes c"
  shows "alike (read_body hp c) (read_body hp (swap b p c))"
proof (cases "cyc_reader (cycle c)")
  case (ReadChunked chunk)
  then show ?thesis
    using read_chunk_size_akin [OF assms refl, of "swap b p c" p] akin_swap_self [OF assms(2)]
      read_payload_swap [OF assms(2)] read_data_end_swap [OF assms(2)] read_trailers_swap [OF assms]
    by (simp add: read_body_def read_chunked_def split: Chunk.split)
next
  case ReadHead
  with read_head_swap [OF assms] show ?thesis by (simp add: read_body_def)
next
  case (ReadFixed n)
  have "alike (finish_peer c h) (finish_peer (swap b p c) h)" for h
    using assms(2) by (simp add: swap.finish_peer alike_apfst_self finish_peer_input)
  with ReadFixed read_payload_swap [OF assms(2)] show ?thesis by (simp add: read_body_def Let_def)
next
  case ReadCloseDelimited
  have "alike (finish_peer c h) (finish_peer (swap b p c) h)" for h
    using assms(2) by (simp add: swap.finish_peer alike_apfst_self finish_peer_input)
  moreover have "alike (peer_data c n e f) (peer_data (swap b p c) n e f)" for n e f
    using assms(2) by (simp add: swap.peer_data alike_apfst_self peer_data_input)
  ultimately show ?thesis using ReadCloseDelimited assms by (simp add: read_body_def Let_def)
qed

lemma turn_swap:
  assumes "eof c" and "as_slice b = input_bytes c"
  shows "alike (turn hp c) (turn hp (swap b p c))"
  using poll_peer_state_swap [OF assms(2), of p] read_body_swap [OF assms, of hp p]
  by (cases "poll_peer_state c"; cases "poll_peer_state (swap b p c)")
     (auto simp: turn_def alike_def split: prod.splits)

lemma turn_akin:
  assumes "eof c" and "akin c d"
  shows "alike (turn hp c) (turn hp d)"
proof -
  from assms(2) obtain b p where b: "as_slice b = input_bytes c"
    and d: "d = swap b p c \<or>
      (\<exists>k k'. peer_state c = SendBody \<and> cyc_reader (cycle c) = ReadChunked (Size k)
         \<and> find_crlf (input_bytes c) k = find_crlf (input_bytes c) k'
         \<and> d = set_reader (swap b p c) (ReadChunked (Size k')))"
    unfolding akin_def by blast
  from d show ?thesis
  proof
    assume "d = swap b p c"
    with turn_swap [OF assms(1) b] show ?thesis by simp
  next
    assume "\<exists>k k'. peer_state c = SendBody \<and> cyc_reader (cycle c) = ReadChunked (Size k)
         \<and> find_crlf (input_bytes c) k = find_crlf (input_bytes c) k'
         \<and> d = set_reader (swap b p c) (ReadChunked (Size k'))"
    then obtain k k' where k: "peer_state c = SendBody" "cyc_reader (cycle c) = ReadChunked (Size k)"
      "find_crlf (input_bytes c) k = find_crlf (input_bytes c) k'" "d = set_reader (swap b p c) (ReadChunked (Size k'))"
      by blast
    with read_chunk_size_akin [OF assms(1) b k(3) _ assms(2)] show ?thesis
      by (auto simp: turn_def poll_peer_state_def read_body_def read_chunked_def)
  qed
qed

lemma akin_simps:
  assumes "akin c d"
  shows "input_bytes d = input_bytes c" "role d = role c" "local_state d = local_state c" "peer_state d = peer_state c"
    "eof d = eof c"
  using assms by (auto simp: akin_def)

text \<open>Where body data comes from.\<close>

definition no_data :: "polled_result \<Rightarrow> bool" where
  "no_data r \<longleftrightarrow> (\<forall>n b f. r \<noteq> Inr (PolledData n b f))"

lemma no_data_simps [simp]:
  "no_data (Inl e)" "no_data (Inr (PolledEvent ev))" "no_data (Inr PolledNeedData)" "no_data (Inr PolledPaused)"
  "\<not> no_data (Inr (PolledData n b f))"
  by (simp_all add: no_data_def)

lemma no_data_helpers [simp]:
  "no_data (snd (finish_peer c h))" "no_data (snd (peer_closed c))" "no_data (snd (need_data_or_eof c m))"
  "no_data (snd (wait_for_section c skip))"
  by (auto simp: finish_peer_def peer_closed_def need_data_or_eof_def wait_for_section_def Let_def
      split: prod.split sum.split)

lemma no_data_accept [simp]: "no_data (snd (accept_request c r))" "no_data (snd (accept_response c s))"
proof -
  show "no_data (snd (accept_request c r))"
    by (auto simp: accept_request_def Let_def split: prod.split sum.split)
  have "no_data (snd (accept_informational c s b))" for b
    by (auto simp: accept_informational_def Let_def split: prod.split sum.split option.split)
  moreover have "no_data (snd (accept_final c s f d))" for f d
    by (cases d) (auto simp: accept_final_def Let_def split: prod.split sum.split)
  ultimately show "no_data (snd (accept_response c s))" by (simp add: accept_response_def Let_def)
qed

lemma no_data_sections [simp]: "no_data (snd (read_head hp c))" "no_data (snd (read_trailers hp c))"
  by (auto simp: read_head_def read_trailers_def Let_def split: prod.split sum.split option.split)

lemma no_data_not: "no_data (snd x) \<Longrightarrow> x \<noteq> (c, Inr (PolledData n b f))"
  by auto

lemma peer_data_reader: "cyc_reader (cycle (fst (peer_data c n b f))) = cyc_reader (cycle c)"
  by (auto simp: peer_data_def dest!: advance_peer_input split: prod.split sum.split)

lemma read_payload_reader:
  assumes "cyc_reader (cycle c) \<notin> range (\<lambda>k. ReadChunked (Size k))"
  shows "cyc_reader (cycle (fst (read_payload c m))) \<notin> range (\<lambda>k. ReadChunked (Size k))"
  using assms
  by (auto simp: read_payload_def need_data_or_eof_def advance_payload_def peer_data_reader Let_def
      split: Reader.split Chunk.split)

lemma turn_data_reader:
  assumes "turn hp c = (c1, Some (Inr (PolledData n b f)))"
  shows "cyc_reader (cycle c1) \<notin> range (\<lambda>k. ReadChunked (Size k))"
proof -
  have "no_data (snd x)" if "poll_peer_state c = Some x" for x
    using that no_data_helpers(2) by (auto simp: poll_peer_state_def simp del: no_data_helpers split: State.splits if_splits)
  with assms have "read_body hp c = (c1, Some (Inr (PolledData n b f)))"
    by (auto simp: turn_def split: option.splits)
  moreover have size: "read_chunk_size c k \<noteq> (c1, Some (Inr (PolledData n b f)))" for k
    by (auto simp: read_chunk_size_def need_data_or_eof_def Let_def split: option.splits if_splits)
  moreover have data_end: "read_data_end c \<noteq> (c1, Some (Inr (PolledData n b f)))"
    by (auto simp: read_data_end_def need_data_or_eof_def split: if_splits)
  ultimately show ?thesis
  proof (cases "cyc_reader (cycle c)")
    case ReadHead
    with \<open>read_body hp c = _\<close> no_data_not [OF no_data_sections(1) [of hp c], of c1 n b f] show ?thesis
      by (auto simp: read_body_def split: prod.splits)
  next
    case (ReadFixed k)
    with \<open>read_body hp c = _\<close> no_data_not [OF no_data_helpers(1) [of c headers_new], of c1 n b f]
      read_payload_reader [of c "''unexpected EOF in Content-Length body''"]
    show ?thesis by (auto simp: read_body_def Let_def split: prod.splits if_splits)
  next
    case ReadCloseDelimited
    with \<open>read_body hp c = _\<close> no_data_not [OF no_data_helpers(1) [of c headers_new], of c1 n b f]
      peer_data_reader [of c "length (input_bytes c)" False False]
    show ?thesis by (auto simp: read_body_def Let_def split: prod.splits if_splits)
  next
    case (ReadChunked chunk)
    then have "read_chunked hp c chunk = (c1, Some (Inr (PolledData n b f)))"
      using \<open>read_body hp c = _\<close> by (simp add: read_body_def)
    with ReadChunked size data_end no_data_not [OF no_data_sections(2) [of hp c], of c1 n b f] read_payload_reader [of c "''unexpected EOF in chunk data''"]
    show ?thesis by (cases chunk) (auto simp: read_chunked_def split: prod.splits)
  qed
qed

lemma akin_consume:
  assumes "akin c d" and "cyc_reader (cycle c) \<notin> range (\<lambda>k. ReadChunked (Size k))"
  shows "akin (consume_input c n) (consume_input d n)"
proof -
  from assms obtain b p where "d = swap b p c" "as_slice b = input_bytes c" by (auto simp: akin_def)
  then show ?thesis by (simp add: consume_swap [of c] consume_swap [of "swap b p c"] akin_swap)
qed

text \<open>What a turn leaves alone.\<close>

definition stamp :: "Connection \<Rightarrow> Connection \<Rightarrow> Connection" where
  "stamp m c = c\<lparr>role := role m, limits := limits m, lenient := lenient m, held := held m, eof := eof m\<rparr>"

interpretation stamp: bystander "stamp m" "\<lambda>c. role c = role m" for m
proof unfold_locales
  fix c s ver h
  show "response_has_no_body (stamp m c) s = response_has_no_body c s"
    and "final_response_event (stamp m c) s = final_response_event c s"
    and "informational_event (stamp m c) s ver h = informational_event c s ver h"
    by (intro cycle_queries; simp add: stamp_def)+
qed (auto simp: stamp_def advance_peer_def conn_disable_keep_alive_def set_reader_def clear_waiting_def record_request_def
       record_informational_def record_response_def local_state_def Let_def split: sum.split)

definition kept :: "Connection \<Rightarrow> Connection \<Rightarrow> bool" where
  "kept c c' \<longleftrightarrow> role c' = role c \<and> limits c' = limits c \<and> lenient c' = lenient c \<and> held c' = held c \<and> eof c' = eof c"

lemma kept_simps [simp]:
  "kept c c" "kept c (swap b p d) = kept c d" "kept c (set_reader d rd) = kept c d"
  "kept c (consume_input d n) = kept c d" "kept c (add_extension d n) = kept c d"
  "kept c (set_progress d p) = kept c d" "kept c (conn_disable_keep_alive d) = kept c d"
  by (auto simp: kept_def swap_def set_reader_def consume_input_def add_extension_def set_progress_def
      conn_disable_keep_alive_def)

lemma kept_stamp: "kept c d \<Longrightarrow> stamp c d = d" "kept c (stamp c d)"
  by (simp_all add: kept_def stamp_def)

lemma kept_apfst: "x = apfst (stamp c) x \<Longrightarrow> kept c (fst x)"
  by (metis fst_apfst kept_stamp(2))

lemma kept_ops:
  assumes "kept c d"
  shows "kept c (fst (accept_request d r))" "kept c (fst (accept_response d s))" "kept c (fst (finish_peer d h))"
    "kept c (fst (peer_closed d))" "kept c (fst (peer_data d n b e))"
proof -
  have d: "stamp c d = d" "role d = role c" using assms kept_stamp(1) by (auto simp: kept_def)
  show "kept c (fst (accept_request d r))" using stamp.accept_request [of d c r] d by (intro kept_apfst) simp
  show "kept c (fst (accept_response d s))" using stamp.accept_response [of d c s] d by (intro kept_apfst) simp
  show "kept c (fst (finish_peer d h))" using stamp.finish_peer [of d c h] d by (intro kept_apfst) simp
  show "kept c (fst (peer_closed d))" using stamp.peer_closed [of d c] d by (intro kept_apfst) simp
  show "kept c (fst (peer_data d n b e))" using stamp.peer_data [of d c n b e] d by (intro kept_apfst) simp
qed

lemma fst_with_some [simp]: "fst (case x of (c, r) \<Rightarrow> (c, Some r)) = fst x"
  by (simp split: prod.split)

lemma kept_wait [simp]:
  "kept c (fst (need_data_or_eof d m)) = kept c d" "kept c (fst (wait_for_section d skip)) = kept c d"
  by (auto simp: need_data_or_eof_def wait_for_section_def Let_def)

lemma kept_section [simp]: "section_due d skip = (d', b) \<Longrightarrow> kept c d' = kept c d"
  by (auto simp: section_due_def split: if_splits prod.splits)

lemma kept_read_head: "kept c d \<Longrightarrow> kept c (fst (read_head hp d))"
  by (auto simp: read_head_def Let_def kept_ops split: prod.split sum.split option.split)

lemma kept_read_trailers: "kept c d \<Longrightarrow> kept c (fst (read_trailers hp d))"
  by (auto simp: read_trailers_def Let_def kept_ops split: prod.split sum.split option.split)

lemma kept_read_payload: "kept c d \<Longrightarrow> kept c (fst (read_payload d m))"
  by (auto simp: read_payload_def advance_payload_def Let_def kept_ops split: Reader.split Chunk.split)

lemma kept_read_chunk_size: "kept c d \<Longrightarrow> kept c (fst (read_chunk_size d k))"
  by (cases "find_crlf (input_bytes d) k")
     (auto simp: read_chunk_size_def need_data_or_eof_def add_extension_def [symmetric] Let_def split: option.split)

lemma kept_read_data_end: "kept c d \<Longrightarrow> kept c (fst (read_data_end d))"
  by (auto simp: read_data_end_def need_data_or_eof_def)

lemma turn_kept: "kept c (fst (turn hp c))"
proof (cases "poll_peer_state c")
  case None
  have "kept c (fst (read_body hp c))"
    by (auto simp: read_body_def read_chunked_def Let_def kept_ops kept_read_head kept_read_payload kept_read_trailers
        kept_read_chunk_size kept_read_data_end split: Reader.split Chunk.split)
  with None show ?thesis by (simp add: turn_def)
next
  case (Some x)
  then have "kept c (fst x)"
    using kept_ops(4) [of c c] kept_ops(4) [of c "consume_input c (length (input_bytes c))"]
    by (auto simp: poll_peer_state_def split: State.splits if_splits)
  with Some show ?thesis by (simp add: turn_def split: prod.split)
qed

lemma akin_turnE:
  assumes "turn hp c = (c1, r)" and "akin c d" and "eof c"
  obtains d1 where "turn hp d = (d1, r)" and "akin c1 d1" and "eof c1"
  using turn_akin [OF assms(3,2), of hp] turn_kept [of c hp] assms by (cases "turn hp d") (auto simp: alike_def kept_def)

lemma akin_as_it_stands: "akin c d \<Longrightarrow> as_it_stands es d = as_it_stands es c"
  by (simp add: as_it_stands_def akin_simps)

lemma akin_settles:
  assumes "settles hp c s" and "akin c d" and "eof c"
  shows "settles hp d s"
  using assms
proof (induction arbitrary: d rule: settles.induct)
  case (again c c1 s)
  from again.hyps(1) again.prems obtain d1 where "turn hp d = (d1, None)" "akin c1 d1" "eof c1" by (rule akin_turnE)
  with again.IH settles.again show ?case by blast
next
  case (event c c1 e s)
  from event.hyps(1) event.prems obtain d1 where "turn hp d = (d1, Some (Inr (PolledEvent e)))" "akin c1 d1" "eof c1"
    by (rule akin_turnE)
  with event.IH event.hyps(2) settles.event show ?case by blast
next
  case (data c c1 n b f s)
  from data.hyps(1) data.prems obtain d1 where d1: "turn hp d = (d1, Some (Inr (PolledData n b f)))" "akin c1 d1" "eof c1"
    by (rule akin_turnE)
  have "akin (consume_input c1 n) (consume_input d1 n)" "eof (consume_input c1 n)"
    using akin_consume [OF d1(2) turn_data_reader [OF data.hyps(1)]] d1(3) by (simp_all add: consume_input_def)
  with data.IH settles.data [OF d1(1)] akin_simps(1) [OF d1(2)] show ?case by auto
next
  case (fails c c1 e)
  from fails.hyps fails.prems obtain d1 where "turn hp d = (d1, Some (Inl (Remote e)))" "akin c1 d1" by (rule akin_turnE)
  with akin_simps(2) settles.fails show ?case by force
next
  case (closed c c1)
  from closed.hyps closed.prems show ?case by (rule akin_turnE) (metis akin_as_it_stands settles.closed)
next
  case (waits c c1)
  from waits.hyps waits.prems show ?case by (rule akin_turnE) (metis akin_as_it_stands settles.waits)
next
  case (pauses c c1)
  from pauses.hyps pauses.prems show ?case by (rule akin_turnE) (metis akin_as_it_stands settles.pauses)
qed

end
