(* ===== verification/H11r_Resume.thy ===== *)
theory H11r_Resume
  imports H11r_Segmentation
begin

text \<open>
  Receiving in pieces: what a turn that saw a part of the input and a turn that saw all of it
  have to do with each other, and that in the end a connection reports the same events, the same
  body and the same failure however its input was cut into pieces.
\<close>

section \<open>Empty lines\<close>

text \<open>The line a section is in after some bytes, and sections with no empty line yet.\<close>

definition cur_line :: "bytes \<Rightarrow> bytes" where
  "cur_line n = rev (takeWhile (\<lambda>b. b \<noteq> LF) (rev n))"

definition no_blank :: "bytes \<Rightarrow> bool" where
  "no_blank d \<longleftrightarrow> (\<forall>i < length d. d ! i = LF \<longrightarrow> \<not> blank (cur_line (take i d)))"

lemma cur_line_snoc [simp]: "cur_line (n @ [b]) = (if b = LF then [] else cur_line n @ [b])" "cur_line [] = []"
  by (simp_all add: cur_line_def)

lemma no_blank_Nil [simp]: "no_blank []"
  by (simp add: no_blank_def)

lemma no_blank_snoc: "no_blank (n @ [b]) \<longleftrightarrow> no_blank n \<and> \<not> (b = LF \<and> blank (cur_line n))"
  by (auto simp: no_blank_def nth_append less_Suc_eq)

lemma no_blank_butlast: "no_blank n \<Longrightarrow> no_blank (butlast n)"
  by (cases n rule: rev_cases) (auto simp: no_blank_snoc)

lemma no_blank_take: "no_blank d \<Longrightarrow> no_blank (take n d)"
  by (simp add: no_blank_def)

lemma slice_snoc: "from \<le> n \<Longrightarrow> n < length d \<Longrightarrow> slice d from (Suc n) = slice d from n @ [d ! n]"
  by (simp add: slice_def Suc_diff_le take_Suc_conv_app_nth)

lemma poll_no_blank:
  "progress_inv p \<Longrightarrow> sp_at p \<le> length d \<Longrightarrow> slice d (line_start p) (sp_at p) = cur_line (take (sp_at p) d) \<Longrightarrow>
   no_blank (take (sp_at p) d) \<Longrightarrow> fst (poll p d False) = None \<longleftrightarrow> no_blank d"
proof (induction p rule: poll_induct [of d])
  case (finish p)
  then show ?case by (simp add: poll_end)
next
  case (byte p)
  then show ?case by (simp add: poll_byte take_Suc_conv_app_nth no_blank_snoc slice_snoc progress_inv_def)
next
  case (line p)
  show ?case
  proof (cases "blank (cur_line (take (sp_at p) d))")
    case True
    with line have "\<not> no_blank d" by (auto simp: no_blank_def)
    with True line show ?thesis by (simp add: poll_line)
  next
    case False
    with line show ?thesis
      by (simp add: poll_line take_Suc_conv_app_nth no_blank_snoc progress_inv_def next_line_def slice_def)
  qed
qed

lemma poll_None_no_blank: "fst (poll progress_default d False) = None \<longleftrightarrow> no_blank d"
  by (rule poll_no_blank) (simp_all add: progress_default_def progress_inv_def slice_def)

section \<open>Parsing more of the same bytes\<close>

text \<open>
  What an incremental parser promises: more bytes do not change a result that was given on
  fewer. Empty lines are no message yet. A complete trailer section has an empty line. A
  section that is rejected at the end of a line is not accepted if the line goes on with a space.
\<close>

definition httparse_incremental :: "httparse \<Rightarrow> bool" where
  "httparse_incremental hp \<longleftrightarrow>
     (\<forall>d x n. hp_parse_request hp d n \<noteq> Inr None \<longrightarrow> hp_parse_request hp (d @ x) n = hp_parse_request hp d n)
     \<and> (\<forall>config d x n. hp_parse_response hp config d n \<noteq> Inr None \<longrightarrow>
          hp_parse_response hp config (d @ x) n = hp_parse_response hp config d n)
     \<and> (\<forall>d x n. hp_parse_headers hp d n \<noteq> Inr None \<longrightarrow> hp_parse_headers hp (d @ x) n = hp_parse_headers hp d n)
     \<and> (\<forall>config d n. only_empty_lines d \<longrightarrow>
          hp_parse_request hp d n = Inr None \<and> hp_parse_response hp config d n = Inr None)
     \<and> (\<forall>d n r. hp_parse_headers hp d n = Inr (Some r) \<longrightarrow> \<not> no_blank d)
     \<and> (\<forall>u ended y n e r. ended \<in> {[CR], [LF], CRLF} \<longrightarrow> hp_parse_headers hp (u @ ended) n = Inl e \<longrightarrow>
          hp_parse_headers hp (u @ [SP] @ y) n \<noteq> Inr (Some r))"

lemma part_bytes_append: "part_end p \<le> length d \<Longrightarrow> part_bytes (d @ x) p = part_bytes d p"
  by (simp add: part_bytes_def slice_append_left)

lemma copy_section_append:
  assumes "headers_ok from e hs" and "e \<le> length d"
  shows "copy_section (d @ x) hs = copy_section d hs"
proof -
  let ?start = "case hs of [] \<Rightarrow> 0 | h # _ \<Rightarrow> part_at (hp_name h)"
  let ?stop = "\<lambda>h. ?start + (part_at (hp_value h) - ?start) + part_len (hp_value h)"
  have hs: "part_at (hp_name h) \<le> part_at (hp_value h)" "part_end (hp_value h) \<le> length d" if "h \<in> set hs" for h
    using headers_ok_in [OF assms(1) that] assms(2) by (auto simp: part_end_def)
  show ?thesis
  proof (cases "list_all (\<lambda>h. ?start \<le> part_at (hp_name h) \<and> ?start \<le> part_at (hp_value h)) hs")
    case True
    have start: "?start \<le> length d" using hs by (cases hs) (fastforce simp: part_end_def)+
    have "?stop h \<le> length d" if "h \<in> set hs" for h
      using hs(2) [OF that] True that by (auto simp: list_all_iff part_end_def)
    then have "foldl (\<lambda>e h. max e (?stop h)) ?start hs \<le> length d" using start by (intro foldl_max(3)) auto
    with True show ?thesis by (simp add: copy_section_def Let_def slice_append_left)
  qed (simp add: copy_section_def Let_def)
qed

lemma copy_headers_append:
  assumes "headers_ok from e hs" and "e \<le> length d"
  shows "copy_headers (d @ x) hs u = copy_headers d hs u"
proof -
  have "part_bytes (d @ x) (hp_name h) = part_bytes d (hp_name h)" "part_bytes (d @ x) (hp_value h) = part_bytes d (hp_value h)"
    if "h \<in> set hs" for h
    using headers_ok_in [OF assms(1) that] assms(2) by (auto intro!: part_bytes_append simp: part_end_def)
  then show ?thesis
    using copy_section_append [OF assms]
    by (auto simp: copy_headers_def list_ex_iff intro!: foldl_cong)
qed

lemma parse_request_head_append:
  assumes "httparse_ok hp" and "httparse_incremental hp" and "parse_request_head hp d n \<noteq> Inr None"
  shows "parse_request_head hp (d @ x) n = parse_request_head hp d n"
proof (cases "slots_fit n")
  case True
  then have "hp_parse_request hp d n \<noteq> Inr None" using assms(3) by (auto simp: parse_request_head_def)
  then have same: "hp_parse_request hp (d @ x) n = hp_parse_request hp d n"
    using assms(2) by (auto simp: httparse_incremental_def)
  have "copy_headers (d @ x) (hpq_headers q) False = copy_headers d (hpq_headers q) False"
    if "hp_parse_request hp d n = Inr (Some (e, q))" for e q
  proof -
    have "headers_ok 0 e (hpq_headers q)" "e \<le> length d"
      using assms(1) that by (auto simp: httparse_ok_def request_ok_def)
    then show ?thesis by (rule copy_headers_append)
  qed
  then show ?thesis by (auto simp: parse_request_head_def same split: sum.split option.split)
qed (simp add: parse_request_head_def)

lemma dropped_from_append:
  "headers_ok from e hs \<Longrightarrow> e \<le> length d \<Longrightarrow> dropped_from (d @ x) from e hs = dropped_from d from e hs"
proof (induction hs arbitrary: "from")
  case (Cons h hs)
  have "part_at (hp_name h) \<le> length d" using headers_ok_in [OF Cons.prems(1), of h] Cons.prems(2) by (auto simp: part_end_def)
  with Cons show ?case by (simp add: slice_ok_def slice_append_left)
qed (simp add: slice_ok_def slice_append_left)

lemma response_okD:
  assumes "httparse_ok hp" and "hp_parse_response hp config d n = Inr (Some (e, q))"
  shows "\<exists>l. start_line (take e d) = Some l \<and> headers_ok (fst l + length (snd l)) e (hpr_headers q) \<and> e \<le> length d"
proof -
  from assms have "response_ok d n (e, q)" unfolding httparse_ok_def by blast
  then show ?thesis by (auto simp: response_ok_def split: option.splits)
qed

lemma parse_response_head_append:
  assumes "httparse_ok hp" and "httparse_incremental hp" and "parse_response_head hp d n z \<noteq> Inr None"
  shows "parse_response_head hp (d @ x) n z = parse_response_head hp d n z"
proof (cases "slots_fit n")
  case True
  let ?config = "response_config z"
  from True have "hp_parse_response hp ?config d n \<noteq> Inr None" using assms(3) by (auto simp: parse_response_head_def)
  then have same: "hp_parse_response hp ?config (d @ x) n = hp_parse_response hp ?config d n"
    using assms(2) by (auto simp: httparse_incremental_def)
  have parts: "copy_headers (d @ x) (hpr_headers q) True = copy_headers d (hpr_headers q) True \<and> e \<le> length d
      \<and> (\<forall>l. start_line (take e d) = Some l \<longrightarrow> dropped_lines (d @ x) l e (hpr_headers q) = dropped_lines d l e (hpr_headers q))
      \<and> start_line (take e d) \<noteq> None"
    if parsed: "hp_parse_response hp ?config d n = Inr (Some (e, q))" for e q
  proof -
    obtain l where l: "start_line (take e d) = Some l" "headers_ok (fst l + length (snd l)) e (hpr_headers q)" "e \<le> length d"
      using response_okD [OF assms(1) parsed] by blast
    then show ?thesis
      using copy_headers_append [OF l(2,3)] dropped_from_append [OF l(2,3)] by (simp add: dropped_lines_def)
  qed
  show ?thesis
  proof (cases "hp_parse_response hp ?config d n")
    case (Inr r)
    show ?thesis
    proof (cases r)
      case (Some p)
      obtain e q where p: "p = (e, q)" by fastforce
      with parts [of e q] Inr Some obtain l where "start_line (take e d) = Some l" by auto
      with parts [of e q] Inr Some p same show ?thesis
        by (cases "from_u16 (case hpr_code q of None \<Rightarrow> 0 | Some c \<Rightarrow> c)") (simp_all add: parse_response_head_def Let_def split: option.split)
    qed (use Inr same in \<open>simp add: parse_response_head_def\<close>)
  qed (simp add: parse_response_head_def same)
qed (simp add: parse_response_head_def)

text \<open>Unfolding more of the same bytes: at most the last line end turns into a space.\<close>

lemma unfold_from_grows:
  "(\<exists>y. unfold_from v n at = n @ y)
   \<or> (last_opt n = Some CR \<and> (\<exists>y. unfold_from v n at = butlast n @ [SP] @ y))"
proof (induction v n at rule: unfold_from.induct)
  case (1 v n at)
  consider (stop) "\<not> at < length v"
    | (fold) "at < length v" "v ! at = LF \<and> is_some_and is_ows (slice_get v (at + 1))"
    | (copy) "at < length v" "\<not> (v ! at = LF \<and> is_some_and is_ows (slice_get v (at + 1)))" by blast
  then show ?case
  proof cases
    case stop
    then show ?thesis by (subst (1) unfold_from.simps) simp
  next
    case fold
    let ?n = "(if last_opt n = Some CR then butlast n else n) @ [SP]"
    have "unfold_from v n at = unfold_from v ?n (skip_ows v (at + 1))"
      using fold by (subst unfold_from.simps) (simp add: Let_def)
    moreover have "\<exists>y. unfold_from v ?n (skip_ows v (at + 1)) = ?n @ y"
      using 1(1) [OF fold refl] by (simp add: last_opt_def)
    ultimately show ?thesis by auto
  next
    case copy
    have "unfold_from v n at = unfold_from v (n @ [v ! at]) (at + 1)"
      using copy by (subst unfold_from.simps) (simp only: if_True if_False)
    with 1(2) [OF copy] show ?thesis by (auto simp: last_opt_def)
  qed
qed

lemma unfold_from_grows':
  "last_opt n \<noteq> Some CR \<Longrightarrow> \<exists>y. unfold_from v n at = n @ y"
  using unfold_from_grows [of v n at] by auto

definition goes_on :: "bytes \<Rightarrow> bytes \<Rightarrow> bool" where
  "goes_on s t \<longleftrightarrow> (\<exists>y. t = s @ y) \<or> (\<exists>u ended y. ended \<in> {[CR], [LF], CRLF} \<and> s = u @ ended \<and> t = u @ [SP] @ y)"

lemma goes_on_append: "goes_on d (d @ x)"
  by (auto simp: goes_on_def)

lemma goes_on_space: "ended \<in> {[CR], [LF], CRLF} \<Longrightarrow> goes_on (u @ ended) (u @ [SP] @ y)"
  unfolding goes_on_def by blast

lemma skip_ows_append: "skip_ows d at < length d \<Longrightarrow> skip_ows (d @ x) at = skip_ows d at"
proof (induction d at rule: skip_ows.induct)
  case (1 d at)
  have at: "at < length d" using 1(2) skip_ows_ge [of at d] by simp
  show ?case
  proof (cases "is_ows (d ! at)")
    case True
    with at have "skip_ows d at = skip_ows d (at + 1)" "skip_ows (d @ x) at = skip_ows (d @ x) (at + 1)"
      by (subst skip_ows.simps; simp add: slice_get_def nth_append)+
    with True at 1 show ?thesis by (simp add: slice_get_def)
  next
    case False
    with at show ?thesis by (subst (1 2) skip_ows.simps) (simp add: slice_get_def nth_append)
  qed
qed

lemma unfold_from_step:
  "at < length v \<Longrightarrow> v ! at = LF \<Longrightarrow> is_some_and is_ows (slice_get v (at + 1)) \<Longrightarrow>
     unfold_from v n at = unfold_from v ((if last_opt n = Some CR then butlast n else n) @ [SP]) (skip_ows v (at + 1))"
  "at < length v \<Longrightarrow> \<not> (v ! at = LF \<and> is_some_and is_ows (slice_get v (at + 1))) \<Longrightarrow>
     unfold_from v n at = unfold_from v (n @ [v ! at]) (at + 1)"
  "\<not> at < length v \<Longrightarrow> unfold_from v n at = n"
proof -
  show "unfold_from v n at = unfold_from v ((if last_opt n = Some CR then butlast n else n) @ [SP]) (skip_ows v (at + 1))"
    if "at < length v" and "v ! at = LF" and "is_some_and is_ows (slice_get v (at + 1))"
    using that by (subst unfold_from.simps) (simp only: if_True simp_thms Let_def)
  show "unfold_from v n at = unfold_from v (n @ [v ! at]) (at + 1)"
    if "at < length v" and "\<not> (v ! at = LF \<and> is_some_and is_ows (slice_get v (at + 1)))"
    using that by (subst unfold_from.simps) (simp only: if_True if_False)
  show "unfold_from v n at = n" if "\<not> at < length v"
    using that by (subst unfold_from.simps) (simp only: if_False)
qed

lemma goes_on_more: "last_opt n \<noteq> Some CR \<Longrightarrow> goes_on n (unfold_from v n at)"
  using unfold_from_grows' [of n v at] goes_on_append by metis

lemma last_opt_CR: "last_opt n = Some CR \<Longrightarrow> \<exists>u. n = u @ [CR]"
  by (cases n rule: rev_cases) (auto simp: last_opt_def split: if_splits)

lemma unfold_from_goes_on: "at \<le> length d \<Longrightarrow> goes_on (unfold_from d n at) (unfold_from (d @ x) n at)"
proof (induction d n at rule: unfold_from.induct)
  case (1 d n at)
  let ?n = "(if last_opt n = Some CR then butlast n else n) @ [SP]"
  consider (stop) "at = length d"
    | (fold) "at < length d" "d ! at = LF" "is_some_and is_ows (slice_get d (at + 1))"
    | (copy) "at < length d" "\<not> (d ! at = LF \<and> is_some_and is_ows (slice_get d (at + 1)))" using 1(3) by linarith
  then show ?case
  proof cases
    case stop
    have "unfold_from d n at = n" using stop by (simp add: unfold_from_step)
    moreover have "goes_on n (unfold_from (d @ x) n at)"
      using unfold_from_grows [of "d @ x" n at]
    proof
      assume "\<exists>y. unfold_from (d @ x) n at = n @ y"
      then show ?thesis using goes_on_append by metis
    next
      assume grown: "last_opt n = Some CR \<and> (\<exists>y. unfold_from (d @ x) n at = butlast n @ [SP] @ y)"
      with last_opt_CR obtain u where "n = u @ [CR]" by blast
      with grown goes_on_space [of "[CR]" u] show ?thesis by auto
    qed
    ultimately show ?thesis by simp
  next
    case fold
    then have more: "is_some_and is_ows (slice_get (d @ x) (at + 1))" by (auto simp: slice_get_def nth_append split: if_splits)
    have eqs: "unfold_from d n at = unfold_from d ?n (skip_ows d (at + 1))"
      "unfold_from (d @ x) n at = unfold_from (d @ x) ?n (skip_ows (d @ x) (at + 1))"
      using fold more unfold_from_step(1) [of at d n] unfold_from_step(1) [of at "d @ x" n]
      by (simp_all only: nth_append length_append trans_less_add1 if_True simp_thms)
    show ?thesis
    proof (cases "skip_ows d (at + 1) < length d")
      case True
      with 1(1) [OF fold(1) _ refl] fold(2,3) eqs skip_ows_append [OF True] show ?thesis by simp
    next
      case False
      have "last_opt ?n \<noteq> Some CR" by (simp add: last_opt_def)
      then have "goes_on ?n (unfold_from (d @ x) ?n (skip_ows (d @ x) (at + 1)))" by (rule goes_on_more)
      with eqs unfold_from_step(3) [OF False] show ?thesis by simp
    qed
  next
    case copy
    note here = unfold_from_step(2) [OF copy]
    show ?thesis
    proof (cases "d ! at = LF \<and> is_some_and is_ows (slice_get (d @ x) (at + 1))")
      case True
      with copy have at: "at + 1 = length d" by (auto simp: slice_get_def nth_append split: if_splits)
      have "unfold_from d n at = n @ [LF]" using here True at by (simp add: unfold_from_step(3))
      moreover have "unfold_from (d @ x) n at = unfold_from (d @ x) ?n (skip_ows (d @ x) (at + 1))"
        using True copy(1) by (intro unfold_from_step(1)) (simp_all add: nth_append)
      moreover obtain y where "unfold_from (d @ x) ?n (skip_ows (d @ x) (at + 1)) = ?n @ y"
        using unfold_from_grows' [of ?n] by (auto simp: last_opt_def)
      ultimately have "unfold_from d n at = n @ [LF]" "unfold_from (d @ x) n at = ?n @ y" by simp_all
      moreover have "goes_on (n @ [LF]) (?n @ y)"
      proof (cases "last_opt n = Some CR")
        case True
        with last_opt_CR obtain u where "n = u @ [CR]" by blast
        with True goes_on_space [of CRLF u y] show ?thesis by simp
      qed (use goes_on_space [of "[LF]" n y] in simp)
      ultimately show ?thesis by simp
    next
      case False
      with copy have "unfold_from (d @ x) n at = unfold_from (d @ x) (n @ [d ! at]) (at + 1)"
        using unfold_from_step(2) [of at "d @ x" n] by (simp add: nth_append)
      with here copy 1(2) [OF copy] show ?thesis by simp
    qed
  qed
qed

lemma normalize_goes_on: "goes_on (normalize_obs_fold d) (normalize_obs_fold (d @ x))"
  by (simp add: normalize_obs_fold_eq unfold_from_goes_on)

lemma rejected_goes_on:
  assumes "httparse_incremental hp" and "hp_parse_headers hp s n = Inl e" and "goes_on s t"
  shows "hp_parse_headers hp t n \<noteq> Inr (Some r)"
  using assms(3) unfolding goes_on_def
proof
  assume "\<exists>y. t = s @ y"
  with assms(1,2) show ?thesis by (auto simp: httparse_incremental_def)
next
  assume "\<exists>u ended y. ended \<in> {[CR], [LF], CRLF} \<and> s = u @ ended \<and> t = u @ [SP] @ y"
  then obtain u ended y where "ended \<in> {[CR], [LF], CRLF}" "s = u @ ended" "t = u @ [SP] @ y" by blast
  with assms(1,2) show ?thesis unfolding httparse_incremental_def by blast
qed

text \<open>Unfolding makes no empty line: the line it works on either has a space or is the line of the input.\<close>

lemma unfold_no_blank:
  "no_blank d \<Longrightarrow> no_blank n \<Longrightarrow> SP \<in> set (cur_line n) \<or> cur_line n = cur_line (take at d) \<Longrightarrow> no_blank (unfold_from d n at)"
proof (induction d n at rule: unfold_from.induct)
  case (1 d n at)
  let ?n = "(if last_opt n = Some CR then butlast n else n) @ [SP]"
  consider (stop) "\<not> at < length d"
    | (fold) "at < length d" "d ! at = LF" "is_some_and is_ows (slice_get d (at + 1))"
    | (copy) "at < length d" "\<not> (d ! at = LF \<and> is_some_and is_ows (slice_get d (at + 1)))" by blast
  then show ?case
  proof cases
    case stop
    with 1(4) show ?thesis by (simp add: unfold_from_step(3))
  next
    case fold
    have "no_blank ?n" "SP \<in> set (cur_line ?n)" using 1(4) by (simp_all add: no_blank_snoc no_blank_butlast)
    with 1(1) [OF fold(1) _ refl] 1(3) fold show ?thesis by (simp add: unfold_from_step(1))
  next
    case copy
    have "\<not> blank (cur_line n)" if "d ! at = LF"
      using 1(3,5) copy(1) that by (auto simp: no_blank_def blank_def)
    then have "no_blank (n @ [d ! at])" using 1(4) by (simp add: no_blank_snoc)
    moreover have "SP \<in> set (cur_line (n @ [d ! at])) \<or> cur_line (n @ [d ! at]) = cur_line (take (at + 1) d)"
      using 1(5) copy(1) by (auto simp: take_Suc_conv_app_nth)
    ultimately show ?thesis using 1(2) [OF copy 1(3)] unfold_from_step(2) [OF copy] by simp
  qed
qed

lemma normalize_no_blank: "no_blank d \<Longrightarrow> no_blank (normalize_obs_fold d)"
  by (simp add: normalize_obs_fold_eq unfold_no_blank)

lemma complete_not_no_blank:
  "httparse_incremental hp \<Longrightarrow> no_blank d \<Longrightarrow> hp_parse_headers hp d n \<noteq> Inr (Some r)"
  unfolding httparse_incremental_def by blast

lemma poll_default_append:
  "fst (poll progress_default d skip) = Some n \<Longrightarrow> fst (poll progress_default (d @ x) skip) = Some n"
  using poll_resume [of progress_default d x skip] by (auto simp: progress_default_def split: prod.splits)

lemma poll_ge: "fst (poll p d skip) = Some n \<Longrightarrow> sp_at p < n"
  by (induction p rule: poll_induct [of d])
     (auto simp: poll_end poll_byte poll_line next_line_def split: if_splits)

lemma poll_default_past:
  assumes "fst (poll progress_default d skip) = None" and "fst (poll progress_default (d @ x) skip) = Some n"
  shows "length d < n"
proof -
  let ?q = "snd (poll progress_default d skip)"
  have "sp_at ?q = length d" using assms(1) by (intro poll_None_at) (simp_all add: progress_default_def)
  moreover have "poll progress_default (d @ x) skip = poll ?q (d @ x) skip"
    using poll_resume [of progress_default d x skip] assms(1) by (cases "poll progress_default d skip") (simp add: progress_default_def)
  ultimately show ?thesis using poll_ge [of ?q] assms(2) by simp
qed

lemma parse_trailers_error:
  assumes "httparse_ok hp" and "slots_fit n" and "parse_trailers hp d n nf = Inl e"
  shows "\<exists>m. e = Remote (remote m (Some 400))"
proof -
  have "copy_headers t hs False = Inl e' \<Longrightarrow> hp_parse_headers hp t n = Inr (Some (k, hs)) \<Longrightarrow> False" for t hs e' k
    using assms(1) copy_headers_ok [of 0 k hs t False] by (auto simp: httparse_ok_def trailers_ok_def)
  then show ?thesis
    using assms(2,3) by (auto simp: parse_trailers_def Let_def split: sum.splits option.splits prod.splits) blast+
qed

lemma parse_trailers_ended:
  assumes "fst (poll progress_default d False) = Some k"
  shows "parse_trailers hp (d @ x) n nf = parse_trailers hp d n nf"
  using poll_bound [OF assms] by (simp add: parse_trailers_def assms poll_default_append)

lemma parse_trailers_open:
  assumes "httparse_incremental hp" and "no_blank d"
  shows "parse_trailers hp d n nf \<noteq> Inr (Some r)"
proof -
  have "no_blank (if nf then normalize_obs_fold d else d)" using assms(2) by (simp add: normalize_no_blank)
  moreover have "fst (poll progress_default d False) = None" using assms(2) by (simp add: poll_None_no_blank)
  ultimately show ?thesis
    using complete_not_no_blank [OF assms(1)] 
    by (auto simp: parse_trailers_def Let_def split: sum.splits option.splits if_splits)
qed

lemma parse_trailers_append:
  assumes "httparse_ok hp" and "httparse_incremental hp"
  shows "parse_trailers hp d n nf = Inr (Some r) \<Longrightarrow> parse_trailers hp (d @ x) n nf = Inr (Some r)"
    and "parse_trailers hp d n nf = Inl e \<Longrightarrow> parse_trailers hp (d @ x) n nf \<noteq> Inr (Some r)"
proof -
  show "parse_trailers hp (d @ x) n nf = Inr (Some r)" if "parse_trailers hp d n nf = Inr (Some r)"
  proof -
    have "\<not> no_blank d" using parse_trailers_open [OF assms(2)] that by blast
    then obtain k where "fst (poll progress_default d False) = Some k" by (metis poll_None_no_blank option.exhaust)
    from parse_trailers_ended [OF this] that show ?thesis by simp
  qed
  have "parse_trailers hp (d @ x) n nf \<noteq> Inr (Some r)" if err: "parse_trailers hp d n nf = Inl e" "slots_fit n"
  proof (cases "fst (poll progress_default d False)")
    case (Some k)
    from parse_trailers_ended [OF this] err(1) show ?thesis by simp
  next
    case None
    let ?norm = "\<lambda>t. if nf then normalize_obs_fold t else t"
    have "no_blank (?norm d)" using None by (simp add: poll_None_no_blank normalize_no_blank)
    then have "hp_parse_headers hp (?norm d) n \<noteq> Inr (Some r)" for r by (rule complete_not_no_blank [OF assms(2)])
    then obtain e' where e': "hp_parse_headers hp (?norm d) n = Inl e'"
      using err(1) None err(2) by (cases nf) (auto simp: parse_trailers_def Let_def split: sum.splits option.splits)
    show ?thesis
    proof (cases "fst (poll progress_default (d @ x) False)")
      case None
      then show ?thesis by (intro parse_trailers_open assms(2)) (simp add: poll_None_no_blank)
    next
      case (Some k)
      then have "length d < k" using poll_default_past None by blast
      then have t: "take k (d @ x) = d @ take (k - length d) x" by simp
      have "goes_on (?norm d) (?norm (take k (d @ x)))"
        by (simp only: t normalize_goes_on goes_on_append split: if_split) simp
      then have "hp_parse_headers hp (?norm (take k (d @ x))) n \<noteq> Inr (Some r)" for r
        by (rule rejected_goes_on [OF assms(2) e'])
      then show ?thesis using Some by (cases nf) (auto simp: parse_trailers_def Let_def split: sum.splits option.splits)
    qed
  qed
  moreover have "parse_trailers hp (d @ x) n nf \<noteq> Inr (Some r)" if "\<not> slots_fit n"
    using that by (simp add: parse_trailers_def)
  ultimately show "parse_trailers hp (d @ x) n nf \<noteq> Inr (Some r)" if "parse_trailers hp d n nf = Inl e"
    using that by blast
qed

section \<open>A connection that has seen more\<close>

text \<open>\<open>d\<close> is ahead of \<open>c\<close> by \<open>x\<close>: it has got \<open>x\<close> as well, and the end of the input.\<close>

definition ahead :: "bytes \<Rightarrow> Connection \<Rightarrow> Connection \<Rightarrow> bool" where
  "ahead x c d \<longleftrightarrow> (\<exists>b p. as_slice b = input_bytes c @ x \<and> d = record_eof (swap b p c))"

definition along :: "bytes \<Rightarrow> Connection \<times> 'a \<Rightarrow> Connection \<times> 'a \<Rightarrow> bool" where
  "along x u v \<longleftrightarrow> snd v = snd u \<and> ahead x (fst u) (fst v)"

lemma aheadI: "as_slice b = input_bytes c @ x \<Longrightarrow> ahead x c (record_eof (swap b p c))"
  by (auto simp: ahead_def)

lemma ahead_swapI: "as_slice b' = as_slice b @ x \<Longrightarrow> ahead x (swap b p c) (record_eof (swap b' p' c))"
  using aheadI [of b' "swap b p c" x p'] by simp

lemma along_swapI:
  "as_slice b' = as_slice b @ x \<Longrightarrow> along x (apfst (swap b p) u) (apfst record_eof (apfst (swap b' p') u))"
  by (cases u) (simp add: along_def ahead_swapI)

lemma record_eof_swap: "record_eof (swap b p c) = swap b p (record_eof c)"
  by (simp add: record_eof_def swap_def conn_disable_keep_alive_def Let_def)

lemma record_eof_add: "record_eof (add_extension c n) = add_extension (record_eof c) n"
  by (simp add: record_eof_def add_extension_def conn_disable_keep_alive_def Let_def)

lemma ahead_akin: "ahead x c d \<Longrightarrow> ahead x c d' \<Longrightarrow> akin d d'"
  by (auto simp: ahead_def record_eof_swap akin_swap)

lemma ahead_progress: "ahead x (set_progress c p) d \<longleftrightarrow> ahead x c d"
proof -
  have "swap b q (set_progress c p) = swap b q c" for b q by (simp add: swap_def set_progress_def)
  then show ?thesis by (simp add: ahead_def)
qed

lemma ahead_simps:
  assumes "ahead x c d"
  shows "input_bytes d = input_bytes c @ x" "eof d" "role d = role c" "limits d = limits c" "lenient d = lenient c"
    "cyc_reader (cycle d) = cyc_reader (cycle c)" "chunk_extension_bytes (cycle d) = chunk_extension_bytes (cycle c)"
  using assms by (auto simp: ahead_def)

lemma disable_state:
  assumes "lifecycle_inv s" and "role_state s r \<notin> {Done, MustClose}"
  shows "role_state (disable_keep_alive s) r = role_state s r"
proof (cases s)
  case (fields c v k p)
  with assms show ?thesis
    by (cases r; cases c; cases v) (simp_all add: disable_keep_alive_settle lifecycle_inv_def settle_simps)
qed

lemma ahead_peer:
  assumes "ahead x c d" and "ok_state c" and "peer_state c \<notin> {Done, MustClose}"
  shows "peer_state d = peer_state c"
  using assms disable_state [of "conn_state c" "peer (role c)"]
  by (auto simp: ahead_def record_eof_def swap_def conn_disable_keep_alive_def ok_state_def peer_state_def Let_def)

text \<open>What a turn taken early says about the turns of a connection that is ahead.\<close>

definition foretells :: "httparse \<Rightarrow> bytes \<Rightarrow> Connection \<times> polled_result option \<Rightarrow> Connection \<Rightarrow> bool" where
  "foretells hp x res d \<longleftrightarrow>
     (case res of (c1, r) \<Rightarrow>
        (case r of
           None \<Rightarrow> \<exists>d1. turn hp d = (d1, None) \<and> ahead x c1 d1
         | Some (Inr (PolledEvent e)) \<Rightarrow> \<exists>d1. turn hp d = (d1, Some (Inr (PolledEvent e))) \<and> ahead x c1 d1
         | Some (Inr (PolledData n _ _)) \<Rightarrow>
             (\<forall>d1 s. ahead x (consume_input c1 n) d1 \<longrightarrow> settles hp d1 s \<longrightarrow> settles hp d (add_body (take n (input_bytes c1)) s))
         | Some (Inr PolledNeedData) \<Rightarrow> \<forall>d1. ahead x c1 d1 \<longrightarrow> akin d1 d
         | Some (Inr PolledPaused) \<Rightarrow> \<forall>d1. ahead x c1 d1 \<longrightarrow> akin d1 d
         | Some (Inl (Remote e)) \<Rightarrow> settles hp d (Failed (if role c1 = Client then None else suggested_status_code e))
         | Some (Inl Panic) \<Rightarrow> False))"

lemma foretells_simps [simp]:
  "foretells hp x (c1, None) d \<longleftrightarrow> (\<exists>d1. turn hp d = (d1, None) \<and> ahead x c1 d1)"
  "foretells hp x (c1, Some (Inr (PolledEvent e))) d \<longleftrightarrow> (\<exists>d1. turn hp d = (d1, Some (Inr (PolledEvent e))) \<and> ahead x c1 d1)"
  "foretells hp x (c1, Some (Inr (PolledData n b f))) d \<longleftrightarrow>
     (\<forall>d1 s. ahead x (consume_input c1 n) d1 \<longrightarrow> settles hp d1 s \<longrightarrow> settles hp d (add_body (take n (input_bytes c1)) s))"
  "foretells hp x (c1, Some (Inr PolledNeedData)) d \<longleftrightarrow> (\<forall>d1. ahead x c1 d1 \<longrightarrow> akin d1 d)"
  "foretells hp x (c1, Some (Inr PolledPaused)) d \<longleftrightarrow> (\<forall>d1. ahead x c1 d1 \<longrightarrow> akin d1 d)"
  "foretells hp x (c1, Some (Inl (Remote err))) d \<longleftrightarrow>
     settles hp d (Failed (if role c1 = Client then None else suggested_status_code err))"
  "\<not> foretells hp x (c1, Some (Inl Panic)) d"
  by (simp_all add: foretells_def)

lemma foretells_failed:
  assumes "turn hp d = (d1, Some (Inl (Remote e')))" and "role d1 = role c1"
    and "role c1 \<noteq> Client \<Longrightarrow> suggested_status_code e' = suggested_status_code e"
  shows "foretells hp x (c1, Some (Inl (Remote e))) d"
  using settles.fails [OF assms(1)] assms(2,3) by (cases "role c1 = Client") simp_all

fun decided :: "polled_result option \<Rightarrow> bool" where
  "decided None \<longleftrightarrow> True"
| "decided (Some (Inr (PolledEvent e))) \<longleftrightarrow> True"
| "decided (Some (Inl (Remote e))) \<longleftrightarrow> True"
| "decided _ \<longleftrightarrow> False"

lemma foretells_along:
  assumes "along x u (turn hp d)" and "decided (snd u)"
  shows "foretells hp x u d"
proof -
  obtain c1 r d1 where u: "u = (c1, r)" "turn hp d = (d1, r)" "ahead x c1 d1"
    using assms(1) by (cases u; cases "turn hp d") (auto simp: along_def)
  with assms(2) settles.fails [of hp d d1] ahead_simps(3) [OF u(3)] show ?thesis
    by (cases r rule: decided.cases) auto
qed

lemma foretells_wait: "ahead x c d \<Longrightarrow> \<forall>d1. ahead x c1 d1 \<longrightarrow> ahead x c d1 \<Longrightarrow> foretells hp x (c1, Some (Inr PolledNeedData)) d"
  using ahead_akin by fastforce


text \<open>A connection that waits for more, between two calls.\<close>

definition early :: "Connection \<Rightarrow> bool" where
  "early c \<longleftrightarrow> conn_inv c \<and> roomy c \<and> \<not> eof c \<and> peer_state c \<noteq> Closed
     \<and> (\<forall>k. cyc_reader (cycle c) = ReadChunked (Size k) \<longrightarrow> k \<le> length (input_bytes c) - 1)"

lemma earlyD: "early c \<Longrightarrow> ok_state c" "early c \<Longrightarrow> conn_inv c" "early c \<Longrightarrow> \<not> eof c" "early c \<Longrightarrow> peer_state c \<noteq> Closed"
  "early c \<Longrightarrow> slots_fit (max_header_count (limits c))" "early c \<Longrightarrow> roomy c"
  by (auto simp: early_def ok_state_def conn_inv_def conn_base_def roomy_def)

lemma head_section_ahead:
  assumes "ahead x c d"
  shows "\<exists>y. head_section d = head_section c @ y"
    and "max_head_bytes (limits c) < length (input_bytes c) \<Longrightarrow> head_section d = head_section c"
    and "length (input_bytes d) \<le> max_head_bytes (limits c) \<Longrightarrow> head_section d = input_bytes d"
  using ahead_simps [OF assms] by (auto simp: head_section_def Let_def min_def)

lemma turn_reads:
  assumes "ahead x c d" and "early c" and "poll_peer_state c = None"
    and "peer_state c = Idle \<longrightarrow> length (input_bytes d) \<le> max_head_bytes (limits c) \<longrightarrow> \<not> only_empty_lines (input_bytes d)"
  shows "turn hp d = read_body hp d"
proof -
  have "peer_state c \<notin> {Done, MustClose}" using assms(3) by (auto simp: poll_peer_state_def split: if_splits)
  then have "peer_state d = peer_state c" using ahead_peer assms(1,2) earlyD(1) by blast
  with assms(3,4) ahead_simps(2,4) [OF assms(1)] show ?thesis
    by (auto simp: turn_def poll_peer_state_def split: State.splits if_splits)
qed

lemma only_empty_partial:
  assumes "httparse_incremental hp" and "only_empty_lines d" and "slots_fit n"
  shows "parse_request_head hp d n = Inr None" "parse_response_head hp d n z = Inr None"
  using assms unfolding httparse_incremental_def by (simp_all add: parse_request_head_def parse_response_head_def)

text \<open>A head that is there or is wrong decides, for a connection that is ahead too.\<close>

lemma turn_head:
  assumes "ahead x c d" and "early c" and "poll_peer_state c = None" and "httparse_ok hp" and "httparse_incremental hp"
    and "cyc_reader (cycle c) = ReadHead"
    and "if role c = Server then parse_request_head hp (head_section c) (max_header_count (limits c)) \<noteq> Inr None
         else parse_response_head hp (head_section c) (max_header_count (limits c)) (lenient c) \<noteq> Inr None"
  shows "turn hp d = (case read_head hp d of (d1, r) \<Rightarrow> (d1, Some r))"
    and "parse_request_head hp (head_section d) (max_header_count (limits c)) =
           parse_request_head hp (head_section c) (max_header_count (limits c)) \<or> role c = Client"
    and "parse_response_head hp (head_section d) (max_header_count (limits c)) (lenient c) =
           parse_response_head hp (head_section c) (max_header_count (limits c)) (lenient c) \<or> role c = Server"
proof -
  from head_section_ahead(1) [OF assms(1)] obtain y where y: "head_section d = head_section c @ y" by blast
  show request: "parse_request_head hp (head_section d) (max_header_count (limits c)) =
           parse_request_head hp (head_section c) (max_header_count (limits c)) \<or> role c = Client"
    using assms(7) parse_request_head_append [OF assms(4,5)] y by (cases "role c") simp_all
  show response: "parse_response_head hp (head_section d) (max_header_count (limits c)) (lenient c) =
           parse_response_head hp (head_section c) (max_header_count (limits c)) (lenient c) \<or> role c = Server"
    using assms(7) parse_response_head_append [OF assms(4,5)] y by (cases "role c") simp_all
  have "turn hp d = read_body hp d"
  proof (rule turn_reads [OF assms(1-3)], intro impI notI)
    assume "length (input_bytes d) \<le> max_head_bytes (limits c)" "only_empty_lines (input_bytes d)"
    then have "only_empty_lines (head_section d)" using head_section_ahead(3) [OF assms(1)] by simp
    from only_empty_partial [OF assms(5) this earlyD(5) [OF assms(2)]] show False using request response assms(7) by (cases "role c") simp_all
  qed
  then show "turn hp d = (case read_head hp d of (d1, r) \<Rightarrow> (d1, Some r))"
    using assms(6) ahead_simps(6) [OF assms(1)] by (simp add: read_body_def)
qed

lemma section_due_progress_only: "\<exists>p. fst (section_due c skip) = set_progress c p"
proof -
  have "set_progress c (progress (cycle c)) = c" by (simp add: set_progress_def)
  then show ?thesis by (auto simp: section_due_def split: prod.split) metis+
qed

lemma set_progress_simps [simp]:
  "role (set_progress c p) = role c" "limits (set_progress c p) = limits c" "lenient (set_progress c p) = lenient c"
  "eof (set_progress c p) = eof c" "head_section (set_progress c p) = head_section c"
  by (simp_all add: set_progress_def head_section_def)

lemma section_due_eof: "eof c \<Longrightarrow> section_due c skip = (c, True)"
  by (simp add: section_due_def)

lemma section_not_due: "section_due c skip = (c', False) \<Longrightarrow> length (input_bytes c) \<le> max_head_bytes (limits c)"
  by (auto simp: section_due_def split: if_splits)

lemma moved_swap:
  "set_progress (consume_input (set_progress c p) n) q = swap (consume (conn_input c) n) q c"
  "set_progress (consume_input (conn_disable_keep_alive (set_progress c p)) n) q = swap (consume (conn_input c) n) q (conn_disable_keep_alive c)"
  by (simp_all add: set_progress_def consume_input_def swap_def conn_disable_keep_alive_def)

lemma ok_state_disable: "ok_state c \<Longrightarrow> ok_state (conn_disable_keep_alive c)"
  using lifecycle_inv_disable by (simp add: ok_state_def conn_disable_keep_alive_def)

lemma ok_state_swap [simp]: "ok_state (swap b p c) = ok_state c"
  by (simp add: ok_state_def)

lemma accept_along:
  assumes "ok_state c" and "as_slice b' = as_slice b @ x"
  shows "along x (accept_request (swap b p c) r) (accept_request (record_eof (swap b' p' c)) r)"
    and "along x (accept_response (swap b p c) s) (accept_response (record_eof (swap b' p' c)) s)"
    and "along x (finish_peer (swap b p c) h) (finish_peer (record_eof (swap b' p' c)) h)"
  using along_swapI [OF assms(2)] assms(1)
  by (simp_all add: ended.accept_request ended.accept_response ended.finish_peer swap.accept_request swap.accept_response swap.finish_peer)


lemma along_some: "along x u v \<Longrightarrow> along x (case u of (c, r) \<Rightarrow> (c, Some r)) (case v of (c, r) \<Rightarrow> (c, Some r))"
  by (cases u; cases v) (simp add: along_def)

lemma accept_decided:
  "decided (Some (snd (accept_request c r)))" "decided (Some (snd (accept_response c s)))"
  "decided (Some (snd (finish_peer c h)))"
proof -
  show "decided (Some (snd (accept_request c r)))"
    by (auto simp: accept_request_def Let_def split: prod.split sum.split)
  show "decided (Some (snd (finish_peer c h)))"
    by (auto simp: finish_peer_def split: prod.split sum.split)
  have "decided (Some (snd (accept_informational c s b)))" for b
    by (auto simp: accept_informational_def Let_def split: prod.split sum.split option.split)
  moreover have "decided (Some (snd (accept_final c s f z)))" for f z
    by (cases z) (auto simp: accept_final_def Let_def split: prod.split sum.split)
  ultimately show "decided (Some (snd (accept_response c s)))" by (simp add: accept_response_def Let_def)
qed

lemma foretells_accept:
  assumes "turn hp d = (case v of (d1, r) \<Rightarrow> (d1, Some r))" and "along x u v" and "decided (Some (snd u))"
  shows "foretells hp x (case u of (c1, r) \<Rightarrow> (c1, Some r)) d"
  using assms along_some [OF assms(2)] by (intro foretells_along) (auto split: prod.splits)

text \<open>Nothing parsed yet: a connection waits, or its section is too long already.\<close>

lemma foretells_waits:
  assumes "ahead x c d" and "\<not> eof c" and "c' = set_progress c p"
    and "max_head_bytes (limits c) < length (input_bytes c) \<Longrightarrow>
      turn hp d = (case wait_for_section d skip of (d1, r) \<Rightarrow> (d1, Some r))"
  shows "foretells hp x (case wait_for_section c' skip of (c1, r) \<Rightarrow> (c1, Some r)) d"
proof (cases "length (input_bytes c) \<le> max_head_bytes (limits c)")
  case True
  with assms show ?thesis
    using ahead_akin by (auto simp: wait_for_section_def need_data_or_eof_def ahead_progress)
next
  case False
  with assms(4) have "turn hp d = (case wait_for_section d skip of (d1, r) \<Rightarrow> (d1, Some r))" by simp
  then show ?thesis
    using False assms(3) ahead_simps [OF assms(1)] head_section_ahead(2) [OF assms(1)]
    by (cases skip) (auto simp: wait_for_section_def Let_def intro!: foretells_failed simp del: foretells_simps)
qed

lemma head_too_long:
  assumes "ahead x c d" and "early c" and "poll_peer_state c = None" and "cyc_reader (cycle c) = ReadHead"
    and "max_head_bytes (limits c) < length (input_bytes c)"
    and "if role c = Server then parse_request_head hp (head_section c) (max_header_count (limits c)) = Inr None
         else parse_response_head hp (head_section c) (max_header_count (limits c)) (lenient c) = Inr None"
  shows "turn hp d = (case wait_for_section d True of (d1, r) \<Rightarrow> (d1, Some r))"
proof -
  note facts = ahead_simps [OF assms(1)]
  have "turn hp d = read_body hp d" using assms(5) facts by (intro turn_reads [OF assms(1-3)]) simp
  with assms(4-6) facts head_section_ahead(2) [OF assms(1)] show ?thesis
    by (auto simp: read_body_def read_head_def section_due_eof Let_def split: if_splits)
qed

lemma read_request_foretells:
  assumes "ahead x c d" and "early c" and "poll_peer_state c = None" and "httparse_ok hp" and "httparse_incremental hp"
    and "cyc_reader (cycle c) = ReadHead"
    and "role c = Server" and "section_due c True = (set_progress c p, True)"
  shows "foretells hp x (case read_head hp c of (c1, r) \<Rightarrow> (c1, Some r)) d"
proof -
  obtain b q where d: "d = record_eof (swap b q c)" "as_slice b = input_bytes c @ x"
    using assms(1) by (auto simp: ahead_def)
  note facts = ahead_simps [OF assms(1)] and head = turn_head [OF assms(1-6)]
  consider (error) e where "parse_request_head hp (head_section c) (max_header_count (limits c)) = Inl e"
    | (partial) "parse_request_head hp (head_section c) (max_header_count (limits c)) = Inr None"
    | (complete) e r where "parse_request_head hp (head_section c) (max_header_count (limits c)) = Inr (Some (e, r))"
    by (metis sum.exhaust option.exhaust prod.exhaust)
  then show ?thesis
  proof cases
    case error
    then obtain re where e: "e = Remote re" using parse_request_head_ok(1) [OF assms(4)] earlyD(5) [OF assms(2)] by (metis recv_error.exhaust)
    with error assms(7) facts head(1,2) have "turn hp d = (d, Some (Inl e))"
      by (simp add: read_head_def section_due_eof)
    with e error assms(7,8) facts show ?thesis by (auto simp: read_head_def intro!: foretells_failed simp del: foretells_simps)
  next
    case partial
    with assms(7,8) head_too_long [OF assms(1-3,6)] foretells_waits [OF assms(1) earlyD(3) [OF assms(2)] refl, of hp True p]
    show ?thesis by (simp add: read_head_def)
  next
    case complete
    then have e: "e \<le> length (input_bytes c)"
      using parse_request_head_ok(2) [OF assms(4)] by (fastforce simp: head_section_def Let_def)
    let ?u = "accept_request (swap (consume (conn_input c) e) progress_default c) r"
    let ?v = "accept_request (record_eof (swap (consume b e) progress_default c)) r"
    have "along x ?u ?v" using e d(2) earlyD(1) [OF assms(2)] by (intro accept_along) simp_all
    moreover have "read_head hp d = ?v"
      using complete assms(7) facts head(2)
      by (simp add: read_head_def section_due_eof) (simp add: d record_eof_swap consume_set_progress)
    ultimately have "foretells hp x (case ?u of (c1, r) \<Rightarrow> (c1, Some r)) d"
      using complete assms(7) head(1) accept_decided(1) by (intro foretells_accept [where v = ?v]) simp_all
    then show ?thesis using complete assms(7,8) by (simp add: read_head_def moved_swap)
  qed
qed

lemma read_response_foretells:
  assumes "ahead x c d" and "early c" and "poll_peer_state c = None" and "httparse_ok hp" and "httparse_incremental hp"
    and "cyc_reader (cycle c) = ReadHead"
    and "role c = Client" and "section_due c True = (set_progress c p, True)"
  shows "foretells hp x (case read_head hp c of (c1, r) \<Rightarrow> (c1, Some r)) d"
proof -
  obtain b q where d: "d = record_eof (swap b q c)" "as_slice b = input_bytes c @ x"
    using assms(1) by (auto simp: ahead_def)
  note facts = ahead_simps [OF assms(1)] and head = turn_head [OF assms(1-6)]
  consider (error) e where "parse_response_head hp (head_section c) (max_header_count (limits c)) (lenient c) = Inl e"
    | (partial) "parse_response_head hp (head_section c) (max_header_count (limits c)) (lenient c) = Inr None"
    | (complete) e r dropped where "parse_response_head hp (head_section c) (max_header_count (limits c)) (lenient c) = Inr (Some (e, r, dropped))"
    by (metis sum.exhaust option.exhaust prod.exhaust)
  then show ?thesis
  proof cases
    case error
    then obtain re where e: "e = Remote re" using parse_response_head_ok(1) [OF assms(4)] earlyD(5) [OF assms(2)] by (metis recv_error.exhaust)
    with error assms(7) facts head(1,3) have "turn hp d = (d, Some (Inl e))"
      by (simp add: read_head_def section_due_eof)
    with e error assms(7,8) facts show ?thesis by (auto simp: read_head_def intro!: foretells_failed simp del: foretells_simps)
  next
    case partial
    with assms(7,8) head_too_long [OF assms(1-3,6)] foretells_waits [OF assms(1) earlyD(3) [OF assms(2)] refl, of hp True p]
    show ?thesis by (simp add: read_head_def)
  next
    case complete
    then have e: "e \<le> length (input_bytes c)"
      using parse_response_head_ok(2) [OF assms(4)] by (fastforce simp: head_section_def Let_def)
    let ?c = "if dropped then conn_disable_keep_alive c else c"
    let ?u = "accept_response (swap (consume (conn_input c) e) progress_default ?c) r"
    let ?v = "accept_response (record_eof (swap (consume b e) progress_default ?c)) r"
    have "along x ?u ?v" using e d(2) earlyD(1) [OF assms(2)] ok_state_disable by (intro accept_along) simp_all
    moreover have "read_head hp d = ?v"
      using complete assms(7) facts head(3)
      by (simp add: read_head_def section_due_eof) (simp add: d record_eof_swap consume_set_progress conn_disable_swap ended.disable)
    ultimately have "foretells hp x (case ?u of (c1, r) \<Rightarrow> (c1, Some r)) d"
      using complete assms(7) head(1) accept_decided(2) by (intro foretells_accept [where v = ?v]) simp_all
    then show ?thesis using complete assms(7,8) by (cases dropped) (simp_all add: read_head_def moved_swap)
  qed
qed

lemma read_head_foretells:
  assumes "ahead x c d" and "early c" and "poll_peer_state c = None" and "httparse_ok hp" and "httparse_incremental hp"
    and "cyc_reader (cycle c) = ReadHead"
  shows "foretells hp x (case read_head hp c of (c1, r) \<Rightarrow> (c1, Some r)) d"
proof -
  obtain p is_due where sd: "section_due c True = (set_progress c p, is_due)"
    using section_due_progress_only [of c True] by (cases "section_due c True") auto
  show ?thesis
  proof (cases is_due)
    case False
    with sd section_not_due [of c True] foretells_waits [OF assms(1) earlyD(3) [OF assms(2)] refl, of hp True p]
    show ?thesis by (simp add: read_head_def)
  next
    case True
    with sd have due: "section_due c True = (set_progress c p, True)" by simp
    show ?thesis
    proof (cases "role c")
      case Server
      then show ?thesis by (rule read_request_foretells [OF assms _ due])
    next
      case Client
      then show ?thesis by (rule read_response_foretells [OF assms _ due])
    qed
  qed
qed

lemma turn_body:
  assumes "ahead x c d" and "early c" and "poll_peer_state c = None" and "cyc_reader (cycle c) \<noteq> ReadHead"
  shows "peer_state c = SendBody" and "turn hp d = read_body hp d"
proof -
  show "peer_state c = SendBody"
    using earlyD(2) [OF assms(2)] assms(3,4) by (auto simp: conn_inv_def reader_phase_def poll_peer_state_def)
  then show "turn hp d = read_body hp d" by (intro turn_reads [OF assms(1-3)]) simp
qed

lemma read_trailers_foretells:
  assumes "ahead x c d" and "early c" and "poll_peer_state c = None" and "httparse_ok hp" and "httparse_incremental hp"
    and "cyc_reader (cycle c) = ReadChunked Trailers"
  shows "foretells hp x (case read_trailers hp c of (c1, r) \<Rightarrow> (c1, Some r)) d"
proof -
  let ?parse = "\<lambda>c. parse_trailers hp (head_section c) (max_header_count (limits c)) (role c = Client)"
  obtain p is_due where sd: "section_due c False = (set_progress c p, is_due)"
    using section_due_progress_only [of c False] by (cases "section_due c False") auto
  obtain b q where d: "d = record_eof (swap b q c)" "as_slice b = input_bytes c @ x"
    using assms(1) by (auto simp: ahead_def)
  note facts = ahead_simps [OF assms(1)]
  have turn: "turn hp d = (case read_trailers hp d of (d1, r) \<Rightarrow> (d1, Some r))"
    using turn_body(2) [OF assms(1-3), of hp] facts assms(6) by (simp add: read_body_def read_chunked_def)
  note waits = foretells_waits [OF assms(1) earlyD(3) [OF assms(2)] refl, of hp False p]
  from head_section_ahead(1) [OF assms(1)] obtain y where y: "head_section d = head_section c @ y" by blast
  consider (not_due) "\<not> is_due" | (error) e where "?parse c = Inl e" is_due | (partial) "?parse c = Inr None" is_due
    | (complete) e h where "?parse c = Inr (Some (e, h))" is_due
    by (metis sum.exhaust option.exhaust prod.exhaust)
  then show ?thesis
  proof cases
    case not_due
    with sd section_not_due [of c False] waits show ?thesis by (simp add: read_trailers_def)
  next
    case error
    with parse_trailers_error [OF assms(4) earlyD(5) [OF assms(2)]] obtain m where e: "e = Remote (remote m (Some 400))" by blast
    have "\<exists>m'. turn hp d = (d, Some (Inl (Remote (remote m' (Some 400)))))"
    proof (cases "?parse d")
      case (Inl e')
      with parse_trailers_error [OF assms(4) earlyD(5) [OF assms(2)]] facts turn show ?thesis by (auto simp: read_trailers_def section_due_eof)
    next
      case (Inr r)
      then have "r = None" using parse_trailers_append(2) [OF assms(4,5) error(1)] y facts by (cases r) auto
      with Inr facts turn show ?thesis
        by (auto simp: read_trailers_def section_due_eof wait_for_section_def need_data_or_eof_def)
    qed
    with e error sd facts show ?thesis
      by (auto simp: read_trailers_def remote_def intro!: foretells_failed simp del: foretells_simps)
  next
    case partial
    with turn facts head_section_ahead(2) [OF assms(1)] waits sd show ?thesis
      by (simp add: read_trailers_def section_due_eof)
  next
    case complete
    then have e: "e \<le> length (input_bytes c)"
      using parse_trailers_ok(2) [OF assms(4)] by (fastforce simp: head_section_def Let_def)
    let ?u = "finish_peer (swap (consume (conn_input c) e) progress_default c) h"
    let ?v = "finish_peer (record_eof (swap (consume b e) progress_default c)) h"
    have "along x ?u ?v" using e d(2) earlyD(1) [OF assms(2)] by (intro accept_along) simp_all
    moreover have "read_trailers hp d = ?v"
      using parse_trailers_append(1) [OF assms(4,5) complete(1)] y facts
      by (simp add: read_trailers_def section_due_eof) (simp add: d record_eof_swap consume_set_progress)
    ultimately have "foretells hp x (case ?u of (c1, r) \<Rightarrow> (c1, Some r)) d"
      using turn accept_decided(3) by (intro foretells_accept [where v = ?v]) simp_all
    then show ?thesis using complete sd by (simp add: read_trailers_def moved_swap)
  qed
qed

lemma ahead_move:
  assumes "ahead x c d" and "n \<le> length (input_bytes c)"
  shows "ahead x (set_reader (consume_input c n) rd) (set_reader (consume_input d n) rd)"
    and "ahead x (set_reader (swap (consume (conn_input c) n) p c) rd) (set_reader (swap (consume (conn_input d) n) p d) rd)"
proof -
  from assms(1) obtain b q where d: "d = record_eof (swap b q c)" "as_slice b = input_bytes c @ x" by (auto simp: ahead_def)
  have "as_slice (consume b n) = as_slice (consume (conn_input c) n) @ x" using assms(2) d(2) by simp
  then have *: "ahead x (swap (consume (conn_input c) n) p' (set_reader c rd)) (record_eof (swap (consume b n) q' (set_reader c rd)))" for p' q'
    by (rule ahead_swapI)
  show "ahead x (set_reader (consume_input c n) rd) (set_reader (consume_input d n) rd)"
    using * d by (simp add: consume_swap [of c] consume_swap [of "swap b q (record_eof c)"] set_reader_swap record_eof_swap ended.reader_set)
  show "ahead x (set_reader (swap (consume (conn_input c) n) p c) rd) (set_reader (swap (consume (conn_input d) n) p d) rd)"
    using * d by (simp add: set_reader_swap record_eof_swap ended.reader_set)
qed

lemma ahead_extension: "ahead x c d \<Longrightarrow> ahead x (add_extension c n) (add_extension d n)"
  using aheadI [of _ "add_extension c n" x] by (auto simp: ahead_def record_eof_swap record_eof_add)

lemma read_data_end_foretells:
  assumes "ahead x c d" and "early c" and "poll_peer_state c = None" and "cyc_reader (cycle c) = ReadChunked DataEnd"
  shows "foretells hp x (read_data_end c) d"
proof -
  note facts = ahead_simps [OF assms(1)]
  have turn: "turn hp d = read_data_end d"
    using turn_body(2) [OF assms(1-3), of hp] facts assms(4) by (simp add: read_body_def read_chunked_def)
  show ?thesis
  proof (cases "length (input_bytes c) < 2")
    case True
    with earlyD(3) [OF assms(2)] ahead_akin assms(1) show ?thesis
      by (auto simp: read_data_end_def need_data_or_eof_def)
  next
    case False
    then have "2 \<le> length (input_bytes c)" "take 2 (input_bytes d) = take 2 (input_bytes c)" using facts by simp_all
    with False turn facts ahead_move(1) [OF assms(1), of 2] show ?thesis
      by (auto simp: read_data_end_def intro!: foretells_failed simp del: foretells_simps(6))
  qed
qed


lemma crlf_at_longer: "crlf_at d i \<Longrightarrow> crlf_at (d @ x) i" "crlf_at (d @ x) i \<Longrightarrow> i + 1 < length d \<Longrightarrow> crlf_at d i"
  by (auto simp: crlf_at_def nth_append)

lemma find_crlf_append:
  assumes "find_crlf d k = Some (Some ended)"
  shows "find_crlf (d @ x) k = Some (Some ended)"
proof -
  have k: "k \<le> length d" using find_crlf_bounds [OF assms] by simp
  with find_crlf_Some [OF k] assms obtain i where i: "k \<le> i" "ended = i + 2" "crlf_at d i" "\<forall>j. k \<le> j \<and> j < i \<longrightarrow> \<not> crlf_at d j"
    by blast
  moreover have "\<not> crlf_at (d @ x) j" if "k \<le> j" "j < i" for j
    using i(3,4) that crlf_at_longer(2) [of d x j] by (auto simp: crlf_at_def)
  ultimately show ?thesis using k crlf_at_longer(1) [of d i x] by (subst find_crlf_Some) auto
qed

lemma incomplete_grows: "incomplete_line_len d \<le> incomplete_line_len (d @ x)"
  by (cases x rule: rev_cases) (auto simp: incomplete_line_len_def)

lemma incomplete_before_end:
  assumes "find_crlf d k = Some None" and "find_crlf (d @ x) k = Some (Some ended)"
  shows "incomplete_line_len d \<le> ended - 2"
proof -
  have k: "k \<le> length d" using assms(1) by (simp add: find_crlf_def split: if_splits)
  then have none: "\<not> crlf_at d i" if "k \<le> i" for i using assms(1) that by (simp add: find_crlf_None)
  from assms(2) k obtain i where i: "k \<le> i" "ended = i + 2" "crlf_at (d @ x) i" by (subst (asm) find_crlf_Some) auto
  with none crlf_at_longer(2) [of d x i] have "length d \<le> i + 1" by force
  moreover have "last_opt d = Some CR" if "length d = i + 1"
    using i(3) that by (cases d rule: rev_cases) (auto simp: crlf_at_def nth_append last_opt_def)
  ultimately show ?thesis using i(2) by (cases "length d = i + 1") (auto simp: incomplete_line_len_def)
qed

lemma size_foretells_none:
  assumes "ahead x c d" and "early c" and "cyc_reader (cycle c) = ReadChunked (Size k)"
    and "turn hp d = read_chunk_size d k" and "find_crlf (input_bytes c) k = Some None" and "peer_state c = SendBody"
  shows "foretells hp x (read_chunk_size c k) d"
proof (cases "incomplete_line_len (input_bytes c) > max_head_bytes (limits c)")
  case True
  note facts = ahead_simps [OF assms(1)]
  have "\<exists>m e. turn hp d = (d, Some (Inl (Remote (remote m (if role c = Server then Some 400 else None)))))"
  proof -
    have k: "k \<le> length (input_bytes d)" using assms(5) facts(1) by (auto simp: find_crlf_def split: if_splits)
    from find_crlf_total [OF k] obtain f where f: "find_crlf (input_bytes d) k = Some f" by blast
    show ?thesis
    proof (cases f)
      case None
      with True f facts assms(4) incomplete_grows [of "input_bytes c" x] show ?thesis by (auto simp: read_chunk_size_def Let_def)
    next
      case (Some ended)
      with f facts(1) incomplete_before_end [OF assms(5)] have "incomplete_line_len (input_bytes c) \<le> ended - 2" by simp
      with True have "max_head_bytes (limits d) < ended - 2" using facts by simp
      with Some f facts assms(4) show ?thesis by (auto simp: read_chunk_size_def Let_def)
    qed
  qed
  with True assms(5) facts show ?thesis
    by (auto simp: read_chunk_size_def Let_def remote_def intro!: foretells_failed simp del: foretells_simps)
next
  case False
  obtain b q where d: "d = record_eof (swap b q c)" "as_slice b = input_bytes c @ x"
    using assms(1) by (auto simp: ahead_def)
  have resume: "find_crlf (input_bytes c @ x) (length (input_bytes c) - 1) = find_crlf (input_bytes c @ x) k"
    using assms(2,3) by (intro find_crlf_resume [OF assms(5)]) (simp add: early_def)
  have "akin d1 d" if late: "ahead x (set_reader c (ReadChunked (Size (length (input_bytes c) - 1)))) d1" for d1
  proof -
    let ?k = "length (input_bytes c) - 1"
    obtain b' q' where d1: "d1 = record_eof (swap b' q' (set_reader c (ReadChunked (Size ?k))))" "as_slice b' = input_bytes c @ x"
      using late by (auto simp: ahead_def)
    have "d = set_reader (swap b q d1) (ReadChunked (Size k))"
      using d d1 assms(3) by (simp add: record_eof_def swap_def set_reader_def conn_disable_keep_alive_def Let_def)
    moreover have "peer_state d1 = SendBody"
      using ahead_peer [OF late] earlyD(1) [OF assms(2)] assms(6) by (simp add: ok_state_def)
    ultimately show ?thesis
      using akin_size [of d1 ?k k b q] d1 d(2) resume by (simp add: record_eof_swap)
  qed
  with False assms(5) earlyD(3) [OF assms(2)] show ?thesis
    by (simp add: read_chunk_size_def need_data_or_eof_def Let_def)
qed


lemma read_chunk_size_foretells:
  assumes "ahead x c d" and "early c" and "poll_peer_state c = None" and "cyc_reader (cycle c) = ReadChunked (Size k)"
  shows "foretells hp x (read_chunk_size c k) d"
proof -
  note facts = ahead_simps [OF assms(1)]
  have turn: "turn hp d = read_chunk_size d k"
    using turn_body(2) [OF assms(1-3), of hp] facts assms(4) by (simp add: read_body_def read_chunked_def)
  have k: "k \<le> length (input_bytes c)" using assms(2,4) by (auto simp: early_def)
  then obtain f where f: "find_crlf (input_bytes c) k = Some f" using find_crlf_total by blast
  show ?thesis
  proof (cases f)
    case None
    with f have "find_crlf (input_bytes c) k = Some None" by simp
    then show ?thesis using size_foretells_none [OF assms(1,2,4) turn] turn_body(1) [OF assms(1-3)] assms(4) by simp
  next
    case (Some ended)
    with f have f: "find_crlf (input_bytes c) k = Some (Some ended)" by simp
    with find_crlf_append facts(1) have fd: "find_crlf (input_bytes d) k = Some (Some ended)" by simp
    have ended: "ended \<le> length (input_bytes c)" using find_crlf_bounds [OF f] by simp
    then have line: "take (ended - 2) (input_bytes d) = take (ended - 2) (input_bytes c)" using facts(1) by simp
    have "along x (read_chunk_size c k) (read_chunk_size d k)"
      unfolding read_chunk_size_found [OF f] read_chunk_size_found [OF fd] line
      using ahead_extension [OF assms(1)] ahead_move [OF ahead_extension [OF assms(1)]] ended facts assms(1)
      by (auto simp: along_def Let_def split: option.split)
    moreover have "decided (snd (read_chunk_size c k))"
      unfolding read_chunk_size_found [OF f] by (auto simp: Let_def split: option.split)
    ultimately show ?thesis using turn by (intro foretells_along) simp_all
  qed
qed

text \<open>A turn within the payload: how much it takes, and what it leaves the reader at.\<close>

fun payload_count :: "Reader \<Rightarrow> nat \<Rightarrow> nat" where
  "payload_count (ReadFixed n) a = min n a"
| "payload_count (ReadChunked (ChunkData n b)) a = min n a"
| "payload_count rd a = a"

lemma payload_count_le: "payload_count rd a \<le> a"
  by (cases "(rd, a)" rule: payload_count.cases) auto

fun payload_after :: "Reader \<Rightarrow> nat \<Rightarrow> Reader" where
  "payload_after (ReadFixed n) k = ReadFixed (n - k)"
| "payload_after (ReadChunked (ChunkData n b)) k = ReadChunked (if k = n then DataEnd else ChunkData (n - k) False)"
| "payload_after rd k = rd"

fun in_payload :: "Reader \<Rightarrow> bool" where
  "in_payload (ReadFixed n) \<longleftrightarrow> 0 < n"
| "in_payload (ReadChunked (ChunkData n b)) \<longleftrightarrow> 0 < n"
| "in_payload ReadCloseDelimited \<longleftrightarrow> True"
| "in_payload rd \<longleftrightarrow> False"

lemma payload_split:
  assumes "in_payload rd" and "0 < a" and "payload_count rd (a + e) \<noteq> payload_count rd a"
  shows "payload_count rd a = a" "0 < e" "in_payload (payload_after rd a)"
    "payload_count rd (a + e) = a + payload_count (payload_after rd a) e"
    "payload_after (payload_after rd a) (payload_count (payload_after rd a) e) = payload_after rd (payload_count rd (a + e))"
proof -
  have e: "0 < e" using assms(3) by (cases e) auto
  consider n where "rd = ReadFixed n" "a < n" | n b where "rd = ReadChunked (ChunkData n b)" "a < n" | "rd = ReadCloseDelimited"
    using assms by (cases rd rule: in_payload.cases) (auto simp: min_def split: if_splits)
  then have "payload_count rd a = a \<and> in_payload (payload_after rd a)
    \<and> payload_count rd (a + e) = a + payload_count (payload_after rd a) e
    \<and> payload_after (payload_after rd a) (payload_count (payload_after rd a) e) = payload_after rd (payload_count rd (a + e))"
    by cases (simp_all add: min_def, auto)
  with e show "payload_count rd a = a" "0 < e" "in_payload (payload_after rd a)"
    "payload_count rd (a + e) = a + payload_count (payload_after rd a) e"
    "payload_after (payload_after rd a) (payload_count (payload_after rd a) e) = payload_after rd (payload_count rd (a + e))"
    by simp_all
qed

definition after_payload :: "Connection \<Rightarrow> nat \<Rightarrow> Connection" where
  "after_payload c k = consume_input (clear_waiting (set_reader c (payload_after (cyc_reader (cycle c)) k))) k"

abbreviation read_on :: "Connection \<Rightarrow> Reader \<Rightarrow> Connection" where
  "read_on c rd \<equiv> clear_waiting (set_reader c rd)"

lemma after_payload_ahead:
  "after_payload (record_eof (swap b q c)) k = record_eof (swap (consume b k) q (read_on c (payload_after (cyc_reader (cycle c)) k)))"
  by (simp add: after_payload_def consume_input_def swap_def clear_waiting_def set_reader_def record_eof_def
      conn_disable_keep_alive_def Let_def)

lemma after_payload_swap:
  "after_payload c k = swap (consume (conn_input c) k) (progress (cycle c)) (read_on c (payload_after (cyc_reader (cycle c)) k))"
  by (simp add: after_payload_def swap_def clear_waiting_def set_reader_def consume_input_def)

lemma read_on_simps [simp]: "read_on (read_on c rd) rd' = read_on c rd'" "cyc_reader (cycle (clear_waiting c)) = cyc_reader (cycle c)"
  "conn_input (clear_waiting c) = conn_input c" "peer_state (clear_waiting c) = peer_state c" "conn_state (clear_waiting c) = conn_state c"
  "read_on (swap b p c) rd = swap b p (read_on c rd)"
  by (simp_all add: clear_waiting_def set_reader_def peer_state_def swap_def)

lemma turn_payload:
  assumes "peer_state c = SendBody" and "in_payload (cyc_reader (cycle c))" and "input_bytes c \<noteq> []"
    and "k = payload_count (cyc_reader (cycle c)) (length (input_bytes c))"
  shows "\<exists>b f. turn hp c =
    (clear_waiting (set_reader c (payload_after (cyc_reader (cycle c)) k)), Some (Inr (PolledData k b f)))"
proof -
  have data: "peer_data c' n b f = (clear_waiting c', Inr (PolledData n b f))" if "peer_state c' = SendBody" for c' n b f
    using advance_peer_data [OF that] by (simp add: peer_data_def clear_waiting_def)
  have c: "set_reader c (cyc_reader (cycle c)) = c" by (simp add: set_reader_def)
  have "poll_peer_state c = None" using assms(1) by (simp add: poll_peer_state_def)
  with assms data c show ?thesis
    by (cases "cyc_reader (cycle c)" rule: in_payload.cases)
       (auto simp: turn_def read_body_def read_chunked_def read_payload_def advance_payload_def Let_def)
qed

lemma payload_foretells:
  assumes "ahead x c d" and "early c" and "peer_state c = SendBody" and "in_payload (cyc_reader (cycle c))" and "input_bytes c \<noteq> []"
  shows "foretells hp x (turn hp c) d"
proof -
  let ?rd = "cyc_reader (cycle c)" and ?a = "length (input_bytes c)"
  let ?k = "payload_count ?rd ?a" and ?l = "payload_count ?rd (?a + length x)"
  note facts = ahead_simps [OF assms(1)]
  obtain b q where d: "d = record_eof (swap b q c)" "as_slice b = input_bytes c @ x"
    using assms(1) by (auto simp: ahead_def)
  obtain s1 s2 where turn_c: "turn hp c = (clear_waiting (set_reader c (payload_after ?rd ?k)), Some (Inr (PolledData ?k s1 s2)))"
    using turn_payload [OF assms(3-5) refl] by blast
  have peer: "peer_state d = SendBody" using ahead_peer [OF assms(1) earlyD(1) [OF assms(2)]] assms(3) by simp
  obtain s3 s4 where turn_d: "turn hp d = (clear_waiting (set_reader d (payload_after ?rd ?l)), Some (Inr (PolledData ?l s3 s4)))"
    using turn_payload [OF peer, of ?l hp] facts assms(4,5) by auto
  have "settles hp d (add_body (take ?k (input_bytes c)) s)" if s: "ahead x (after_payload c ?k) d1" "settles hp d1 s" for d1 s
  proof (cases "?l = ?k")
    case True
    have k: "?k \<le> ?a" by (rule payload_count_le)
    then have "ahead x (after_payload c ?k) (after_payload d ?l)"
      unfolding True unfolding d(1) after_payload_ahead after_payload_swap [of c] using d(2) by (intro ahead_swapI) simp
    with s have "settles hp (after_payload d ?l) s" using ahead_akin akin_settles ahead_simps(2) by blast
    from settles.data [OF turn_d, of s] this k facts True show ?thesis by (simp add: after_payload_def)
  next
    case False
    let ?m = "payload_count (payload_after ?rd ?k) (length x)"
    note split = payload_split [OF assms(4) _ False] 
    have k: "?k = ?a" "x \<noteq> []" "in_payload (payload_after ?rd ?k)" "?l = ?k + ?m"
      "payload_after (payload_after ?rd ?k) ?m = payload_after ?rd ?l"
      using split assms(5) by auto
    obtain b1 q1 where d1: "d1 = record_eof (swap b1 q1 (after_payload c ?k))" "as_slice b1 = x"
      using s(1) k(1) by (auto simp: ahead_def after_payload_swap)
    have peer1: "peer_state d1 = SendBody" "cyc_reader (cycle d1) = payload_after ?rd ?k" "input_bytes d1 = x"
      using ahead_peer [OF s(1)] earlyD(1) [OF assms(2)] assms(3) d1 by (simp_all add: after_payload_swap ok_state_def)
    obtain s5 s6 where turn_d1: "turn hp d1 = (read_on d1 (payload_after ?rd ?l), Some (Inr (PolledData ?m s5 s6)))"
      using turn_payload [OF peer1(1), of ?m hp] peer1 k by auto
    with s(2) obtain s' where s': "s = add_body (take ?m x) s'" "settles hp (after_payload d1 ?m) s'"
      using peer1 k(5) by (auto simp: settles_data after_payload_def)
    have "akin (after_payload d1 ?m) (after_payload d ?l)"
      unfolding d(1) d1(1) after_payload_ahead
      using d d1 k by (simp add: after_payload_swap record_eof_swap akin_swap)
    with s'(2) have "settles hp (after_payload d ?l) s'" using akin_settles [of hp "after_payload d1 ?m" s'] d1(1)
      by (simp add: after_payload_ahead)
    from settles.data [OF turn_d, of s'] this s'(1) facts k
    have "settles hp d (add_body (input_bytes c @ take ?m x) s')" by (simp add: after_payload_def)
    with s'(1) k(1) show ?thesis by (cases s') simp_all
  qed
  then show ?thesis unfolding turn_c by (simp add: after_payload_def clear_waiting_def)
qed

section \<open>The sample parser is incremental\<close>

lemma starts_with_append: "starts_with d p \<Longrightarrow> starts_with (d @ x) p"
  by (auto simp: starts_with_iff)

lemma only_empty_lines_first:
  assumes "only_empty_lines d" and "d \<noteq> []"
  shows "hd d \<in> {CR, LF}"
proof -
  obtain ls where "list_all blank_line ls" "d = concat ls" using assms(1) by (auto simp: only_empty_lines_iff)
  with assms(2) show ?thesis by (cases ls) (auto simp: blank_line_def)
qed

lemma sample_httparse_incremental: "httparse_incremental sample_httparse"
proof -
  have heads: "\<not> starts_with d sample_request \<and> \<not> starts_with d sample_response" if "only_empty_lines d" for d
    using only_empty_lines_first [OF that]
    by (cases d) (auto simp: starts_with_iff sample_request_def sample_response_def)
  have blank: "\<not> no_blank d" if "starts_with d CRLF" for d
    using that by (auto simp: starts_with_iff no_blank_def blank_def cur_line_def intro!: exI [of _ 1])
  show ?thesis
    unfolding httparse_incremental_def sample_httparse_def
    using heads blank starts_with_append by simp auto
qed

end
