(* ===== verification/H11r_Arrival.thy ===== *)
theory H11r_Arrival
  imports H11r_Resume
begin

text \<open>
  Connections that wait for more input: what a turn keeps of them, and that polling early and
  polling late come to the same. The events, the body, the states and the bytes left over, or
  the status of the failure, do not depend on how the input arrived in pieces.
\<close>

section \<open>What an early turn keeps\<close>



lemma settle_closed: "client (settle s) = Closed \<longleftrightarrow> client s = Closed" "server (settle s) = Closed \<longleftrightarrow> server s = Closed"
  by (cases s; simp add: settle_def Let_def)+

lemma process_event_open:
  assumes "process_event s r e = Inr t" and "e \<noteq> ConnectionClosed" and "role_state s r \<noteq> Closed"
  shows "role_state t r \<noteq> Closed"
  using assms
  by (cases e; cases r) (auto simp: process_event_eqs accept_if_def settle_closed set_role_state_def split: if_splits)

definition peer_open :: "Connection \<Rightarrow> bool" where
  "peer_open c \<longleftrightarrow> peer_state c \<noteq> Closed"

lemma peer_open_simps [simp]:
  "peer_open (conn_disable_keep_alive c) = peer_open c" "peer_open (set_reader c rd) = peer_open c"
  "peer_open (consume_input c n) = peer_open c" "peer_open (set_progress c p) = peer_open c"
  "peer_open (add_extension c n) = peer_open c" "peer_open (c\<lparr>peer_version := v\<rparr>) = peer_open c"
  "peer_open (c\<lparr>cycle := y\<rparr>) = peer_open c" "peer_open (swap b p c) = peer_open c"
  "peer_open (record_informational c s) = peer_open c" "peer_open (record_response c) = peer_open c"
  "peer_open (record_request c m ver f w us) = peer_open c"
proof -
  have dis: "role_state (disable_keep_alive s) r = Closed \<longleftrightarrow> role_state s r = Closed" for s r
    by (cases r) (simp_all add: disable_keep_alive_settle settle_closed)
  then show "peer_open (conn_disable_keep_alive c) = peer_open c" by (simp add: peer_open_def conn_disable_keep_alive_def peer_state_def)
  show "peer_open (record_request c m ver f w us) = peer_open c"
    using dis by (simp add: peer_open_def record_request_def conn_disable_keep_alive_def peer_state_def Let_def)
qed (simp_all add: peer_open_def peer_state_def set_reader_def consume_input_def set_progress_def add_extension_def swap_def
    record_informational_def record_response_def)

lemma advance_open: "advance_peer c e = (c1, r) \<Longrightarrow> e \<noteq> ConnectionClosed \<Longrightarrow> peer_open c \<Longrightarrow> peer_open c1"
  using process_event_open by (auto simp: advance_peer_def peer_open_def peer_state_def split: sum.splits)

lemma accept_events:
  "request_event m us \<noteq> ConnectionClosed" "final_response_event c s \<noteq> ConnectionClosed"
  "informational_event c s ver h \<noteq> Some ConnectionClosed"
  by (auto simp: request_event_def final_response_event_def informational_event_def split: if_splits option.splits)

lemma peer_open_ops:
  assumes "peer_open c"
  shows "peer_open (fst (accept_request c r))" "peer_open (fst (accept_response c s))" "peer_open (fst (finish_peer c h))"
    "peer_open (fst (peer_data c n b f))"
proof -
  show "peer_open (fst (accept_request c r))"
    using assms advance_open [OF _ accept_events(1)]
    by (auto simp: accept_request_def Let_def split: prod.split sum.split)
  show "peer_open (fst (finish_peer c h))" "peer_open (fst (peer_data c n b f))"
    using assms advance_open by (auto simp: finish_peer_def peer_data_def split: prod.split sum.split)
  have "peer_open (fst (accept_informational c s w))" for w
    using assms advance_open accept_events(3)
    by (auto simp: accept_informational_def Let_def split: prod.split sum.split option.split) metis+
  moreover have "peer_open (fst (accept_final c s f' z))" for f' z
    using assms advance_open [OF _ accept_events(2)]
    by (cases z) (auto simp: accept_final_def Let_def split: prod.split sum.split)
  ultimately show "peer_open (fst (accept_response c s))" using assms by (simp add: accept_response_def Let_def)
qed


lemma peer_open_wait [simp]:
  "peer_open (fst (need_data_or_eof d m)) = peer_open d" "peer_open (fst (wait_for_section d skip)) = peer_open d"
  by (auto simp: need_data_or_eof_def wait_for_section_def Let_def)

lemma peer_open_section [simp]: "section_due d skip = (d', b) \<Longrightarrow> peer_open d' = peer_open d"
  by (auto simp: section_due_def split: if_splits prod.splits)

lemma peer_open_body:
  assumes "peer_open c"
  shows "peer_open (fst (read_body hp c))"
proof -
  have "peer_open (fst (read_head hp c))" "peer_open (fst (read_trailers hp c))" "peer_open (fst (read_payload c m))" for m
    using assms
    by (auto simp: read_head_def read_trailers_def read_payload_def advance_payload_def Let_def peer_open_ops
        split: prod.split sum.split option.split Reader.split Chunk.split)
  moreover have "peer_open (fst (read_chunk_size c k))" for k
    using assms by (cases "find_crlf (input_bytes c) k")
      (auto simp: read_chunk_size_def need_data_or_eof_def add_extension_def [symmetric] Let_def split: option.split)
  moreover have "peer_open (fst (read_data_end c))" using assms by (auto simp: read_data_end_def need_data_or_eof_def)
  ultimately show ?thesis
    using assms by (auto simp: read_body_def read_chunked_def Let_def peer_open_ops split: Reader.split Chunk.split)
qed

lemma turn_open: "peer_open c \<Longrightarrow> \<not> eof c \<Longrightarrow> peer_open (fst (turn hp c))"
  using peer_open_body [of c hp]
  by (auto simp: turn_def poll_peer_state_def peer_open_def split: State.split)

text \<open>Scans go on from where the input ended, or start anew.\<close>

definition scans_on :: "Connection \<Rightarrow> bool" where
  "scans_on c \<longleftrightarrow> (\<forall>k. cyc_reader (cycle c) = ReadChunked (Size k) \<longrightarrow> k \<le> length (input_bytes c) - 1)"

lemma scans_on_head: "cyc_reader (cycle c) = ReadHead \<Longrightarrow> scans_on c"
  by (simp add: scans_on_def)

lemma scans_on_reader: "scans_on (set_reader c (reader f))"
  by (cases f) (simp_all add: scans_on_def reader_def)

lemma advance_peer_reader: "advance_peer c e = (c1, r) \<Longrightarrow> cyc_reader (cycle c1) = cyc_reader (cycle c)"
  by (auto simp: advance_peer_def split: sum.splits)

lemma scans_on_ops:
  assumes "cyc_reader (cycle c) = ReadHead"
  shows "scans_on (fst (accept_request c r))" "scans_on (fst (accept_response c s))"
proof -
  show "scans_on (fst (accept_request c r))"
    using assms scans_on_reader scans_on_head
    by (auto simp: accept_request_def Let_def dest: advance_peer_reader split: prod.split sum.split)
  have "scans_on (fst (accept_informational c s w))" for w
    using assms scans_on_head
    by (auto simp: accept_informational_def record_informational_def conn_disable_keep_alive_def Let_def dest: advance_peer_reader
        intro!: scans_on_head split: prod.split sum.split option.split)
  moreover have "scans_on (fst (accept_final c s f z))" for f z
    using assms scans_on_reader
    by (cases z) (auto simp: accept_final_def conn_disable_keep_alive_def record_response_def Let_def dest: advance_peer_reader intro!: scans_on_head split: prod.split sum.split)
  ultimately show "scans_on (fst (accept_response c s))" using assms scans_on_head by (simp add: accept_response_def Let_def)
qed


lemma turn_ok: "httparse_ok hp \<Longrightarrow> conn_inv c \<Longrightarrow> step_ok (turn hp c)"
  using read_body_ok [of hp c] poll_peer_state_ok [of c] by (auto simp: turn_def split: option.split)

lemma scans_on_not: "cyc_reader (cycle c) \<notin> range (\<lambda>k. ReadChunked (Size k)) \<Longrightarrow> scans_on c"
  by (auto simp: scans_on_def)

lemma scans_on_finish: "scans_on c \<Longrightarrow> conn_input c' = conn_input c \<Longrightarrow> cyc_reader (cycle c') = cyc_reader (cycle c) \<Longrightarrow>
    scans_on (fst (finish_peer c' h))"
  by (auto simp: finish_peer_def scans_on_def advance_peer_def split: prod.splits sum.splits)

lemma scans_on_trailers:
  assumes "cyc_reader (cycle c) = ReadChunked Trailers"
  shows "scans_on (fst (read_trailers hp c))"
proof -
  have "cyc_reader (cycle c') = ReadChunked Trailers" if "section_due c skip = (c', b)" for c' skip b
    using that assms by (auto simp: section_due_def set_progress_def split: if_splits prod.splits)
  moreover have "scans_on (fst (finish_peer c' h))" if "cyc_reader (cycle c') = ReadChunked Trailers" for c' h
    using that by (intro scans_on_finish [of c']) (simp_all add: scans_on_def)
  moreover have "scans_on c'" if "cyc_reader (cycle c') = ReadChunked Trailers" for c' using that by (simp add: scans_on_def)
  ultimately show ?thesis
    by (auto simp: read_trailers_def wait_for_section_def need_data_or_eof_def consume_input_def set_progress_def
        Let_def split: prod.split sum.split option.split)
qed

lemma scans_on_size: "scans_on c \<Longrightarrow> scans_on (fst (read_chunk_size c k))"
proof (cases "find_crlf (input_bytes c) k")
  case (Some f)
  assume "scans_on c"
  with Some show ?thesis
    by (auto simp: read_chunk_size_def need_data_or_eof_def set_progress_def Let_def split: option.split)
       (auto simp: scans_on_def)
qed (simp add: read_chunk_size_def)

lemma scans_on_body:
  assumes "scans_on c"
  shows "scans_on (fst (read_body hp c))"
proof (cases "cyc_reader (cycle c)")
  case ReadHead
  have head: "cyc_reader (cycle c') = ReadHead" if "section_due c skip = (c', b)" for c' skip b
    using that ReadHead by (auto simp: section_due_def set_progress_def split: if_splits prod.splits)
  have "scans_on (fst (read_head hp c))"
    using head by (auto simp: read_head_def wait_for_section_def need_data_or_eof_def consume_input_def set_progress_def
        conn_disable_keep_alive_def Let_def scans_on_ops scans_on_head split: prod.split sum.split option.split)
  with ReadHead show ?thesis by (simp add: read_body_def)
next
  case (ReadFixed n)
  with scans_on_not [OF read_payload_reader [of c]] scans_on_finish [OF assms refl refl] show ?thesis
    by (auto simp: read_body_def Let_def)
next
  case ReadCloseDelimited
  with peer_data_reader [of c] scans_on_finish [OF assms refl refl] assms show ?thesis
    by (auto simp: read_body_def Let_def intro!: scans_on_not)
next
  case (ReadChunked chunk)
  have "scans_on (fst (read_data_end c))"
    using assms by (auto simp: read_data_end_def need_data_or_eof_def scans_on_def)
  moreover have "scans_on (fst (read_payload c m))" if "chunk = ChunkData n b" for n b m
    using ReadChunked that by (intro scans_on_not read_payload_reader) auto
  ultimately show ?thesis using ReadChunked assms scans_on_size scans_on_trailers
    by (cases chunk) (auto simp: read_body_def read_chunked_def)
qed

text \<open>The end of the connection is reported where the end of the input is known.\<close>

definition not_closed :: "polled_result option \<Rightarrow> bool" where
  "not_closed r \<longleftrightarrow> r \<noteq> Some (Inr (PolledEvent EventConnectionClosed))"

lemma not_closed_ops:
  "not_closed (Some (snd (accept_request c r)))" "not_closed (Some (snd (accept_response c s)))"
  "not_closed (Some (snd (finish_peer c h)))" "not_closed (Some (snd (peer_data c n b f)))"
  "not_closed (Some (snd (need_data_or_eof c m)))" "not_closed (Some (snd (wait_for_section c skip)))"
proof -
  show "not_closed (Some (snd (accept_request c r)))"
    by (auto simp: accept_request_def not_closed_def Let_def split: prod.split sum.split)
  have "not_closed (Some (snd (accept_informational c s b)))" for b
    by (auto simp: accept_informational_def not_closed_def Let_def split: prod.split sum.split option.split)
  moreover have "not_closed (Some (snd (accept_final c s f z)))" for f z
    by (cases z) (auto simp: accept_final_def not_closed_def Let_def split: prod.split sum.split)
  ultimately show "not_closed (Some (snd (accept_response c s)))"
    by (simp add: accept_response_def Let_def) (simp add: not_closed_def)
qed (auto simp: finish_peer_def peer_data_def need_data_or_eof_def wait_for_section_def not_closed_def Let_def
    split: prod.split sum.split)

lemma snd_with_some [simp]: "snd (case x of (c, r) \<Rightarrow> (c, Some r)) = Some (snd x)"
  by (simp split: prod.split)

lemma not_closed_body: "not_closed (snd (read_body hp c))"
proof -
  have "not_closed (Some (snd (read_head hp c)))" "not_closed (Some (snd (read_trailers hp c)))" "not_closed (Some (snd (read_payload c m)))" for m
    using not_closed_ops
    by (auto simp: read_head_def read_trailers_def read_payload_def advance_payload_def Let_def
        split: prod.split sum.split option.split Reader.split Chunk.split) (simp_all add: not_closed_def)
  moreover have "not_closed (snd (read_chunk_size c k))" for k
    by (cases "find_crlf (input_bytes c) k")
      (auto simp: read_chunk_size_def need_data_or_eof_def not_closed_def Let_def split: option.split)
  moreover have "not_closed (snd (read_data_end c))" by (auto simp: read_data_end_def need_data_or_eof_def not_closed_def)
  ultimately show ?thesis
    using not_closed_ops
    by (auto simp: read_body_def read_chunked_def Let_def split: Reader.split Chunk.split) (simp add: not_closed_def)
qed

lemma early_turn:
  assumes "httparse_ok hp" and "early c" and "turn hp c = (c1, r)"
  shows "r = None \<or> (\<exists>e. r = Some (Inr (PolledEvent e))) \<or> r = Some (Inr PolledNeedData) \<or> r = Some (Inr PolledPaused) \<Longrightarrow> early c1"
    and "r = Some (Inr (PolledData n b f)) \<Longrightarrow> early (consume_input c1 n)"
    and "r \<noteq> Some (Inl Panic)" and "r \<noteq> Some (Inr (PolledEvent EventConnectionClosed))"
proof -
  have c: "conn_inv c" "\<not> eof c" "peer_open c" "scans_on c" "roomy c"
    using assms(2) by (auto simp: early_def peer_open_def scans_on_def)
  have ok: "step_ok (c1, r)" using turn_ok [OF assms(1) c(1)] assms(3) by simp
  have kept: "\<not> eof c1" "peer_open c1" "roomy c1"
    using turn_kept [of c hp] turn_open [OF c(3,2), of hp] assms(3) c(2,5) by (auto simp: kept_def roomy_def)
  have scans: "scans_on c1"
    using scans_on_body [OF c(4), of hp] c assms(3)
    by (auto simp: turn_def poll_peer_state_def split: option.splits State.splits if_splits)
  show "early c1" if "r = None \<or> (\<exists>e. r = Some (Inr (PolledEvent e))) \<or> r = Some (Inr PolledNeedData) \<or> r = Some (Inr PolledPaused)"
    using that ok kept scans by (auto simp: early_def peer_open_def scans_on_def)
  show "r \<noteq> Some (Inl Panic)" using ok kept(3) by auto
  show "early (consume_input c1 n)" if "r = Some (Inr (PolledData n b f))"
    using that ok kept turn_data_reader [of hp c c1 n b f] assms(3) conn_inv_take [of c1 n]
    by (auto simp: early_def peer_open_def consume_input_def peer_state_def roomy_def)
  show "r \<noteq> Some (Inr (PolledEvent EventConnectionClosed))"
    using not_closed_body [of hp c] c assms(3)
    by (auto simp: turn_def poll_peer_state_def not_closed_def peer_open_def split: option.splits State.splits if_splits)
qed

section \<open>Early turns and late ones\<close>

theorem turn_foretells:
  assumes "httparse_ok hp" and "httparse_incremental hp" and "early c" and "ahead x c d"
  shows "foretells hp x (turn hp c) d"
proof (cases "poll_peer_state c")
  case (Some u)
  show ?thesis
  proof (cases "peer_state c = Error")
    case True
    then have "peer_state d = Error" using ahead_peer [OF assms(4) earlyD(1) [OF assms(3)]] by simp
    then have "turn hp d = (d, Some (Inl (Remote (remote ''peer state is ERROR'' None))))"
      by (simp add: turn_def poll_peer_state_def)
    with True show ?thesis
      using ahead_simps(3) [OF assms(4)]
      by (auto simp: turn_def poll_peer_state_def intro!: foretells_failed simp del: foretells_simps)
  next
    case False
    then have "turn hp c = (c, Some (Inr PolledNeedData)) \<or> turn hp c = (c, Some (Inr PolledPaused))"
      using Some earlyD(3,4) [OF assms(3)] by (auto simp: turn_def poll_peer_state_def split: State.splits if_splits)
    with ahead_akin [OF _ assms(4)] show ?thesis by auto
  qed
next
  case None
  then have turn: "turn hp c = read_body hp c" by (simp add: turn_def)
  have SendBody: "peer_state c = SendBody" if "cyc_reader (cycle c) \<noteq> ReadHead"
    using turn_body(1) [OF assms(4,3) None that] .
  have payload: "foretells hp x (turn hp c) d" if "in_payload (cyc_reader (cycle c))"
  proof (cases "input_bytes c = []")
    case True
    with that turn earlyD(3) [OF assms(3)] have "turn hp c = (c, Some (Inr PolledNeedData))"
      by (cases "cyc_reader (cycle c)" rule: in_payload.cases)
         (auto simp: read_body_def read_chunked_def read_payload_def need_data_or_eof_def Let_def)
    with ahead_akin [OF _ assms(4)] show ?thesis by simp
  next
    case False
    moreover have "cyc_reader (cycle c) \<noteq> ReadHead" using that by auto
    ultimately show ?thesis using payload_foretells [OF assms(4,3) SendBody that] by blast
  qed
  show ?thesis
  proof (cases "cyc_reader (cycle c)")
    case ReadHead
    with read_head_foretells [OF assms(4,3) None assms(1,2)] turn show ?thesis by (simp add: read_body_def)
  next
    case (ReadFixed n)
    show ?thesis
    proof (cases "n = 0")
      case True
      obtain b q where d: "d = record_eof (swap b q c)" "as_slice b = input_bytes c @ x"
        using assms(4) by (auto simp: ahead_def)
      have "along x (finish_peer c headers_new) (finish_peer d headers_new)"
        using accept_along(3) [OF earlyD(1) [OF assms(3)], of b "conn_input c" x "progress (cycle c)" headers_new q] d by simp
      moreover have "turn hp d = (case finish_peer d headers_new of (d1, r) \<Rightarrow> (d1, Some r))"
        using turn_body(2) [OF assms(4,3) None, of hp] ReadFixed True ahead_simps(6) [OF assms(4)] by (simp add: read_body_def)
      ultimately have "foretells hp x (case finish_peer c headers_new of (c1, r) \<Rightarrow> (c1, Some r)) d"
        using accept_decided(3) by (intro foretells_accept)
      with turn ReadFixed True show ?thesis by (simp add: read_body_def)
    qed (use payload ReadFixed in simp)
  next
    case (ReadChunked chunk)
    show ?thesis
    proof (cases chunk)
      case (ChunkData n b)
      moreover have "0 < n" using earlyD(2) [OF assms(3)] ReadChunked ChunkData
        by (simp add: conn_inv_def conn_base_def reader_wf_def)
      ultimately show ?thesis using payload ReadChunked by simp
    qed (use ReadChunked turn read_chunk_size_foretells [OF assms(4,3) None] read_data_end_foretells [OF assms(4,3) None]
        read_trailers_foretells [OF assms(4,3) None assms(1,2)] in \<open>simp_all add: read_body_def read_chunked_def\<close>)
  qed (use payload in simp)
qed

lemma polled_result_cases [case_names again event data waits pauses fails panics]:
  fixes r :: "polled_result option"
  obtains "r = None" | e where "r = Some (Inr (PolledEvent e))" | n b f where "r = Some (Inr (PolledData n b f))"
    | "r = Some (Inr PolledNeedData)" | "r = Some (Inr PolledPaused)" | e where "r = Some (Inl (Remote e))"
    | "r = Some (Inl Panic)"
  by (metis option.exhaust sum.exhaust Polled.exhaust recv_error.exhaust)

text \<open>What a poll adds to what comes after it.\<close>

fun adding :: "recv_error + NextEvent \<Rightarrow> settlement \<Rightarrow> settlement" where
  "adding (Inr (NextEvent (EventData bs b f))) s = add_body bs s"
| "adding (Inr (NextEvent e)) s = add_event e s"
| "adding (Inr NeedData) s = s"
| "adding (Inr Paused) s = s"
| "adding (Inl (Remote e)) s = Failed (suggested_status_code e)"
| "adding (Inl Panic) s = s"

lemma adding_event: "\<forall>bs b f. e \<noteq> EventData bs b f \<Longrightarrow> adding (Inr (NextEvent e)) s = add_event e s"
  by (cases e) auto

lemma ahead_exists: "\<exists>d. ahead x c d"
proof -
  have "as_slice (buffer_extend buffer_default (input_bytes c @ x)) = input_bytes c @ x" by simp
  from aheadI [OF this] show ?thesis by blast
qed

lemma turn_shrinks: "turn hp c = (c1, None) \<Longrightarrow> length (input_bytes c1) < length (input_bytes c)"
  by (auto simp: turn_def dest: read_body_shrinks split: option.splits)

text \<open>An event of a turn is not body data, which comes in its own form.\<close>

lemma turn_event: "turn hp c = (c1, Some (Inr (PolledEvent e))) \<Longrightarrow> httparse_ok hp \<Longrightarrow> e \<noteq> EventData bs b f"
  using next_event_inner_progress [of hp c] next_event_inner_turn [of hp c] by (auto simp: poll_progress_def)

lemma early_poll:
  assumes "httparse_ok hp" and "httparse_incremental hp"
  shows "early c \<Longrightarrow> next_event hp c = (c1, res) \<Longrightarrow>
    res \<noteq> Inl Panic \<and> res \<noteq> Inr (NextEvent EventConnectionClosed) \<and> ((\<exists>r. res = Inr r) \<longrightarrow> early c1)
    \<and> (\<forall>x d s. ahead x c d \<longrightarrow> ((\<exists>r. res = Inr r) \<longrightarrow> (\<exists>d1. ahead x c1 d1 \<and> settles hp d1 s)) \<longrightarrow> settles hp d (adding res s))"
proof (induction "length (input_bytes c)" arbitrary: c rule: less_induct)
  case less
  obtain c' r where t: "turn hp c = (c', r)" by fastforce
  note et = early_turn [OF assms(1) less.prems(1) t]
  note ft = turn_foretells [OF assms less.prems(1), unfolded t]
  show ?case
  proof (cases r rule: polled_result_cases)
    case again
    with t have t: "turn hp c = (c', None)" by simp
    with et(1) again less.prems have c': "early c'" "next_event hp c' = (c1, res)" by (simp_all add: next_event_turn(1))
    note IH = less.hyps [OF turn_shrinks [OF t] c']
    have "settles hp d s" if "ahead x c d" "\<And>d'. ahead x c' d' \<Longrightarrow> settles hp d' s" for x d s
      using ft [OF that(1)] again that(2) settles_again by auto
    then have "settles hp d (adding res s)" if "ahead x c d" "(\<exists>r. res = Inr r) \<longrightarrow> (\<exists>d1. ahead x c1 d1 \<and> settles hp d1 s)" for x d s
      using IH that by (meson ahead_exists)
    with IH show ?thesis by simp
  next
    case (event e)
    then have ne: "e \<noteq> EventConnectionClosed" "\<forall>bs b f. e \<noteq> EventData bs b f" using et(4) turn_event assms(1) t by auto
    from event t less.prems(2) have "c1 = c'" "res = Inr (NextEvent e)" by (simp_all add: next_event_turn(2))
    moreover have "settles hp d (add_event e s)" if "ahead x c d" "ahead x c' d1" "settles hp d1 s" for x d d1 s
    proof -
      from ft [OF that(1)] event obtain d2 where "turn hp d = (d2, Some (Inr (PolledEvent e)))" "ahead x c' d2" by auto
      with that ahead_akin akin_settles ahead_simps(2) settles.event ne(1) show ?thesis by blast
    qed
    ultimately show ?thesis using et(1) event ne by (auto simp: adding_event)
  next
    case (data n b f)
    with t less.prems(2) have "c1 = consume_input c' n" "res = Inr (NextEvent (EventData (take n (input_bytes c')) b f))"
      by (simp_all add: next_event_turn(3))
    with et(2) data ft show ?thesis by auto
  next
    case waits
    with t less.prems(2) have "c1 = c'" "res = Inr NeedData" by (simp_all add: next_event_turn(4))
    with et(1) waits ft akin_settles ahead_simps(2) show ?thesis by fastforce
  next
    case pauses
    with t less.prems(2) have "c1 = c'" "res = Inr Paused" by (simp_all add: next_event_turn(5))
    with et(1) pauses ft akin_settles ahead_simps(2) show ?thesis by fastforce
  next
    case (fails e)
    with t less.prems(2) have "res = Inl (Remote (if role c' = Client then e\<lparr>suggested_status_code := None\<rparr> else e))"
      by (simp add: next_event_turn(7))
    with fails ft show ?thesis by (auto split: if_splits)
  qed (use et(3) in simp)
qed

text \<open>The same for a poll of any connection and what comes after it.\<close>

lemma poll_settles:
  assumes "httparse_ok hp" and "conn_inv c" and "next_event hp c = (c1, res)"
  shows "(\<exists>e. res = Inr (NextEvent e) \<and> e \<noteq> EventConnectionClosed) \<Longrightarrow> settles hp c1 s \<Longrightarrow> settles hp c (adding res s)"
    and "res = Inr (NextEvent EventConnectionClosed) \<Longrightarrow> settles hp c (as_it_stands [EventConnectionClosed] c1)"
    and "res = Inr NeedData \<or> res = Inr Paused \<Longrightarrow> settles hp c (as_it_stands [] c1)"
    and "(\<exists>e. res = Inl (Remote e)) \<Longrightarrow> settles hp c (adding res s)"
proof -
  have "((\<exists>e. res = Inr (NextEvent e) \<and> e \<noteq> EventConnectionClosed) \<longrightarrow> settles hp c1 s \<longrightarrow> settles hp c (adding res s))
      \<and> (res = Inr (NextEvent EventConnectionClosed) \<longrightarrow> settles hp c (as_it_stands [EventConnectionClosed] c1))
      \<and> (res = Inr NeedData \<or> res = Inr Paused \<longrightarrow> settles hp c (as_it_stands [] c1))
      \<and> ((\<exists>e. res = Inl (Remote e)) \<longrightarrow> settles hp c (adding res s))"
    using assms(2,3)
  proof (induction "length (input_bytes c)" arbitrary: c rule: less_induct)
    case less
    obtain c' r where t: "turn hp c = (c', r)" by fastforce
    have ok: "step_ok (c', r)" using turn_ok [OF assms(1) less.prems(1)] t by simp
    show ?case
    proof (cases r rule: polled_result_cases)
      case again
      with t have t: "turn hp c = (c', None)" by simp
      with ok again less.prems have c': "conn_inv c'" "next_event hp c' = (c1, res)" by (simp_all add: next_event_turn(1))
      from less.hyps [OF turn_shrinks [OF t] c'] show ?thesis by (simp add: settles_again [OF t])
    next
      case (event e)
      with turn_event assms(1) t have ne: "\<forall>bs b f. e \<noteq> EventData bs b f" by auto
      with event t less.prems(2) settles.event [of hp c c' e s] settles.closed [of hp c c'] show ?thesis
        by (auto simp: next_event_turn(2) adding_event)
    next
      case (data n b f)
      with t less.prems(2) settles.data [of hp c c' n b f s] show ?thesis by (auto simp: next_event_turn(3))
    next
      case (fails e)
      with t less.prems(2) settles.fails [of hp c c' e] show ?thesis by (auto simp: next_event_turn(7))
    next
      case waits
      with t less.prems(2) settles.waits [of hp c c'] show ?thesis by (auto simp: next_event_turn(4))
    next
      case pauses
      with t less.prems(2) settles.pauses [of hp c c'] show ?thesis by (auto simp: next_event_turn(5))
    next
      case panics
      with t less.prems(2) show ?thesis by (auto simp: next_event_turn(6))
    qed
  qed
  then show "(\<exists>e. res = Inr (NextEvent e) \<and> e \<noteq> EventConnectionClosed) \<Longrightarrow> settles hp c1 s \<Longrightarrow> settles hp c (adding res s)"
    and "res = Inr (NextEvent EventConnectionClosed) \<Longrightarrow> settles hp c (as_it_stands [EventConnectionClosed] c1)"
    and "res = Inr NeedData \<or> res = Inr Paused \<Longrightarrow> settles hp c (as_it_stands [] c1)"
    and "(\<exists>e. res = Inl (Remote e)) \<Longrightarrow> settles hp c (adding res s)"
    by blast+
qed

end
