(* ===== verification/H11r_Syntax.thy ===== *)
theory H11r_Syntax
  imports H11r_Resume
begin

text \<open>
  The grammar \<open>httparse\<close> documents for the heads it reads (RFC 9112), as a contract: a head
  written by the grammar is read back as its parts (\<open>httparse_reads_heads\<close>). The contract
  speaks of text, not of what this program writes. A small parser of that grammar, which takes
  the lines up to the first empty one and splits them, shows that the contract can hold, next
  to the other ones.
\<close>

section \<open>The grammar of heads\<close>

text \<open>The characters of a URI (RFC 3986, section 2), without the \<open>#\<close> of fragments.\<close>

definition uri_char :: "byte \<Rightarrow> bool" where
  "uri_char b \<longleftrightarrow>
     is_unreserved b \<or> is_sub_delim b
     \<or> b \<in> {CHR '':'', CHR ''/'', CHR ''?'', CHR ''['', CHR '']'', CHR ''@'', CHR ''%''}"

text \<open>A field: a token, and a value of visible characters and inner whitespace.\<close>

definition field_text :: "bytes \<times> bytes \<Rightarrow> bool" where
  "field_text f \<longleftrightarrow>
     fst f \<noteq> [] \<and> list_all is_tchar (fst f) \<and> list_all is_line_value_byte (snd f)
     \<and> (snd f \<noteq> [] \<longrightarrow> \<not> is_ows (hd (snd f)) \<and> \<not> is_ows (last (snd f)))"

definition head_text :: "bytes \<Rightarrow> (bytes \<times> bytes) list \<Rightarrow> bytes" where
  "head_text start fs = start @ CRLF @ concat (map (\<lambda>(n, v). n @ '': '' @ v @ CRLF) fs) @ CRLF"

definition digit :: "nat \<Rightarrow> byte" where
  "digit d = char_of (48 + d)"

definition request_text :: "bytes \<Rightarrow> bytes \<Rightarrow> nat \<Rightarrow> (bytes \<times> bytes) list \<Rightarrow> bytes" where
  "request_text method target minor fs =
     head_text (method @ '' '' @ target @ '' HTTP/1.'' @ [digit minor]) fs"

definition response_text :: "nat \<Rightarrow> nat \<times> nat \<times> nat \<Rightarrow> bytes \<Rightarrow> (bytes \<times> bytes) list \<Rightarrow> bytes" where
  "response_text minor code reason fs =
     (case code of (a, b, c) \<Rightarrow>
        head_text (''HTTP/1.'' @ [digit minor] @ '' '' @ [digit a, digit b, digit c] @ '' '' @ reason) fs)"

text \<open>
  What \<open>Request::parse\<close> and, in the strict configuration, \<open>Response::parse\<close> return for such a
  head when there are slots for its fields.
\<close>

definition httparse_reads_heads :: "httparse \<Rightarrow> bool" where
  "httparse_reads_heads hp \<longleftrightarrow>
     (\<forall>method target minor fs n.
        method \<noteq> [] \<longrightarrow> list_all is_tchar method \<longrightarrow> target \<noteq> [] \<longrightarrow> list_all uri_char target \<longrightarrow>
        minor \<le> 1 \<longrightarrow> list_all field_text fs \<longrightarrow> length fs \<le> n \<longrightarrow>
        (\<exists>q. hp_parse_request hp (request_text method target minor fs) n
               = Inr (Some (length (request_text method target minor fs), q))
           \<and> hpq_method q = Some method \<and> hpq_path q = Some target \<and> hpq_version q = Some minor
           \<and> parsed_fields (request_text method target minor fs) (hpq_headers q) = fs))
     \<and> (\<forall>minor a b c reason fs n.
        minor \<le> 1 \<longrightarrow> a \<le> 9 \<longrightarrow> b \<le> 9 \<longrightarrow> c \<le> 9 \<longrightarrow> list_all is_line_value_byte reason \<longrightarrow>
        list_all field_text fs \<longrightarrow> length fs \<le> n \<longrightarrow>
        (\<exists>q. hp_parse_response hp (response_config False) (response_text minor (a, b, c) reason fs) n
               = Inr (Some (length (response_text minor (a, b, c) reason fs), q))
           \<and> hpr_version q = Some minor \<and> hpr_code q = Some (of_nat (100 * a + 10 * b + c))
           \<and> parsed_fields (response_text minor (a, b, c) reason fs) (hpr_headers q) = fs))"

section \<open>A parser of the grammar\<close>

text \<open>The lines of a head, with their CR, up to the first empty one.\<close>

fun to_blank :: "bytes list \<Rightarrow> bytes list option" where
  "to_blank (l # m # ls) = (if l = [CR] then Some [] else map_option (Cons l) (to_blank (m # ls)))"
| "to_blank _ = None"

definition complete_head :: "bytes \<Rightarrow> bytes list option" where
  "complete_head d =
     (if d = [] \<or> hd d \<in> {CR, LF} then None else to_blank (split_slice (\<lambda>b. b = LF) d))"

definition raw_text :: "bytes list \<Rightarrow> bytes" where
  "raw_text ls = concat (map (\<lambda>l. l @ [LF]) ls)"

definition plain_field :: "nat \<Rightarrow> bytes \<Rightarrow> hp_header option" where
  "plain_field at l =
     (case split_at_byte l CHR '':'' of
        None \<Rightarrow> None
      | Some (n, v) \<Rightarrow>
          if n \<noteq> [] \<and> list_all is_tchar n \<and> starts_with v '' '' \<and> 2 \<le> length v \<and> last v = CR
          then Some \<lparr>hp_name = \<lparr>part_at = at, part_len = length n\<rparr>,
                     hp_value = \<lparr>part_at = at + length n + 2, part_len = length v - 2\<rparr>\<rparr>
          else None)"

fun plain_fields :: "nat \<Rightarrow> bytes list \<Rightarrow> hp_header list option" where
  "plain_fields at [] = Some []"
| "plain_fields at (l # ls) =
     (case (plain_field at l, plain_fields (at + length l + 1) ls) of
        (Some h, Some hs) \<Rightarrow> Some (h # hs)
      | _ \<Rightarrow> None)"

definition plain_version :: "bytes \<Rightarrow> nat option" where
  "plain_version v = (if v = ''HTTP/1.0'' then Some 0 else if v = ''HTTP/1.1'' then Some 1 else None)"

definition plain_request_line :: "bytes \<Rightarrow> (bytes \<times> bytes \<times> nat) option" where
  "plain_request_line l =
     (case split_at_byte l SP of
        None \<Rightarrow> None
      | Some (m, r) \<Rightarrow>
          (case split_at_byte r SP of
             None \<Rightarrow> None
           | Some (t, v) \<Rightarrow>
               (case plain_version (butlast v) of
                  Some minor \<Rightarrow> if m \<noteq> [] \<and> list_all is_tchar m \<and> last v = CR then Some (m, t, minor) else None
                | None \<Rightarrow> None)))"

fun plain_code :: "bytes \<Rightarrow> nat option" where
  "plain_code (s # a # b # c # t # r) =
     (if s = SP \<and> t = SP \<and> list_all is_ascii_digit [a, b, c] \<and> r \<noteq> [] \<and> last r = CR
      then Some (100 * (byte_val a - 48) + 10 * (byte_val b - 48) + (byte_val c - 48)) else None)"
| "plain_code _ = None"

definition plain_status_line :: "bytes \<Rightarrow> (nat \<times> nat) option" where
  "plain_status_line l =
     (case (plain_version (take 8 l), plain_code (drop 8 l)) of
        (Some minor, Some code) \<Rightarrow> Some (minor, code)
      | _ \<Rightarrow> None)"

definition plain_head ::
  "(bytes \<Rightarrow> 'a option) \<Rightarrow> bytes \<Rightarrow> nat \<Rightarrow> hp_error + (nat \<times> 'a \<times> hp_header list) option" where
  "plain_head start d n =
     (case complete_head d of
        Some (l # ls) \<Rightarrow>
          (case (start l, plain_fields (length l + 1) ls) of
             (Some s, Some hs) \<Rightarrow>
               if length hs \<le> n then Inr (Some (length (raw_text (l # ls)) + 2, s, hs)) else Inl TooManyHeaders
           | _ \<Rightarrow> Inl (SyntaxError 0))
      | _ \<Rightarrow> Inr None)"

definition plain_httparse :: httparse where
  "plain_httparse = sample_httparse
     \<lparr>hp_parse_request := \<lambda>d n.
        map_sum id (map_option (\<lambda>(ended, (m, t, minor), hs).
          (ended, \<lparr>hpq_method = Some m, hpq_path = Some t, hpq_version = Some minor, hpq_headers = hs\<rparr>)))
          (plain_head plain_request_line d n),
      hp_parse_response := \<lambda>config d n.
        map_sum id (map_option (\<lambda>(ended, (minor, code), hs).
          (ended, \<lparr>hpr_version = Some minor, hpr_code = Some (of_nat code), hpr_headers = hs\<rparr>)))
          (plain_head plain_status_line d n)\<rparr>"

subsection \<open>Its lines\<close>

lemma raw_text_simps [simp]:
  "raw_text [] = []" "raw_text (l # ls) = l @ LF # raw_text ls" "raw_text (ls @ ms) = raw_text ls @ raw_text ms"
  by (simp_all add: raw_text_def)

lemma split_raw_text: "\<forall>l \<in> set ls. LF \<notin> set l \<Longrightarrow> split_slice (\<lambda>b. b = LF) (raw_text ls @ r) = ls @ split_slice (\<lambda>b. b = LF) r"
proof (induction ls)
  case (Cons l ls)
  then have "\<forall>b \<in> set l. \<not> (b = LF)" by auto
  from split_slice_sep [OF this, of LF "raw_text ls @ r"] Cons show ?case by simp
qed simp

lemma to_blank_iff:
  "to_blank (split_slice (\<lambda>b. b = LF) d) = Some ls \<longleftrightarrow>
     (\<exists>r. d = raw_text ls @ CRLF @ r \<and> (\<forall>l \<in> set ls. LF \<notin> set l \<and> l \<noteq> [CR]))"
proof
  assume "\<exists>r. d = raw_text ls @ CRLF @ r \<and> (\<forall>l \<in> set ls. LF \<notin> set l \<and> l \<noteq> [CR])"
  then obtain r where d: "d = raw_text (ls @ [[CR]]) @ r" and ls: "\<forall>l \<in> set ls. LF \<notin> set l \<and> l \<noteq> [CR]" by auto
  have "to_blank (ls @ [CR] # m # ms) = Some ls" for m ms
    using ls by (induction ls rule: induct_list012) simp_all
  moreover obtain m ms where "split_slice (\<lambda>b. b = LF) r = m # ms" by (meson list.exhaust split_slice_nonempty)
  ultimately show "to_blank (split_slice (\<lambda>b. b = LF) d) = Some ls"
    using ls unfolding d by (subst split_raw_text) auto
next
  show "to_blank (split_slice (\<lambda>b. b = LF) d) = Some ls \<Longrightarrow>
      \<exists>r. d = raw_text ls @ CRLF @ r \<and> (\<forall>l \<in> set ls. LF \<notin> set l \<and> l \<noteq> [CR])"
  proof (induction "length d" arbitrary: d ls rule: less_induct)
    case less
    show ?case
    proof (cases "LF \<in> set d")
      case False
      then have "split_slice (\<lambda>b. b = LF) d = [d]" by (intro split_slice_none) auto
      with less.prems show ?thesis by simp
    next
      case True
      then obtain l r where d: "d = l @ LF # r" "LF \<notin> set l" by (meson split_list_first)
      then have "\<forall>b \<in> set l. \<not> (b = LF)" by auto
      then have sp: "split_slice (\<lambda>b. b = LF) d = l # split_slice (\<lambda>b. b = LF) r" by (simp add: split_slice_sep d(1))
      obtain m ms where r: "split_slice (\<lambda>b. b = LF) r = m # ms" by (meson list.exhaust split_slice_nonempty)
      show ?thesis
      proof (cases "l = [CR]")
        case True
        with less.prems sp r d show ?thesis by auto
      next
        case False
        with less.prems sp r obtain ls' where ls: "ls = l # ls'" "to_blank (split_slice (\<lambda>b. b = LF) r) = Some ls'" by auto
        from less.hyps [OF _ ls(2)] d ls(1) False show ?thesis by auto
      qed
    qed
  qed
qed

lemma complete_head_iff:
  "complete_head d = Some ls \<longleftrightarrow>
     d \<noteq> [] \<and> hd d \<notin> {CR, LF} \<and> (\<exists>r. d = raw_text ls @ CRLF @ r \<and> (\<forall>l \<in> set ls. LF \<notin> set l \<and> l \<noteq> [CR]))"
  by (simp add: complete_head_def to_blank_iff)

lemma complete_head_append:
  assumes "complete_head d = Some ls"
  shows "complete_head (d @ x) = Some ls"
proof -
  from assms obtain r where d: "d \<noteq> []" "hd d \<notin> {CR, LF}" "d = raw_text ls @ CRLF @ r" "\<forall>l \<in> set ls. LF \<notin> set l \<and> l \<noteq> [CR]"
    unfolding complete_head_iff by blast
  moreover have "d @ x = raw_text ls @ CRLF @ r @ x" by (simp add: d(3))
  moreover have "hd (d @ x) \<notin> {CR, LF}" using d(1,2) by simp
  ultimately show ?thesis unfolding complete_head_iff by blast
qed

lemma complete_head_length: "complete_head d = Some ls \<Longrightarrow> length (raw_text ls) + 2 \<le> length d"
  by (auto simp: complete_head_iff)

lemma split_at_byte_iff: "split_at_byte v c = Some (n, w) \<longleftrightarrow> v = n @ c # w \<and> c \<notin> set n"
proof
  assume "split_at_byte v c = Some (n, w)"
  then obtain i where i: "position (\<lambda>b. b = c) v = Some i" "n = take i v" "w = drop (i + 1) v"
    by (auto simp: split_at_byte_def split: option.splits)
  then have p: "i < length v" "v ! i = c" "\<forall>j < i. v ! j \<noteq> c" by (simp_all add: position_Some)
  then have "c \<notin> set n" by (auto simp: i(2) in_set_conv_nth)
  with p i(2,3) show "v = n @ c # w \<and> c \<notin> set n" using id_take_nth_drop [OF p(1)] by simp
next
  assume v: "v = n @ c # w \<and> c \<notin> set n"
  then have "\<forall>j < length n. n ! j \<noteq> c" using nth_mem by blast
  with v have "position (\<lambda>b. b = c) v = Some (length n)" by (simp add: position_Some nth_append)
  with v show "split_at_byte v c = Some (n, w)" by (simp add: split_at_byte_def)
qed

subsection \<open>Its fields\<close>

lemma plain_field_bounds:
  assumes "plain_field at l = Some h"
  shows "at \<le> part_at (hp_name h) \<and> part_end (hp_name h) \<le> part_at (hp_value h) \<and> part_end (hp_value h) \<le> at + length l"
  using assms by (auto simp: plain_field_def part_end_def split_at_byte_iff split: option.splits if_splits)

lemma headers_ok_within: "headers_ok from e hs \<Longrightarrow> from' \<le> from \<Longrightarrow> e \<le> e' \<Longrightarrow> headers_ok from' e' hs"
  by (induction hs arbitrary: "from" from') auto

lemma plain_fields_ok: "plain_fields at ls = Some hs \<Longrightarrow> headers_ok at (at + length (raw_text ls)) hs"
proof (induction ls arbitrary: at hs)
  case (Cons l ls)
  from Cons.prems obtain h hs' where h: "plain_field at l = Some h" "plain_fields (at + length l + 1) ls = Some hs'" "hs = h # hs'"
    by (auto split: option.splits)
  from headers_ok_within [OF Cons.IH [OF h(2)], of "part_end (hp_value h)"] plain_field_bounds [OF h(1)] h(3)
  show ?case by simp
qed simp

lemma field_vchar: "is_line_value_byte b \<Longrightarrow> is_field_vchar b \<longleftrightarrow> \<not> is_ows b"
proof -
  have "b = SP" if "byte_val b = 32"
  proof -
    have "of_char b = (of_char SP :: nat)" using that by simp
    then show ?thesis using of_char_eq_iff by blast
  qed
  then show "is_line_value_byte b \<Longrightarrow> is_field_vchar b \<longleftrightarrow> \<not> is_ows b"
    by (cases "byte_val b = 32") (auto simp: byte_defs)
qed

lemma valid_field_text: "valid_fields fs \<longleftrightarrow> list_all field_text fs"
proof -
  have "valid_value v \<longleftrightarrow> list_all is_line_value_byte v \<and> (v \<noteq> [] \<longrightarrow> \<not> is_ows (hd v) \<and> \<not> is_ows (last v))" for v
    using field_vchar [of "hd v"] field_vchar [of "last v"]
    by (cases "v = []") (auto simp: valid_value_iff list_all_iff)
  then have "valid_name n \<and> valid_value v \<longleftrightarrow> field_text (n, v)" for n v
    by (auto simp: field_text_def valid_name_def list_all_iff)
  then show ?thesis by (simp add: valid_fields_def list_all_iff split_beta)
qed

lemma field_text_single_line: "field_text f \<Longrightarrow> single_line (field_line f)"
  using valid_field_text [of "[f]"] valid_fields_lines [of "[f]"] by simp

lemma plain_field_line:
  assumes "field_text f"
  shows "plain_field at (field_line f @ [CR]) = Some \<lparr>hp_name = \<lparr>part_at = at, part_len = length (fst f)\<rparr>,
      hp_value = \<lparr>part_at = at + length (fst f) + 2, part_len = length (snd f)\<rparr>\<rparr>"
proof -
  have "\<not> is_tchar CHR '':''" by (simp add: byte_defs)
  then have "CHR '':'' \<notin> set (fst f)" using assms by (auto simp: field_text_def list_all_iff)
  then have "split_at_byte (field_line f @ [CR]) CHR '':'' = Some (fst f, '' '' @ snd f @ [CR])"
    by (simp add: split_at_byte_iff field_line_def)
  then show ?thesis using assms by (simp add: plain_field_def field_text_def starts_with_iff)
qed

abbreviation field_lines :: "(bytes \<times> bytes) list \<Rightarrow> bytes list" where
  "field_lines fs \<equiv> map (\<lambda>f. field_line f @ [CR]) fs"

lemma plain_fields_text:
  "list_all field_text fs \<Longrightarrow>
   \<exists>hs. plain_fields (length pre) (field_lines fs) = Some hs \<and> length hs = length fs
      \<and> parsed_fields (pre @ raw_text (field_lines fs) @ suf) hs = fs"
proof (induction fs arbitrary: pre)
  case (Cons f fs)
  let ?pre = "pre @ field_line f @ CRLF"
  from Cons.IH [of ?pre] Cons.prems obtain hs where hs: "plain_fields (length ?pre) (field_lines fs) = Some hs"
    "length hs = length fs" "parsed_fields (?pre @ raw_text (field_lines fs) @ suf) hs = fs" by auto
  have "length ?pre = length pre + length (field_line f @ [CR]) + 1" by simp
  with hs(1) have "plain_fields (length pre + length (field_line f @ [CR]) + 1) (field_lines fs) = Some hs" by metis
  with hs(2,3) plain_field_line [of f "length pre"] Cons.prems show ?case
    by (simp add: parsed_fields_def part_bytes_def part_end_def slice_def field_line_def prod_eq_iff)
qed (simp add: parsed_fields_def)

subsection \<open>Its heads\<close>

lemma head_text_raw: "head_text start fs = raw_text ((start @ [CR]) # field_lines fs) @ CRLF"
proof -
  have "concat (map (\<lambda>(n, v). n @ '': '' @ v @ CRLF) fs) = raw_text (field_lines fs)"
    by (induction fs) (auto simp: field_line_def)
  then show ?thesis by (simp add: head_text_def)
qed

lemma plain_head_text:
  assumes "list_all field_text fs" and "single_line start" and "start \<noteq> []" and "p (start @ [CR]) = Some s" and "length fs \<le> n"
  shows "\<exists>hs. plain_head p (head_text start fs) n = Inr (Some (length (head_text start fs), s, hs))
     \<and> parsed_fields (head_text start fs) hs = fs"
proof -
  let ?ls = "(start @ [CR]) # field_lines fs"
  have "LF \<notin> set l \<and> l \<noteq> [CR]" if "l \<in> set ?ls" for l
  proof -
    from that consider "l = start @ [CR]" | f where "f \<in> set fs" "l = field_line f @ [CR]" by auto
    then show ?thesis
    proof cases
      case 1
      then show ?thesis using assms(2,3) by (simp add: single_line_def)
    next
      case 2
      then have "single_line (field_line f)" using assms(1) field_text_single_line by (simp add: list_all_iff)
      with 2 show ?thesis by (simp add: single_line_def field_line_def)
    qed
  qed
  moreover have "hd (head_text start fs) \<notin> {CR, LF}" "head_text start fs \<noteq> []"
    using assms(2,3) by (cases start; auto simp: head_text_def single_line_def)+
  ultimately have c: "complete_head (head_text start fs) = Some ?ls"
    unfolding complete_head_iff head_text_raw by auto
  obtain hs where hs: "plain_fields (length ((start @ [CR]) @ [LF])) (field_lines fs) = Some hs" "length hs = length fs"
    "parsed_fields (((start @ [CR]) @ [LF]) @ raw_text (field_lines fs) @ CRLF) hs = fs"
    using plain_fields_text [OF assms(1)] by blast
  then show ?thesis using c assms(4,5) by (simp add: plain_head_def head_text_raw)
qed

lemma plain_head_append: "plain_head p d n \<noteq> Inr None \<Longrightarrow> plain_head p (d @ x) n = plain_head p d n"
  using complete_head_append [of d _ x] by (auto simp: plain_head_def split: option.splits list.splits)

lemma plain_head_Some:
  assumes "plain_head p d n = Inr (Some (ended, s, hs))"
  obtains l ls r where "d = raw_text (l # ls) @ CRLF @ r" "ended = length (raw_text (l # ls)) + 2" "p l = Some s" "length hs \<le> n"
    "\<forall>l \<in> set (l # ls). LF \<notin> set l \<and> l \<noteq> [CR]" "headers_ok (length l + 1) ended hs"
proof -
  from assms obtain l ls where *: "complete_head d = Some (l # ls)" "p l = Some s" "plain_fields (length l + 1) ls = Some hs"
    "length hs \<le> n" "ended = length (raw_text (l # ls)) + 2"
    by (auto simp: plain_head_def split: option.splits list.splits if_splits)
  from headers_ok_within [OF plain_fields_ok [OF *(3)] order.refl, of ended] *(5) have "headers_ok (length l + 1) ended hs" by simp
  with * that show thesis by (auto simp: complete_head_iff)
qed

subsection \<open>Its start lines\<close>

lemma digit_facts: "d \<le> 9 \<Longrightarrow> byte_val (digit d) = 48 + d" "d \<le> 9 \<Longrightarrow> is_ascii_digit (digit d)"
  by (simp_all add: digit_def is_ascii_digit_def byte_in_def)

lemma digit_version: "minor \<le> 1 \<Longrightarrow> digit minor = (if minor = 0 then CHR ''0'' else CHR ''1'')"
proof -
  have "digit 0 = CHR ''0''" "digit 1 = CHR ''1''" by code_simp+
  then show "minor \<le> 1 \<Longrightarrow> digit minor = (if minor = 0 then CHR ''0'' else CHR ''1'')" by (cases minor) simp_all
qed

lemma uri_char_plain: "uri_char b \<Longrightarrow> b \<noteq> SP \<and> b \<noteq> CR \<and> b \<noteq> LF"
  by (auto simp: uri_char_def byte_defs)

lemma request_line_text:
  assumes "m \<noteq> []" and "list_all is_tchar m" and "list_all uri_char t" and "minor \<le> 1"
  shows "plain_request_line ((m @ '' '' @ t @ '' HTTP/1.'' @ [digit minor]) @ [CR]) = Some (m, t, minor)"
    and "single_line (m @ '' '' @ t @ '' HTTP/1.'' @ [digit minor])"
proof -
  have "\<not> is_tchar SP" by (simp add: byte_defs)
  then have m: "SP \<notin> set m" using assms(2) by (auto simp: list_all_iff)
  have t: "SP \<notin> set t" "single_line t" using assms(3) uri_char_plain by (auto simp: list_all_iff single_line_def)
  have "split_at_byte ((m @ '' '' @ t @ '' HTTP/1.'' @ [digit minor]) @ [CR]) SP = Some (m, t @ '' HTTP/1.'' @ [digit minor] @ [CR])"
    "split_at_byte (t @ '' HTTP/1.'' @ [digit minor] @ [CR]) SP = Some (t, ''HTTP/1.'' @ [digit minor] @ [CR])"
    using m t(1) by (simp_all add: split_at_byte_iff)
  then show "plain_request_line ((m @ '' '' @ t @ '' HTTP/1.'' @ [digit minor]) @ [CR]) = Some (m, t, minor)"
    using assms(1,2,4) by (auto simp: plain_request_line_def plain_version_def digit_version)
  show "single_line (m @ '' '' @ t @ '' HTTP/1.'' @ [digit minor])"
    using t(2) tchar_single_line [OF assms(2)] digit_version [OF assms(4)] by (simp add: single_line_def)
qed

lemma status_line_text:
  assumes "minor \<le> 1" and "a \<le> 9" and "b \<le> 9" and "c \<le> 9" and "list_all is_line_value_byte reason"
  defines "l \<equiv> ''HTTP/1.'' @ [digit minor] @ '' '' @ [digit a, digit b, digit c] @ '' '' @ reason"
  shows "plain_status_line (l @ [CR]) = Some (minor, 100 * a + 10 * b + c)" and "single_line l"
proof -
  show "plain_status_line (l @ [CR]) = Some (minor, 100 * a + 10 * b + c)"
    using digit_version [OF assms(1)] digit_facts assms(1-4) by (auto simp: l_def plain_status_line_def plain_version_def)
  have "digit d \<noteq> CR \<and> digit d \<noteq> LF" if "d \<le> 9" for d
    using digit_facts(2) [OF that] by (auto simp: is_ascii_digit_def byte_in_def)
  then show "single_line l"
    using assms(1-4) line_value_single_line [OF assms(5)] by (auto simp: l_def single_line_def dest: sym)
qed

lemma plain_code_Some:
  assumes "plain_code l = Some code"
  shows "\<exists>a b c r. l = SP # a # b # c # r @ [CR] \<and> list_all is_ascii_digit [a, b, c]"
proof -
  from assms obtain a b c r where l: "l = SP # a # b # c # SP # r" "list_all is_ascii_digit [a, b, c]" "r \<noteq> []" "last r = CR"
    by (cases l rule: plain_code.cases) (auto split: if_splits)
  then have "l = SP # a # b # c # (SP # butlast r) @ [CR]" by (metis append_butlast_last_id append_Cons)
  with l(2) show ?thesis by blast
qed

lemma plain_status_line_Some:
  assumes "plain_status_line l = Some r"
  shows "\<exists>k. l = k @ [CR] \<and> k \<noteq> [] \<and> status_line_ok k"
proof -
  from assms obtain v where "plain_version (take 8 l) = Some v" "plain_code (drop 8 l) \<noteq> None"
    by (auto simp: plain_status_line_def split: option.splits)
  then obtain a b c r where d: "drop 8 l = SP # a # b # c # r @ [CR]" "list_all is_ascii_digit [a, b, c]"
    using plain_code_Some by blast
  have "length (take 8 l) = 8" using d(1) by (cases "8 \<le> length l") auto
  moreover have "l = (take 8 l @ '' '' @ [a, b, c] @ r) @ [CR]" using d(1) append_take_drop_id [of 8 l] by simp
  moreover have "list_all (\<lambda>x. x = SP) '' ''" "length [a, b, c] = 3" by simp_all
  ultimately have "status_line_ok (take 8 l @ '' '' @ [a, b, c] @ r)" using d(2) unfolding status_line_ok_def by blast
  with \<open>l = _\<close> show ?thesis by blast
qed

section \<open>It keeps the contracts\<close>

lemma plain_request_parses:
  "hp_parse_request plain_httparse d n = Inr (Some (e, q)) \<longleftrightarrow>
     (\<exists>m t minor hs. plain_head plain_request_line d n = Inr (Some (e, (m, t, minor), hs))
        \<and> q = \<lparr>hpq_method = Some m, hpq_path = Some t, hpq_version = Some minor, hpq_headers = hs\<rparr>)"
  by (cases "plain_head plain_request_line d n") (auto simp: plain_httparse_def)

lemma plain_response_parses:
  "hp_parse_response plain_httparse config d n = Inr (Some (e, q)) \<longleftrightarrow>
     (\<exists>minor code hs. plain_head plain_status_line d n = Inr (Some (e, (minor, code), hs))
        \<and> q = \<lparr>hpr_version = Some minor, hpr_code = Some (of_nat code), hpr_headers = hs\<rparr>)"
  by (cases "plain_head plain_status_line d n") (auto simp: plain_httparse_def)

lemma plain_request_ok:
  assumes "hp_parse_request plain_httparse d n = Inr (Some r)"
  shows "request_ok d n r"
proof -
  obtain e q where r: "r = (e, q)" by fastforce
  with assms obtain m t minor hs where h: "plain_head plain_request_line d n = Inr (Some (e, (m, t, minor), hs))"
    and q: "q = \<lparr>hpq_method = Some m, hpq_path = Some t, hpq_version = Some minor, hpq_headers = hs\<rparr>"
    by (auto simp: plain_request_parses)
  from h show ?thesis
  proof (rule plain_head_Some)
    fix l ls x
    assume "d = raw_text (l # ls) @ CRLF @ x" "e = length (raw_text (l # ls)) + 2" "plain_request_line l = Some (m, t, minor)" "length hs \<le> n"
      "headers_ok (length l + 1) e hs"
    moreover from this(3) have "m \<noteq> [] \<and> list_all is_tchar m" by (auto simp: plain_request_line_def split: option.splits if_splits)
    ultimately show ?thesis using headers_ok_within [of "length l + 1" e hs 0 e] by (simp add: request_ok_def r q)
  qed
qed

lemma start_line_raw:
  assumes "\<forall>l \<in> set ((k @ [CR]) # ls). LF \<notin> set l" and "k \<noteq> []"
  shows "start_line (raw_text ((k @ [CR]) # ls)) = Some (0, k)"
proof -
  have "split_slice (\<lambda>b. b = LF) (raw_text ((k @ [CR]) # ls)) = ((k @ [CR]) # ls) @ [[]]"
    using split_raw_text [OF assms(1), of "[]"] by simp
  moreover have "strip_cr (k @ [CR]) = k" by (simp add: strip_cr_def strip_suffix_def ends_with_def)
  ultimately show ?thesis using assms(2) by (simp only: start_line_def append_Cons lines_from.simps list.map find.simps) simp
qed

lemma plain_response_ok:
  assumes "hp_parse_response plain_httparse config d n = Inr (Some r)"
  shows "response_ok d n r"
proof -
  obtain e q where r: "r = (e, q)" by fastforce
  with assms obtain minor code hs where h: "plain_head plain_status_line d n = Inr (Some (e, (minor, code), hs))"
    and q: "q = \<lparr>hpr_version = Some minor, hpr_code = Some (of_nat code), hpr_headers = hs\<rparr>"
    by (auto simp: plain_response_parses)
  from h show ?thesis
  proof (rule plain_head_Some)
    fix l ls x
    assume d: "d = raw_text (l # ls) @ CRLF @ x" "e = length (raw_text (l # ls)) + 2" "plain_status_line l = Some (minor, code)" "length hs \<le> n"
      "\<forall>l \<in> set (l # ls). LF \<notin> set l \<and> l \<noteq> [CR]" "headers_ok (length l + 1) e hs"
    from plain_status_line_Some [OF d(3)] obtain k where k: "l = k @ [CR]" "k \<noteq> []" "status_line_ok k" by blast
    have "d = raw_text ((k @ [CR]) # ls @ [[CR]]) @ x" "e = length (raw_text ((k @ [CR]) # ls @ [[CR]]))" using d(1,2) k(1) by simp_all
    then have "take e d = raw_text ((k @ [CR]) # ls @ [[CR]])" by (metis append_eq_conv_conj)
    moreover have "\<forall>l \<in> set ((k @ [CR]) # ls @ [[CR]]). LF \<notin> set l" using d(5) k(1) by auto
    ultimately have "start_line (take e d) = Some (0, k)" using start_line_raw k(2) by metis
    moreover have "headers_ok (length k) e hs" using headers_ok_within [OF d(6), of "length k" e] k(1) by simp
    ultimately show ?thesis using d(1,2,4) k(3) by (simp add: response_ok_def r q)
  qed
qed

lemma plain_headers: "hp_parse_headers plain_httparse = hp_parse_headers sample_httparse"
  by (simp add: plain_httparse_def)

lemma plain_httparse_ok: "httparse_ok plain_httparse"
proof -
  have "trailers_ok d n r" if "hp_parse_headers plain_httparse d n = Inr (Some r)" for d n r
    using sample_httparse_ok that unfolding httparse_ok_def plain_headers by blast
  then show ?thesis using plain_request_ok plain_response_ok by (simp add: httparse_ok_def)
qed

lemma plain_head_empty_lines: "only_empty_lines d \<Longrightarrow> plain_head p d n = Inr None"
  using only_empty_lines_first [of d] by (auto simp: plain_head_def complete_head_def)

lemma plain_httparse_incremental: "httparse_incremental plain_httparse"
proof -
  have "map_sum id (map_option f) x = Inr None \<longleftrightarrow> x = Inr None" for f :: "'x \<Rightarrow> 'y" and x :: "hp_error + 'x option"
    by (cases x) simp_all
  then have partial: "hp_parse_request plain_httparse d n = Inr None \<longleftrightarrow> plain_head plain_request_line d n = Inr None"
    "hp_parse_response plain_httparse config d n = Inr None \<longleftrightarrow> plain_head plain_status_line d n = Inr None" for config d n
    by (simp_all add: plain_httparse_def)
  have request: "\<forall>d x n. hp_parse_request plain_httparse d n \<noteq> Inr None \<longrightarrow>
      hp_parse_request plain_httparse (d @ x) n = hp_parse_request plain_httparse d n"
    unfolding partial by (simp add: plain_httparse_def plain_head_append)
  have response: "\<forall>config d x n. hp_parse_response plain_httparse config d n \<noteq> Inr None \<longrightarrow>
      hp_parse_response plain_httparse config (d @ x) n = hp_parse_response plain_httparse config d n"
    unfolding partial by (simp add: plain_httparse_def plain_head_append)
  have blank: "\<forall>config d n. only_empty_lines d \<longrightarrow>
      hp_parse_request plain_httparse d n = Inr None \<and> hp_parse_response plain_httparse config d n = Inr None"
    unfolding partial by (intro allI impI conjI plain_head_empty_lines)
  note sample = sample_httparse_incremental [unfolded httparse_incremental_def]
  note headers = sample [THEN conjunct2, THEN conjunct2, THEN conjunct1]
    sample [THEN conjunct2, THEN conjunct2, THEN conjunct2, THEN conjunct2]
  show ?thesis
    unfolding httparse_incremental_def plain_headers by (intro conjI request response blank headers headers(2) [THEN conjunct1] headers(2) [THEN conjunct2])
qed

lemma plain_empty_section: "empty_section_ok plain_httparse"
  using sample_empty_section by (simp add: empty_section_ok_def plain_httparse_def)

lemma plain_reads_heads: "httparse_reads_heads plain_httparse"
proof -
  have "\<exists>q. hp_parse_request plain_httparse (request_text m t minor fs) n = Inr (Some (length (request_text m t minor fs), q))
      \<and> hpq_method q = Some m \<and> hpq_path q = Some t \<and> hpq_version q = Some minor
      \<and> parsed_fields (request_text m t minor fs) (hpq_headers q) = fs"
    if "m \<noteq> []" "list_all is_tchar m" "list_all uri_char t" "minor \<le> 1" "list_all field_text fs" "length fs \<le> n" for m t minor fs n
    using plain_head_text [where p = plain_request_line, OF that(5) request_line_text(2) [OF that(1-4)] _ request_line_text(1) [OF that(1-4)] that(6)]
    by (auto simp: request_text_def plain_request_parses)
  moreover have "\<exists>q. hp_parse_response plain_httparse config (response_text minor (a, b, c) reason fs) n
        = Inr (Some (length (response_text minor (a, b, c) reason fs), q))
      \<and> hpr_version q = Some minor \<and> hpr_code q = Some (of_nat (100 * a + 10 * b + c))
      \<and> parsed_fields (response_text minor (a, b, c) reason fs) (hpr_headers q) = fs"
    if "minor \<le> 1" "a \<le> 9" "b \<le> 9" "c \<le> 9" "list_all is_line_value_byte reason" "list_all field_text fs" "length fs \<le> n"
    for config minor a b c reason fs n
    using plain_head_text [where p = plain_status_line, OF that(6) status_line_text(2) [OF that(1-5)] _ status_line_text(1) [OF that(1-5)] that(7)]
    by (auto simp: response_text_def plain_response_parses)
  ultimately show ?thesis unfolding httparse_reads_heads_def by blast
qed

end
