(* ===== verification/H11r_Dialogue.thy ===== *)
theory H11r_Dialogue
  imports H11r_Arrival H11r_Syntax
begin

text \<open>
  What one end sends, the other end reports. A client and a server that agree on the state of
  their connection agree again once a request head, and then a final response head, has
  crossed: the message is reported as it was sent, both ends hold the same joint state, and
  the body will be read under the framing it is written with.
\<close>

section \<open>Moving the Host field to the front\<close>

text \<open>A scan without what it notes of Host fields, which is all that depends on their places.\<close>

definition hostless :: "Fields \<Rightarrow> Fields" where
  "hostless f = f\<lparr>hosts := 0, fld_valid_host := False, host_at := 0\<rparr>"

lemma hostless_steps:
  "hostless (scan_option f e) = scan_option (hostless f) e" "hostless (scan_length f e) = scan_length (hostless f) e"
  "hostless (note_empty f v q) = note_empty (hostless f) v q" "hostless (f\<lparr>te_field := a, te_chunked := b\<rparr>) = (hostless f)\<lparr>te_field := a, te_chunked := b\<rparr>"
  "hostless (f\<lparr>expect_continue := a\<rparr>) = (hostless f)\<lparr>expect_continue := a\<rparr>"
  "hostless (f\<lparr>upgrade_field := a\<rparr>) = (hostless f)\<lparr>upgrade_field := a\<rparr>" "hostless (f\<lparr>codings := x\<rparr>) = (hostless f)\<lparr>codings := x\<rparr>"
  by (cases f; simp add: hostless_def scan_option_def scan_length_def note_empty_def Let_def)+

lemma hostless_options:
  "hostless (foldl scan_option f es) = foldl scan_option (hostless f) es"
  "hostless (foldl scan_length f es) = foldl scan_length (hostless f) es"
  by (induction es arbitrary: f) (simp_all add: hostless_steps)

lemma hostless_fields:
  "te_chunked (hostless f) = te_chunked f" "expect_continue (hostless f) = expect_continue f" "codings (hostless f) = codings f"
  "hostless (f\<lparr>hosts := x, fld_valid_host := y, host_at := z\<rparr>) = hostless f"
  by (simp_all add: hostless_def)

lemma hostless_scan_field:
  "hostless (scan_field f (i, n, v)) = (if eq_ignore_ascii_case n ''host'' then hostless f else scan_field (hostless f) (0, n, v))"
proof (cases "eq_ignore_ascii_case n ''host''")
  case True
  then have "length n = 4" by (auto dest: eq_ignore_ascii_case_length)
  with True show ?thesis by (simp add: scan_field_def hostless_fields)
qed (simp add: scan_field_def hostless_fields hostless_steps hostless_options)

lemma hostless_foldl:
  "hostless (foldl scan_field f (enumerate k fs))
   = foldl (\<lambda>g (n, v). scan_field g (0, n, v)) (hostless f) (filter (\<lambda>(n, v). \<not> eq_ignore_ascii_case n ''host'') fs)"
  by (induction fs arbitrary: f k) (simp_all add: split_paired_all hostless_scan_field)

lemma scan_field_valid_host:
  "fld_valid_host (scan_field f (i, n, v)) = (if eq_ignore_ascii_case n ''host'' then authority_port v \<noteq> None else fld_valid_host f)"
proof -
  have *: "fld_valid_host (foldl scan_option f es) = fld_valid_host f" "fld_valid_host (foldl scan_length f es) = fld_valid_host f" for f es
    by (induction es arbitrary: f) (simp_all add: scan_option_def scan_length_def Let_def)
  show ?thesis by (auto simp: scan_field_simps * dest: eq_ignore_ascii_case_length)
qed

lemma foldl_valid_host:
  "fld_valid_host (foldl scan_field f (enumerate k fs)) =
     (if values_of fs ''host'' = [] then fld_valid_host f else authority_port (last (values_of fs ''host'')) \<noteq> None)"
  by (induction fs arbitrary: f k) (simp_all add: split_paired_all scan_field_valid_host)

lemma values_of_none: "values_of fs name = [] \<Longrightarrow> filter (\<lambda>(n, v). \<not> eq_ignore_ascii_case n name) fs = fs"
  by (induction fs) (auto split: if_splits)

lemma fields_eq:
  "hostless f = hostless g \<Longrightarrow> hosts f = hosts g \<Longrightarrow> fld_valid_host f = fld_valid_host g \<Longrightarrow> f\<lparr>host_at := 0\<rparr> = g\<lparr>host_at := 0\<rparr>"
  by (cases f; cases g) (simp add: hostless_def)

lemma host_split:
  assumes "valid_host (scan h) Http11"
  obtains a n v b where "headers_iter h = a @ (n, v) # b" "move_to_front (host_at (scan h)) (headers_iter h) = (n, v) # a @ b"
    "eq_ignore_ascii_case n ''host''" "values_of a ''host'' = []" "values_of b ''host'' = []"
proof -
  let ?fs = "headers_iter h" and ?i = "host_at (scan h)"
  have i: "length (get_all h ''host'') = 1" "?i < length ?fs" "eq_ignore_ascii_case (fst (?fs ! ?i)) ''host''"
    using scan_host [OF assms] by auto
  obtain a f b where fs: "?fs = a @ f # b" "length a = ?i" "f = ?fs ! ?i" by (metis i(2) id_take_nth_drop length_take min.absorb4)
  obtain n v where f: "f = (n, v)" by (cases f)
  have n: "eq_ignore_ascii_case n ''host''" using i(3) fs(3) f by (metis fst_conv)
  moreover have "values_of a ''host'' = []" "values_of b ''host'' = []"
    using i(1) n by (auto simp: get_all_values fs(1) f values_of_append)
  moreover have "move_to_front ?i ?fs = f # a @ b" using i(2) unfolding move_to_front_def fs(3) [symmetric] by (simp add: fs(1,2))
  ultimately show thesis using that fs(1) f by blast
qed

lemma scan_host_first:
  assumes "valid_host (scan h) Http11" and "headers_iter h' = move_to_front (host_at (scan h)) (headers_iter h)"
  shows "scan h' = (scan h)\<lparr>host_at := 0\<rparr>"
proof -
  from host_split [OF assms(1)] obtain a n v b where fs: "headers_iter h = a @ (n, v) # b" "headers_iter h' = (n, v) # a @ b"
    and n: "eq_ignore_ascii_case n ''host''" and none: "values_of a ''host'' = []" "values_of b ''host'' = []"
    using assms(2) by metis
  have "hostless (scan h') = hostless (scan h)"
    unfolding scan_def fs hostless_foldl by (simp add: n)
  moreover have "hosts (scan h') = hosts (scan h)" "fld_valid_host (scan h') = fld_valid_host (scan h)"
    unfolding scan_def fs foldl_scan_hosts foldl_valid_host using none by (simp_all add: n values_of_append)
  moreover have "host_at (scan h') = 0"
    unfolding scan_def fs using none foldl_scan_host_at(1) [of "a @ b"] by (simp add: n values_of_append scan_field_hosts)
  ultimately show ?thesis using fields_eq [of "scan h'" "scan h"] by (cases "scan h'") simp
qed

lemma eq_ignore_trans: "eq_ignore_ascii_case a b \<Longrightarrow> eq_ignore_ascii_case a c \<Longrightarrow> eq_ignore_ascii_case b c"
  by (simp add: eq_ignore_ascii_case_def)

lemma get_all_host_first:
  assumes "valid_host (scan h) Http11" and "headers_iter h' = move_to_front (host_at (scan h)) (headers_iter h)"
    and "\<not> eq_ignore_ascii_case ''host'' name"
  shows "get_all h' name = get_all h name"
proof -
  from host_split [OF assms(1)] obtain a n v b where fs: "headers_iter h = a @ (n, v) # b" "headers_iter h' = (n, v) # a @ b"
    and n: "eq_ignore_ascii_case n ''host''" using assms(2) by metis
  then have "\<not> eq_ignore_ascii_case n name" using assms(3) eq_ignore_trans by blast
  then show ?thesis by (simp add: get_all_values fs values_of_append)
qed

section \<open>A request head crosses\<close>

text \<open>The heads this program writes are heads of the grammar.\<close>

definition minor_of :: "Version \<Rightarrow> nat" where
  "minor_of v = (case v of Http10 \<Rightarrow> 0 | Http11 \<Rightarrow> 1)"

lemma minor_of_facts: "minor_of v \<le> 1" "version_of (Some (minor_of v)) = v" "version_wire v = ''1.'' @ [digit (minor_of v)]"
  by (cases v; simp add: minor_of_def version_of_def digit_version)+

lemma line_text_head: "line_text (l # map field_line fs @ [[]]) = head_text l fs"
proof -
  have "line_text (map field_line fs) = concat (map (\<lambda>(n, v). n @ '': '' @ v @ CRLF) fs)"
    by (induction fs) (auto simp: field_line_def)
  moreover have "line_text (xs @ [[]]) = line_text xs @ CRLF" for xs by (induction xs) simp_all
  ultimately show ?thesis by (simp add: head_text_def)
qed

lemma serialized_request:
  "serialize_request r i = request_text (as_bytes (req_method r)) (req_target r) (minor_of (req_version r))
     (move_to_front i (headers_iter (req_headers r)))"
  unfolding serialize_request_text line_text_head by (simp add: request_text_def request_line_def minor_of_facts(3))

definition same_request :: "Request \<Rightarrow> Request \<Rightarrow> bool" where
  "same_request r r' \<longleftrightarrow> req_method r' = req_method r \<and> req_target r' = req_target r \<and> req_version r' = req_version r
     \<and> headers_iter (req_headers r') = move_to_front (host_at (scan (req_headers r))) (headers_iter (req_headers r))"

lemma read_request_parses:
  assumes "httparse_ok hp" and "httparse_incremental hp" and "httparse_reads_heads hp" and "method_ok (req_method r)"
    and "headers_inv (req_headers r)" and "validate_request r (scan (req_headers r)) = Inr ()" and "list_all uri_char (req_target r)"
    and "length (headers_iter (req_headers r)) \<le> n" and "slots_fit n"
    and "head = serialize_request r (host_at (scan (req_headers r)))"
  shows "\<exists>r'. parse_request_head hp (head @ x) n = Inr (Some (length head, r')) \<and> same_request r r' \<and> headers_inv (req_headers r')"
proof -
  let ?fs = "move_to_front (host_at (scan (req_headers r))) (headers_iter (req_headers r))"
  have "valid_fields (headers_iter (req_headers r))" "valid_request_target (as_bytes (req_method r)) (req_target r)"
    using assms(6) validate_headers_Inr [OF assms(5)] by (simp_all add: validate_request_Inr)
  moreover from this(2) have "req_target r \<noteq> []" by (auto simp: valid_request_target_def)
  ultimately have parts: "list_all field_text ?fs" "req_target r \<noteq> []" "as_bytes (req_method r) \<noteq> []" "list_all is_tchar (as_bytes (req_method r))"
    using assms(4) by (auto simp: valid_field_text method_ok_def list_all_iff)
  moreover have "length ?fs \<le> n" using assms(8) by (auto simp: move_to_front_def)
  ultimately obtain q where q: "hp_parse_request hp head n = Inr (Some (length head, q))"
    "hpq_method q = Some (as_bytes (req_method r))" "hpq_path q = Some (req_target r)" "version_of (hpq_version q) = req_version r"
    "parsed_fields head (hpq_headers q) = ?fs"
    using assms(3,7) minor_of_facts(1,2) [of "req_version r"] unfolding httparse_reads_heads_def assms(10) serialized_request
    by metis
  have "headers_ok 0 (length head) (hpq_headers q)" using assms(1) q(1) by (force simp: httparse_ok_def request_ok_def)
  from copy_headers_ok [OF this, of head False] obtain h where h: "copy_headers head (hpq_headers q) False = Inr h" "headers_inv h"
    "headers_iter h = parsed_fields head (hpq_headers q)" by auto
  have "method_from_bytes (as_bytes (req_method r)) = Inr (req_method r)"
    using assms(4) by (cases "req_method r") (simp add: method_from_bytes_Inr method_ok_def as_bytes_def)
  with q h assms(9) have "\<exists>r'. parse_request_head hp head n = Inr (Some (length head, r')) \<and> same_request r r' \<and> headers_inv (req_headers r')"
    by (simp add: parse_request_head_def same_request_def)
  with parse_request_head_append [OF assms(1,2)] show ?thesis by fastforce
qed

lemma send_request_parts:
  assumes "send_request c r = (c', Inr out)"
  obtains b u u0 s where "role c = Client" "input_bytes c = []" "validate_request r (scan (req_headers r)) = Inr ()"
    "framing (scan (req_headers r)) (req_version r) False = Inr b" "\<not> content_forbidden (req_method r) b"
    "upgrade_protocols (req_headers r) = Some u0" "fld_upgrade (scan (req_headers r)) \<longrightarrow> u0 \<noteq> []"
    "u = (if req_version r = Http11 then u0 else [])"
    "process_event (conn_state c) Client (request_event (req_method r) u) = Inr s"
    "c' = set_writer (record_request (c\<lparr>conn_state := s\<rparr>) (req_method r) (req_version r) (scan (req_headers r)) b u) (Some b)"
    "out = serialize_request r (host_at (scan (req_headers r)))"
  using assms unfolding send_request_def Let_def advance_local_def
  by (auto split: if_splits sum.splits option.splits prod.splits)

lemma upgrade_field_iff: "upgrade_field (scan h) \<longleftrightarrow> get_all h ''upgrade'' \<noteq> []"
proof -
  have *: "upgrade_field (foldl scan_option f es) = upgrade_field f" "upgrade_field (foldl scan_length f es) = upgrade_field f" for f es
    by (induction es arbitrary: f) (simp_all add: scan_option_def scan_length_def Let_def)
  have "upgrade_field (scan_field f (i, n, v)) = (eq_ignore_ascii_case n ''upgrade'' \<or> upgrade_field f)" for f i n v
    by (auto simp: scan_field_simps * dest: eq_ignore_ascii_case_length)
  then have "upgrade_field (foldl scan_field f (enumerate k fs)) = (upgrade_field f \<or> values_of fs ''upgrade'' \<noteq> [])" for f k fs
    by (induction fs arbitrary: f k) (auto simp: split_paired_all)
  then show ?thesis by (simp add: scan_def get_all_values fields_default_def)
qed

lemma upgrades_agree:
  assumes "valid_host (scan h) Http11" and "headers_iter h' = move_to_front (host_at (scan h)) (headers_iter h)"
    and "check_send (scan h) = Inr ()" and "upgrade_protocols h = Some u"
  shows "(if fld_upgrade (scan h') then (case upgrade_protocols h' of None \<Rightarrow> [] | Some u \<Rightarrow> u) else []) = u"
proof -
  have "\<not> eq_ignore_ascii_case ''host'' ''upgrade''" by code_simp
  from get_all_host_first [OF assms(1,2) this] have "upgrade_protocols h' = upgrade_protocols h"
    by (simp add: upgrade_protocols_def has_field_iff)
  moreover have "u = []" if "\<not> fld_upgrade (scan h)"
  proof -
    have "get_all h ''upgrade'' = []" using assms(3) that upgrade_field_iff [of h] by (auto simp: check_send_def split: if_splits)
    with assms(4) show ?thesis by (simp add: upgrade_protocols_def split: option.splits if_splits)
  qed
  ultimately show ?thesis using assms(4) scan_host_first [OF assms(1,2)] by simp
qed

text \<open>Both ends of a connection agree on its joint state and on the request of the exchange.\<close>

definition in_step :: "Connection \<Rightarrow> Connection \<Rightarrow> bool" where
  "in_step c s \<longleftrightarrow> role c = Client \<and> role s = Server \<and> conn_state c = conn_state s
     \<and> request_kind (cycle c) = request_kind (cycle s) \<and> upgrade_proposals (cycle c) = upgrade_proposals (cycle s)
     \<and> waiting_for_continue (cycle c) = waiting_for_continue (cycle s)
     \<and> continue_before_upgrade (cycle c) = continue_before_upgrade (cycle s)"

lemma next_event_from_head:
  assumes "poll_peer_state c = None" and "cyc_reader (cycle c) = ReadHead" and "read_head hp c = (c', Inr (PolledEvent e))"
  shows "next_event hp c = (c', Inr (NextEvent e))"
  using assms by (simp add: next_event_def next_event_inner.simps [of hp c] read_body_def Let_def)

text \<open>A first look at a section is always due.\<close>

lemma section_due_first:
  assumes "progress (cycle c) = progress_default"
  shows "\<exists>p. section_due c skip = (set_progress c p, True)"
proof -
  have "set_progress c (progress (cycle c)) = c" by (simp add: set_progress_def)
  then have "\<exists>p. c = set_progress c p" by metis
  then show ?thesis using assms by (auto simp: section_due_def due_def progress_default_def saturating_mul_def)
qed

lemma head_section_prefix:
  assumes "input_bytes c = head @ rest" and "length head \<le> max_head_bytes (limits c)"
  shows "\<exists>x. head_section c = head @ x"
  using assms by (auto simp: head_section_def Let_def min_def)

lemma accept_request_sent:
  assumes "send_request c r = (c', Inr out)" and "same_request r r'"
    and "role s = Server" and "conn_state s = conn_state c"
  shows "\<exists>s' b. accept_request s r' = (s', Inr (PolledEvent (EventRequest r')))
     \<and> in_step c' s' \<and> writer (cycle c') = Some b \<and> cyc_reader (cycle s') = reader b
     \<and> chunk_extension_bytes (cycle s') = chunk_extension_bytes (cycle s) \<and> conn_input s' = conn_input s \<and> limits s' = limits s"
proof -
  from send_request_parts [OF assms(1)] obtain b u u0 t where c: "role c = Client" "validate_request r (scan (req_headers r)) = Inr ()"
    "framing (scan (req_headers r)) (req_version r) False = Inr b" "\<not> content_forbidden (req_method r) b"
    "upgrade_protocols (req_headers r) = Some u0" "u = (if req_version r = Http11 then u0 else [])"
    "process_event (conn_state c) Client (request_event (req_method r) u) = Inr t"
    "c' = set_writer (record_request (c\<lparr>conn_state := t\<rparr>) (req_method r) (req_version r) (scan (req_headers r)) b u) (Some b)"
    by metis
  have r: "req_method r' = req_method r" "req_target r' = req_target r" "req_version r' = req_version r"
    and h: "headers_iter (req_headers r') = move_to_front (host_at (scan (req_headers r))) (headers_iter (req_headers r))"
    using assms(2) by (simp_all add: same_request_def)
  have v: "valid_request_target (as_bytes (req_method r)) (req_target r)" "check_send (scan (req_headers r)) = Inr ()"
    "valid_host (scan (req_headers r)) Http11" using c(2) by (auto simp: validate_request_Inr)
  let ?f = "scan (req_headers r')"
  note f = scan_host_first [OF v(3) h]
  have same: "valid_host ?f (req_version r)" "framing ?f (req_version r) False = Inr b"
    "persistent ?f (req_version r) = persistent (scan (req_headers r)) (req_version r)"
    "expects_continue ?f (req_version r) b = expects_continue (scan (req_headers r)) (req_version r) b"
    using v(3) c(3) by (auto simp: f valid_host_def framing_def persistent_def expects_continue_def split: if_splits)
  have u: "(if req_version r = Http11 \<and> fld_upgrade ?f
       then (case upgrade_protocols (req_headers r') of None \<Rightarrow> [] | Some u \<Rightarrow> u) else []) = u"
    using upgrades_agree [OF v(3) h v(2) c(5)] c(6) by auto
  let ?s = "set_reader ((record_request (s\<lparr>conn_state := t\<rparr>) (req_method r) (req_version r) ?f b u)
        \<lparr>peer_version := Some (req_version r)\<rparr>) (reader b)"
  have "advance_peer s (request_event (req_method r) u) = (s\<lparr>conn_state := t\<rparr>, Inr ())"
    using c(7) assms(3,4) by (simp add: advance_peer_def)
  then have "accept_request s r' = (?s, Inr (PolledEvent (EventRequest r')))"
    unfolding accept_request_def Let_def r u using v(1) same(1,2) c(4) by simp
  moreover have "in_step c' ?s"
    using c(1) assms(3) same(3,4) by (simp add: c(8) in_step_def record_request_def set_reader_def set_writer_def conn_disable_keep_alive_def Let_def)
  moreover have "writer (cycle c') = Some b" by (simp add: c(8) set_writer_def)
  ultimately show ?thesis by (auto simp: record_request_def set_reader_def conn_disable_keep_alive_def Let_def)
qed

lemma framing_request_side: "framing f v False \<noteq> Inr CloseDelimited"
  by (auto simp: framing_def codings_framing_def split: option.splits sum.splits if_splits)

lemma sent_request_framed: "send_request c r = (c', Inr out) \<Longrightarrow> writer (cycle c') \<noteq> Some CloseDelimited"
  by (erule send_request_parts) (use framing_request_side in \<open>auto simp: set_writer_def\<close>)

lemma request_crosses:
  assumes "httparse_ok hp" and "httparse_incremental hp" and "httparse_reads_heads hp" and "conn_inv c" and "conn_inv s"
    and "send_request c r = (c', Inr head)" and "method_ok (req_method r)" and "headers_inv (req_headers r)"
    and "list_all uri_char (req_target r)" and "length (headers_iter (req_headers r)) \<le> max_header_count (limits s)"
    and "slots_fit (max_header_count (limits s))"
    and "in_step c s" and "input_bytes s = []" and "\<not> eof s" and "cycle s = cycle_default"
    and "length head \<le> max_head_bytes (limits s)"
  shows "\<exists>s' r' b. next_event hp (fst (receive_data s (head @ rest))) = (s', Inr (NextEvent (EventRequest r')))
     \<and> same_request r r' \<and> input_bytes s' = rest \<and> in_step c' s'
     \<and> writer (cycle c') = Some b \<and> b \<noteq> CloseDelimited \<and> conn_inv c' \<and> cyc_reader (cycle s') = reader b
     \<and> peer_state s' = SendBody \<and> conn_inv s' \<and> limits s' = limits s \<and> chunk_extension_bytes (cycle s') = 0"
proof -
  from send_request_parts [OF assms(6)] have sent: "head = serialize_request r (host_at (scan (req_headers r)))"
    "validate_request r (scan (req_headers r)) = Inr ()" by blast+
  then have head: "head \<noteq> []" using serialize_request_text by (auto simp: request_line_def)
  let ?s = "s\<lparr>conn_input := buffer_extend (conn_input s) (head @ rest)\<rparr>"
  have recv: "receive_data s (head @ rest) = (?s, Inr ())" using head assms(14) by (simp add: receive_data_def)
  have input: "input_bytes ?s = head @ rest" using assms(5,13) by (simp add: conn_inv_def conn_base_def)
  have role: "role s = Server" "conn_state s = conn_state c" using assms(12) by (simp_all add: in_step_def)
  obtain t e where "process_event (conn_state c) Client (Request e) = Inr t"
    using send_request_parts [OF assms(6)] by (metis request_event_def)
  then have idle: "peer_state ?s = Idle" using role by (auto simp: process_event_request peer_state_def accept_if_def split: if_splits)
  then have poll: "poll_peer_state ?s = None" using assms(14) by (simp add: poll_peer_state_def)
  obtain p where due: "section_due ?s True = (set_progress ?s p, True)"
    using section_due_first [of ?s True] assms(15) by (auto simp: cycle_default_def)
  obtain x where x: "head_section (set_progress ?s p) = head @ x"
    using head_section_prefix [of "set_progress ?s p" head rest] input assms(16) by (auto simp: set_progress_simps)
  obtain r' where r': "parse_request_head hp (head @ x) (max_header_count (limits s)) = Inr (Some (length head, r'))" "same_request r r'"
    using read_request_parses [OF assms(1-3,7,8) sent(2) assms(9-11) sent(1)] by blast
  let ?t = "set_progress (consume_input (set_progress ?s p) (length head)) progress_default"
  have t: "role ?t = Server" "conn_state ?t = conn_state c" "input_bytes ?t = rest"
    using role input by (simp_all add: set_progress_def consume_input_def)
  from accept_request_sent [OF assms(6) r'(2) t(1,2)] obtain s' b where acc:
    "accept_request ?t r' = (s', Inr (PolledEvent (EventRequest r')))" "in_step c' s'" "writer (cycle c') = Some b"
    "cyc_reader (cycle s') = reader b" "conn_input s' = conn_input ?t" "limits s' = limits ?t"
    "chunk_extension_bytes (cycle s') = chunk_extension_bytes (cycle ?t)" by blast
  have "read_head hp ?s = (s', Inr (PolledEvent (EventRequest r')))"
    unfolding read_head_def due using x r'(1) role acc(1) by (simp add: set_progress_simps)
  from next_event_from_head [OF poll _ this] have "next_event hp ?s = (s', Inr (NextEvent (EventRequest r')))"
    using assms(15) by (simp add: cycle_default_def)
  moreover have inv: "conn_inv c'" by (rule send_request_inv [OF assms(4,6)])
  moreover have "peer_state s' = SendBody"
    using writer_local [OF inv acc(3)] acc(2) by (simp add: in_step_def local_state_def peer_state_def)
  moreover have "conn_inv ?s" using receive_data_inv [OF assms(5), of "head @ rest"] recv by simp
  then have "conn_inv s'" using next_event_safe [OF assms(1), of ?s] calculation(1) by simp
  moreover have "limits s' = limits s" "chunk_extension_bytes (cycle s') = 0"
    using acc(6,7) assms(15) by (simp_all add: set_progress_def consume_input_def cycle_default_def)
  moreover have "b \<noteq> CloseDelimited" using sent_request_framed [OF assms(6)] acc(3) by auto
  ultimately show ?thesis using recv acc(2-5) r'(2) t(3) by auto
qed

definition sample_post :: Request where
  "sample_post = \<lparr>req_method = method_post, req_target = ''/a'',
     req_headers = headers_from [(''Transfer-Encoding'', ''chunked''), (''Host'', ''x'')], req_version = Http11\<rparr>"

lemma sample_post_facts:
  "snd (send_request (connection_new Client sample_limits) sample_post) = Inr sample_request"
  "list_all uri_char (req_target sample_post)" "headers_inv (req_headers sample_post)" "method_ok (req_method sample_post)" "in_step (connection_new Client sample_limits) (connection_new Server sample_limits)"
  "writer (cycle (fst (send_request (connection_new Client sample_limits) sample_post))) = Some Chunked"
  "move_to_front (host_at (scan (req_headers sample_post))) (headers_iter (req_headers sample_post))
     = [(''Host'', ''x''), (''Transfer-Encoding'', ''chunked'')]"
  by code_simp+

section \<open>A response head crosses\<close>

subsection \<open>The fields of a sent response are valid\<close>










subsection \<open>A head has one reading\<close>







subsection \<open>What is written\<close>





subsection \<open>What is reported\<close>








lemma disabled_state [simp]: "conn_state (conn_disable_keep_alive c) = disable_keep_alive (conn_state c)"
  by (simp add: conn_disable_keep_alive_def)









section \<open>A whole message crosses\<close>

text \<open>What reading a body does to the joint state: nothing until the end, then the end of the message.\<close>

definition body_state :: "Connection \<Rightarrow> Connection \<times> polled_result option \<Rightarrow> bool" where
  "body_state c res \<longleftrightarrow>
     role (fst res) = role c
     \<and> (case snd res of
          Some (Inl _) \<Rightarrow> True
        | Some (Inr (PolledEvent e)) \<Rightarrow>
            (case e of EventEndOfMessage _ \<Rightarrow> process_event (conn_state c) (peer (role c)) EndOfMessage = Inr (conn_state (fst res))
             | _ \<Rightarrow> False)
        | _ \<Rightarrow> conn_state (fst res) = conn_state c)"

lemma body_state_simps [simp]:
  "body_state c (d, Some (Inl err)) \<longleftrightarrow> role d = role c"
  "body_state c (d, Some (Inr PolledNeedData)) \<longleftrightarrow> role d = role c \<and> conn_state d = conn_state c"
  "body_state c (d, Some (Inr PolledPaused)) \<longleftrightarrow> role d = role c \<and> conn_state d = conn_state c"
  "body_state c (d, Some (Inr (PolledData n b e))) \<longleftrightarrow> role d = role c \<and> conn_state d = conn_state c"
  "body_state c (d, None) \<longleftrightarrow> role d = role c \<and> conn_state d = conn_state c"
  "body_state c (d, Some (Inr (PolledEvent (EventEndOfMessage h)))) \<longleftrightarrow>
     role d = role c \<and> process_event (conn_state c) (peer (role c)) EndOfMessage = Inr (conn_state d)"
  by (simp_all add: body_state_def)

lemma body_state_from:
  assumes "role d = role c" and "conn_state d = conn_state c"
  shows "body_state d x \<longleftrightarrow> body_state c x"
  unfolding body_state_def assms ..

lemma state_simps [simp]:
  "role (set_reader c rd) = role c" "conn_state (set_reader c rd) = conn_state c"
  "role (set_progress c p) = role c" "conn_state (set_progress c p) = conn_state c"
  "role (consume_input c n) = role c" "conn_state (consume_input c n) = conn_state c"
  by (simp_all add: set_reader_def set_progress_def consume_input_def)

lemma finish_peer_state: "body_state c (apsnd Some (finish_peer c h))"
  by (simp add: finish_peer_def advance_peer_def split: sum.split)

lemma peer_data_state: "body_state c (apsnd Some (peer_data c n b e))"
  by (auto simp: peer_data_def advance_peer_def process_event_data accept_if_def split: sum.split)

lemma need_data_state: "role d = role c \<Longrightarrow> conn_state d = conn_state c \<Longrightarrow> body_state c (apsnd Some (need_data_or_eof d m))"
  by (simp add: need_data_or_eof_def)

lemma read_payload_state: "body_state c (apsnd Some (read_payload c m))"
proof -
  obtain d k b e where a: "advance_payload c (length (input_bytes c)) = (d, k, b, e)" by (cases "advance_payload c (length (input_bytes c))")
  from advance_payload_state [OF a] body_state_from [of d c] peer_data_state [of d k b e] a need_data_state [of c c m]
  show ?thesis by (simp add: read_payload_def Let_def)
qed

lemma read_trailers_state: "body_state c (apsnd Some (read_trailers hp c))"
proof -
  obtain p b where d: "section_due c False = (set_progress c p, b)" using section_due_progress by metis
  have w: "body_state c (apsnd Some (wait_for_section (set_progress c p) False))"
    by (simp add: wait_for_section_def need_data_or_eof_def)
  have f: "body_state c (apsnd Some (finish_peer (set_progress (consume_input (set_progress c p) k) q) h))" for k q h
    using finish_peer_state [of "set_progress (consume_input (set_progress c p) k) q"]
      body_state_from [of "set_progress (consume_input (set_progress c p) k) q" c] state_simps by metis
  show ?thesis using w f by (auto simp: read_trailers_def d split: sum.split option.split)
qed

lemma read_chunk_size_state: "body_state c (read_chunk_size c k)"
  by (auto simp: read_chunk_size_def need_data_or_eof_def Let_def split: option.split)

lemma read_data_end_state: "body_state c (read_data_end c)"
  by (simp add: read_data_end_def need_data_or_eof_def)

lemma read_body_state:
  assumes "cyc_reader (cycle c) \<noteq> ReadHead"
  shows "body_state c (read_body hp c)"
proof -
  have [simp]: "(case x of (c1, r) \<Rightarrow> (c1, Some r)) = apsnd Some x" for x :: "Connection \<times> polled_result" by (cases x) simp
  show ?thesis
    using assms finish_peer_state peer_data_state read_payload_state read_trailers_state read_chunk_size_state read_data_end_state
    by (auto simp: read_body_def read_chunked_def Let_def split: Reader.split Chunk.split)
qed

text \<open>The same of a poll.\<close>

lemma next_event_state:
  assumes "conn_inv c" and "httparse_ok hp"
  shows "peer_state c = SendBody \<Longrightarrow> next_event hp c = (c', Inr r) \<Longrightarrow>
    role c' = role c \<and> (case r of
      NextEvent (EventEndOfMessage _) \<Rightarrow> process_event (conn_state c) (peer (role c)) EndOfMessage = Inr (conn_state c')
    | _ \<Rightarrow> conn_state c' = conn_state c)"
  using assms(1)
proof (induction "length (input_bytes c)" arbitrary: c rule: less_induct)
  case less
  have rd: "cyc_reader (cycle c) \<noteq> ReadHead" using less.prems(1,3) by (simp add: conn_inv_def reader_phase_def)
  have poll: "poll_peer_state c = None" using less.prems(1) by (simp add: poll_peer_state_def)
  obtain c1 x where b: "read_body hp c = (c1, x)" by fastforce
  then have turn: "turn hp c = (c1, x)" by (simp add: turn_def poll)
  have s: "body_state c (c1, x)" using read_body_state [OF rd, of hp] b by simp
  show ?case
  proof (cases x)
    case None
    have c1: "role c1 = role c" "conn_state c1 = conn_state c" using s None by simp_all
    have "conn_inv c1" using read_body_ok [OF assms(2) less.prems(3)] b None by simp
    moreover have "peer_state c1 = SendBody" using less.prems(1) c1 by (simp add: peer_state_def)
    moreover have "length (input_bytes c1) < length (input_bytes c)" using read_body_shrinks b None by blast
    ultimately show ?thesis using less.hyps [of c1] less.prems(2) next_event_turn(1) turn None unfolding c1 by simp
  next
    case (Some y)
    with s turn less.prems(2) show ?thesis
      by (cases x rule: polled_result_cases) (auto simp: next_event_turn body_state_def split: Event.splits)
  qed
qed

lemma end_leaves_body: "process_event s r EndOfMessage = Inr t \<Longrightarrow> role_state t r \<noteq> SendBody"
  by (cases r) (auto simp: process_event_end_of_message accept_if_def settle_simps split: if_splits)

lemma polls_state:
  assumes "httparse_ok hp"
  shows "conn_inv c \<Longrightarrow> peer_state c = SendBody \<Longrightarrow> exec_run (transfer_step hp) (c, f, g) (replicate n Poll) = Some (c', f', g') \<Longrightarrow>
    if peer_state c' = SendBody then conn_state c' = conn_state c
    else process_event (conn_state c) (peer (role c)) EndOfMessage = Inr (conn_state c')"
proof (induction n arbitrary: c g)
  case (Suc n)
  obtain c1 res where r: "next_event hp c = (c1, res)" by fastforce
  have inv: "conn_inv c1" using next_event_safe [OF assms Suc.prems(1)] r by simp
  have go: "?case" if "role c1 = role c" "conn_state c1 = conn_state c"
    "exec_run (transfer_step hp) (c1, f, g1) (replicate n Poll) = Some (c', f', g')" for g1
    using Suc.IH [OF inv _ that(3), unfolded that(1,2)] Suc.prems(2) that(1,2) by (simp add: peer_state_def)
  from Suc.prems(2,3) r obtain ev where ev: "res = Inr ev" by (cases res) auto
  note st = next_event_state [OF Suc.prems(1) assms Suc.prems(2) r [unfolded ev]]
  show ?case
  proof (cases ev)
    case (NextEvent e)
    show ?thesis
    proof (cases e)
      case (EventEndOfMessage h)
      with st NextEvent have e: "role c1 = role c" "process_event (conn_state c) (peer (role c)) EndOfMessage = Inr (conn_state c1)" by auto
      then have "peer_state c1 \<noteq> SendBody" using end_leaves_body by (auto simp: peer_state_def)
      with Suc.prems(2,3) r ev NextEvent EventEndOfMessage e show ?thesis
        by (cases n) (auto split: if_splits)
    qed (use st NextEvent Suc.prems(2,3) r ev go in auto)
  qed (use st Suc.prems(2,3) r ev go in auto)
qed simp

lemma send_body_state: "send_body c ds = Some (c', out) \<Longrightarrow> role c' = role c \<and> conn_state c' = conn_state c"
proof (induction ds arbitrary: c out)
  case (Cons d ds)
  from Cons.prems obtain c1 p out1 where d: "send_data_framing c (length d) = (c1, Inr p)" and "send_body c1 ds = Some (c', out1)"
    by (auto simp: send_data_def split: prod.splits sum.splits option.splits)
  moreover from d have "role c1 = role c \<and> conn_state c1 = conn_state c"
    by (auto elim!: send_data_framing_Inr simp: clear_waiting_def set_writer_def)
  ultimately show ?case using Cons.IH by simp
qed simp

lemma send_message_body_state:
  assumes "send_message_body c ds h = Some (c', out)"
  shows "process_event (conn_state c) (role c) EndOfMessage = Inr (conn_state c')"
proof -
  from assms obtain c1 out1 out2 where b: "send_body c ds = Some (c1, out1)" and e: "end_of_message c1 h = (c', Inr out2)"
    by (auto simp: send_message_body_def split: option.splits prod.splits sum.splits)
  from e have "process_event (conn_state c1) (role c1) EndOfMessage = Inr (conn_state c')"
    by (rule end_of_message_Inr) (simp add: clear_waiting_def set_writer_def)
  with send_body_state [OF b] show ?thesis by simp
qed

lemma body_crosses:
  assumes "httparse_ok hp" and "empty_section_ok hp" and "conn_inv a" and "writer (cycle a) = Some b" and "b \<noteq> CloseDelimited"
    and "send_message_body a ds headers_new = Some (a', wire)" and "\<forall>d \<in> set ds. length d \<le> usize_max"
    and "conn_inv z" and "peer_state z = SendBody" and "cyc_reader (cycle z) = reader b" and "input_bytes z = wire @ rest"
    and "16 \<le> max_head_bytes (limits z)" and "slots_fit (max_header_count (limits z))" and "chunk_extension_bytes (cycle z) = 0"
    and "conn_state z = conn_state a" and "peer (role z) = role a"
  shows "\<exists>n z'. exec_run (transfer_step hp) (z, [], []) (replicate n Poll) = Some (z', [], concat ds)
     \<and> peer_state z' \<noteq> SendBody \<and> input_bytes z' = rest \<and> conn_state z' = conn_state a'"
proof -
  have pend: "pending (reader b) (wire @ rest) (concat ds) rest" using sent_is_pending [OF assms(3,4,6,7)] assms(5) by simp
  have "reader b \<noteq> ReadCloseDelimited" "scan_ok (reader b) d p" for d p
    using assms(5) by (cases b; simp add: reader_def scan_ok_def)+
  with assms(8-14) pend have rec: "receiving False z [] (concat ds) rest" by (simp add: receiving_def conn_inv_def)
  from transfer_completes [OF assms(2) this, of "[]"] obtain n z' where
    run: "exec_run (transfer_step hp) (z, [], []) (replicate n Poll) = Some (z', [], concat ds)" "peer_state z' \<noteq> SendBody" by auto
  have "transfer_inv False (concat ds) rest (z, [], [])" using rec assms(9) by auto
  from transfer_run_inv [OF assms(2) run(1) this] run(2) have "input_bytes z' = rest" by simp
  moreover have "conn_state z' = conn_state a'"
    using polls_state [OF assms(1,8,9) run(1)] run(2) send_message_body_state [OF assms(6)] assms(15,16) by simp
  ultimately show ?thesis using run by blast
qed

text \<open>
  C2: what a client sends as a request, the server reports as that request. If both ends agree
  on the state of their connection and the client can send a request and its body, in whatever
  pieces, the server, given all the bytes and whatever follows them, reports the method, the
  target, the version and the fields (Host first) that were sent; then, poll by poll, exactly
  the body; and at the end of the message both ends agree on the state again, with the
  bytes that follow unread. Of \<open>httparse\<close> only its grammar is assumed: heads of that grammar
  are read as their parts. The target is made of URI characters, and the fields, the head and
  the lines of the chunks (16 bytes) are within the limits of the server.
\<close>

theorem request_message_delivered:
  assumes "httparse_ok hp" and "httparse_incremental hp" and "empty_section_ok hp" and "httparse_reads_heads hp"
    and "conn_inv c" and "conn_inv s"
    and "send_request c r = (c1, Inr head)" and "method_ok (req_method r)" and "headers_inv (req_headers r)"
    and "list_all uri_char (req_target r)" and "length (headers_iter (req_headers r)) \<le> max_header_count (limits s)"
    and "slots_fit (max_header_count (limits s))"
    and "send_message_body c1 ds headers_new = Some (c2, wire)" and "\<forall>d \<in> set ds. length d \<le> usize_max"
    and "in_step c s" and "input_bytes s = []" and "\<not> eof s" and "cycle s = cycle_default"
    and "length head \<le> max_head_bytes (limits s)" and "16 \<le> max_head_bytes (limits s)"
  shows "\<exists>s1 r' n s2. next_event hp (fst (receive_data s (head @ wire @ rest))) = (s1, Inr (NextEvent (EventRequest r')))
     \<and> same_request r r' \<and> in_step c1 s1
     \<and> exec_run (transfer_step hp) (s1, [], []) (replicate n Poll) = Some (s2, [], concat ds)
     \<and> peer_state s2 \<noteq> SendBody \<and> input_bytes s2 = rest \<and> conn_state s2 = conn_state c2"
proof -
  from request_crosses [OF assms(1,2,4-12,15-19), of "wire @ rest"] obtain s1 r' b where
    h: "next_event hp (fst (receive_data s (head @ wire @ rest))) = (s1, Inr (NextEvent (EventRequest r')))" "same_request r r'"
      "in_step c1 s1" and
    b: "conn_inv c1" "writer (cycle c1) = Some b" "b \<noteq> CloseDelimited" and
    s1: "conn_inv s1" "peer_state s1 = SendBody" "cyc_reader (cycle s1) = reader b" "input_bytes s1 = wire @ rest"
      "limits s1 = limits s" "chunk_extension_bytes (cycle s1) = 0" by blast
  have "conn_state s1 = conn_state c1" "peer (role s1) = role c1" using h(3) by (simp_all add: in_step_def)
  from body_crosses [OF assms(1,3) b assms(13,14) s1(1-4) _ _ s1(6) this] assms(12,20) s1(5) h show ?thesis by auto
qed

theorem request_message_delivered_witness:
  "\<exists>s1 r' n s2. next_event plain_httparse (fst (receive_data (connection_new Server sample_limits) (sample_request @ sample_wire @ ''GET''))) =
       (s1, Inr (NextEvent (EventRequest r')))
     \<and> headers_iter (req_headers r') = [(''Host'', ''x''), (''Transfer-Encoding'', ''chunked'')]
     \<and> exec_run (transfer_step plain_httparse) (s1, [], []) (replicate n Poll) = Some (s2, [], ''hello'')
     \<and> input_bytes s2 = ''GET''"
proof -
  let ?c = "connection_new Client sample_limits" and ?s = "connection_new Server sample_limits"
  have p: "send_request ?c sample_post = (fst (send_request ?c sample_post), Inr sample_request)"
    using sample_post_facts(1) by (cases "send_request ?c sample_post") simp
  have inv: "conn_inv (fst (send_request ?c sample_post))" by (rule send_request_inv [OF conn_inv_new p])
  have "sample_wire = concat (map chunk_text [''he'', ''llo'']) @ write_headers (''0'' @ CRLF) headers_new @ CRLF" by code_simp
  with send_message_body_chunked [OF inv sample_post_facts(6) validate_no_trailers] obtain c2 where
    m: "send_message_body (fst (send_request ?c sample_post)) [''he'', ''llo''] headers_new = Some (c2, sample_wire)" by metis
  have l: "\<forall>d \<in> set [''he'', ''llo'']. length d \<le> usize_max" by (simp add: usize_max_def)
  have n: "length (headers_iter (req_headers sample_post)) \<le> max_header_count (limits ?s)" "slots_fit (max_header_count (limits ?s))"
    by (simp_all add: sample_post_def connection_new_def sample_limits_def slots_fit_iff)
  have s: "input_bytes ?s = []" "\<not> eof ?s" "cycle ?s = cycle_default" "length sample_request \<le> max_head_bytes (limits ?s)"
    "16 \<le> max_head_bytes (limits ?s)"
    by (simp_all add: connection_new_def sample_limits_def sample_lengths)
  from request_message_delivered [OF plain_httparse_ok plain_httparse_incremental plain_empty_section plain_reads_heads conn_inv_new conn_inv_new p
    sample_post_facts(4,3,2) n m l sample_post_facts(5) s, of "''GET''"] sample_post_facts(7)
  show ?thesis by (auto simp: same_request_def)
qed



end
