(* ===== verification/H11r_Fuzz.thy ===== *)
theory H11r_Fuzz
  imports H11r_Arrival
begin

text \<open>
  The fuzz targets of \<open>fuzz/fuzz_targets\<close>: their helpers in \<open>common/mod.rs\<close>, the target
  that receives arbitrary bytes (\<open>h11r_receive.rs\<close>) and the one that compares deliveries cut
  in different ways (\<open>h11r_fragmentation.rs\<close>). A panic, of an \<open>unwrap\<close>, of an assertion or of
  an exhausted budget, is \<open>None\<close>; a target that never fails is a theorem here.
\<close>

unbundle bit_operations_syntax

section \<open>Helpers of the targets\<close>

definition MAX_EVENTS :: nat where "MAX_EVENTS = 32"

definition saturating_add :: "nat \<Rightarrow> nat \<Rightarrow> nat" where
  "saturating_add a b = min (a + b) usize_max"

text \<open>The control byte, a \<open>u8\<close>, is given as its number.\<close>

definition seed_wire :: "Role \<Rightarrow> nat \<Rightarrow> bytes" where
  "seed_wire r control =
     (if r = Client then
        (if control AND 3 = 1 then ''HTTP/1.1 200 OK'' @ CRLF @ ''Content-Length: 4'' @ CRLF @ CRLF
         else if control AND 3 = 2 then ''HTTP/1.1 200 Connection Established'' @ CRLF @ CRLF
         else if control AND 3 = 3 then
           ''HTTP/1.1 101 Switching Protocols'' @ CRLF @ ''Connection: upgrade'' @ CRLF @ ''Upgrade: next-protocol'' @ CRLF @ CRLF
         else ''HTTP/1.1 200 OK'' @ CRLF @ ''Content-Length: 4'' @ CRLF @ CRLF @ ''body'')
      else
        (if control AND 3 = 1 then
           ''POST / HTTP/1.1'' @ CRLF @ ''Host: example.test'' @ CRLF @ ''Content-Length: 4'' @ CRLF @ CRLF @ ''body''
         else if control AND 3 = 2 then
           ''POST / HTTP/1.1'' @ CRLF @ ''Host: example.test'' @ CRLF @ ''Transfer-Encoding: chunked'' @ CRLF @ CRLF
             @ ''4'' @ CRLF @ ''body'' @ CRLF @ ''0'' @ CRLF @ CRLF
         else if control AND 3 = 3 then
           ''POST / HTTP/1.1'' @ CRLF @ ''Host: example.test'' @ CRLF @ ''Transfer-Encoding: chunked'' @ CRLF
             @ ''Content-Length: 4'' @ CRLF @ CRLF @ ''body''
         else ''GET / HTTP/1.1'' @ CRLF @ ''Host: example.test'' @ CRLF @ CRLF))"

definition client_request :: "nat \<Rightarrow> Request option" where
  "client_request control =
     (case (if control AND 3 = 1 then (''HEAD'', headers_from [(''Host'', ''example.test'')])
            else if control AND 3 = 2 then (''CONNECT'', headers_from [(''Host'', ''example.test:443'')])
            else if control AND 3 = 3 then
              (''GET'', headers_from [(''Host'', ''example.test''), (''Connection'', ''upgrade''), (''Upgrade'', ''next-protocol'')])
            else (''GET'', headers_from [(''Host'', ''example.test'')])) of
        (method, headers) \<Rightarrow>
          (case method_from_bytes method of
             Inl _ \<Rightarrow> None
           | Inr m \<Rightarrow> Some \<lparr>req_method = m,
               req_target = (if method = ''CONNECT'' then ''example.test:443'' else ''/''),
               req_headers = headers, req_version = Http11\<rparr>))"

text \<open>\<open>None\<close> is a panic, of an \<open>unwrap\<close> or another.\<close>

definition unwrap :: "Connection \<times> ('e + 'a) \<Rightarrow> (Connection \<times> 'a) option" where
  "unwrap x = (case x of (c, Inl _) \<Rightarrow> None | (c, Inr v) \<Rightarrow> Some (c, v))"

definition fuzz_limits :: "nat \<Rightarrow> Limits option" where
  "fuzz_limits control =
     (if control AND 0x80 = 0 then Some limits_default
      else case limits_new 512 8 of Inl _ \<Rightarrow> None | Inr l \<Rightarrow> Some l)"

definition fuzz_request :: "nat \<Rightarrow> Connection \<Rightarrow> Connection option" where
  "fuzz_request control c =
     do {
       request \<leftarrow> client_request control;
       (c, _) \<leftarrow> unwrap (send_request c request);
       if control AND 3 = 3 then do {
         (c, _) \<leftarrow> unwrap (end_of_message c headers_new);
         Some c
       } else Some c
     }"

definition fuzz_connection :: "Role \<Rightarrow> nat \<Rightarrow> Connection option" where
  "fuzz_connection r control =
     do {
       limits \<leftarrow> fuzz_limits control;
       let c = connection_new r limits;
       let c = (if control AND 0x20 \<noteq> 0 then make_lenient c else c);
       if r = Client then fuzz_request control c else Some c
     }"

datatype Terminal = Complete | TerminalError "nat option"

record Outcome =
  oc_terminal :: Terminal
  oc_events :: "Event list"
  oc_body :: bytes
  oc_states :: "State \<times> State"
  oc_trailing :: bytes

definition detach :: "Event \<Rightarrow> Event option" where
  "detach e = (case e of EventData _ _ _ \<Rightarrow> None | _ \<Rightarrow> Some e)"

type_synonym polling = "Connection \<times> Event list \<times> bytes"

fun fuzz_poll :: "httparse \<Rightarrow> nat \<Rightarrow> polling \<Rightarrow> (polling \<times> Terminal) option" where
  "fuzz_poll hp 0 (c, events, body) = None"
| "fuzz_poll hp (Suc budget) (c, events, body) =
     (case next_event hp c of
        (c1, Inr (NextEvent (EventData d _ _))) \<Rightarrow> fuzz_poll hp budget (c1, events, body @ d)
      | (c1, Inr (NextEvent event)) \<Rightarrow>
          do {
            stored \<leftarrow> detach event;
            if event = EventConnectionClosed then Some ((c1, events @ [stored], body), Complete)
            else fuzz_poll hp budget (c1, events @ [stored], body)
          }
      | (c1, Inr NeedData) \<Rightarrow> Some ((c1, events, body), Complete)
      | (c1, Inr Paused) \<Rightarrow> Some ((c1, events, body), Complete)
      | (c1, Inl (Remote e)) \<Rightarrow> Some ((c1, events, body), TerminalError (suggested_status_code e))
      | (c1, Inl Panic) \<Rightarrow> None)"

definition finish :: "polling \<Rightarrow> Terminal \<Rightarrow> Outcome" where
  "finish p t =
     (case p of (c, events, body) \<Rightarrow>
        \<lparr>oc_terminal = t, oc_events = events, oc_body = body,
         oc_states = (local_state c, peer_state c), oc_trailing = fst (trailing_data c)\<rparr>)"

section \<open>Delivering in pieces\<close>

text \<open>The loop over the chunks that \<open>run\<close> and the receiving target have.\<close>

fun poll_chunks :: "httparse \<Rightarrow> nat \<Rightarrow> bytes list \<Rightarrow> polling \<Rightarrow> (polling \<times> Terminal) option" where
  "poll_chunks hp budget [] p = Some (p, Complete)"
| "poll_chunks hp budget (chunk # chunks) (c, events, body) =
     do {
       (c, _) \<leftarrow> unwrap (receive_data c chunk);
       (p, t) \<leftarrow> fuzz_poll hp budget (c, events, body);
       case t of Complete \<Rightarrow> poll_chunks hp budget chunks p | TerminalError _ \<Rightarrow> Some (p, t)
     }"

definition poll_eof :: "httparse \<Rightarrow> nat \<Rightarrow> polling \<Rightarrow> (polling \<times> Terminal) option" where
  "poll_eof hp budget p =
     (case p of (c, events, body) \<Rightarrow>
        do {
          (c, _) \<leftarrow> unwrap (receive_data c []);
          fuzz_poll hp budget (c, events, body)
        })"

definition deliver :: "httparse \<Rightarrow> nat \<Rightarrow> bytes list \<Rightarrow> Connection \<Rightarrow> Outcome option" where
  "deliver hp budget chunks c =
     do {
       (p, t) \<leftarrow> poll_chunks hp budget chunks (c, [], []);
       (p, t) \<leftarrow> (case t of Complete \<Rightarrow> poll_eof hp budget p | TerminalError _ \<Rightarrow> Some (p, t));
       Some (finish p t)
     }"

text \<open>Events and body that came before what a settlement says.\<close>

fun prepend :: "Event list \<Rightarrow> bytes \<Rightarrow> settlement \<Rightarrow> settlement" where
  "prepend es b (Settled es' b' states rest) = Settled (es @ es') (b @ b') states rest"
| "prepend es b (Failed status) = Failed status"

lemma prepend_simps [simp]: "prepend [] [] s = s" "prepend es b (prepend es' b' s) = prepend (es @ es') (b @ b') s"
  by (cases s; simp)+

lemma adding_prepend:
  "adding (Inr (NextEvent (EventData d x y))) s = prepend [] d s"
  "\<forall>d x y. e \<noteq> EventData d x y \<Longrightarrow> adding (Inr (NextEvent e)) s = prepend [e] [] s"
proof -
  show "adding (Inr (NextEvent (EventData d x y))) s = prepend [] d s" by (cases s) simp_all
  show "adding (Inr (NextEvent e)) s = prepend [e] [] s" if "\<forall>d x y. e \<noteq> EventData d x y"
    using adding_event [OF that] by (cases s) simp_all
qed

fun settlement_of :: "polling \<Rightarrow> Terminal \<Rightarrow> settlement" where
  "settlement_of (c, es, b) Complete = Settled es b (local_state c, peer_state c) (input_bytes c)"
| "settlement_of (c, es, b) (TerminalError status) = Failed status"

lemma fuzz_poll_step:
  "fuzz_poll hp (Suc n) (c, es, b) =
     (case next_event hp c of (c1, res) \<Rightarrow>
        (case res of
           Inr (NextEvent e) \<Rightarrow>
             (case e of EventData d x y \<Rightarrow> fuzz_poll hp n (c1, es, b @ d)
              | EventConnectionClosed \<Rightarrow> Some ((c1, es @ [e], b), Complete)
              | _ \<Rightarrow> fuzz_poll hp n (c1, es @ [e], b))
         | Inr _ \<Rightarrow> Some ((c1, es, b), Complete)
         | Inl (Remote e) \<Rightarrow> Some ((c1, es, b), TerminalError (suggested_status_code e))
         | Inl Panic \<Rightarrow> None))"
proof -
  obtain c1 res where r: "next_event hp c = (c1, res)" by fastforce
  show ?thesis
  proof (cases res)
    case (Inl e)
    with r show ?thesis by (cases e) simp_all
  next
    case (Inr ne)
    show ?thesis
    proof (cases ne)
      case (NextEvent e)
      with r Inr show ?thesis by (cases e) (simp_all add: detach_def)
    qed (use r Inr in simp_all)
  qed
qed

lemma next_event_cases:
  obtains (data) d x y where "res = Inr (NextEvent (EventData d x y))" | (closed) "res = Inr (NextEvent EventConnectionClosed)"
    | (event) e where "res = Inr (NextEvent e)" "e \<noteq> EventConnectionClosed" "\<forall>d x y. e \<noteq> EventData d x y"
    | (waits) "res = Inr NeedData \<or> res = Inr Paused" | (fails) e where "res = Inl (Remote e)" | (panics) "res = Inl Panic"
  by (metis sum.exhaust NextEvent.exhaust recv_error.exhaust)

lemma fuzz_poll_event:
  assumes "next_event hp c = (c1, Inr (NextEvent e))" and "e \<noteq> EventConnectionClosed" and "\<forall>d x y. e \<noteq> EventData d x y"
  shows "fuzz_poll hp (Suc n) (c, es, b) = fuzz_poll hp n (c1, es @ [e], b)"
  using assms by (cases e) (auto simp: fuzz_poll_step simp del: fuzz_poll.simps)

lemma early_poll_settles:
  assumes "httparse_ok hp" and "httparse_incremental hp" and "early c" and "next_event hp c = (c1, res)"
    and "ahead x c d" and "\<exists>r. res = Inr r \<Longrightarrow> ahead x c1 d1 \<and> settles hp d1 s"
  shows "settles hp d (adding res s)"
  using early_poll [OF assms(1-4)] assms(5,6) by metis

lemma fuzz_poll_early:
  assumes "httparse_ok hp" and "httparse_incremental hp"
  shows "early c \<Longrightarrow> fuzz_poll hp n (c, es, b) = Some ((c', es', b'), t) \<Longrightarrow>
    \<exists>es1 b1. es' = es @ es1 \<and> b' = b @ b1 \<and> (t = Complete \<longrightarrow> early c')
      \<and> (\<forall>x d s. ahead x c d \<longrightarrow> (t = Complete \<longrightarrow> (\<exists>d1. ahead x c' d1 \<and> settles hp d1 s)) \<longrightarrow>
           settles hp d (case t of Complete \<Rightarrow> prepend es1 b1 s | TerminalError status \<Rightarrow> Failed status))"
proof (induction n arbitrary: c es b)
  case (Suc n)
  obtain c1 res where r: "next_event hp c = (c1, res)" by fastforce
  note ep = early_poll [OF assms Suc.prems(1) r]
  have more: ?case if nxt: "early c1" "fuzz_poll hp n (c1, es @ es0, b @ b0) = Some ((c', es', b'), t)"
    and "\<And>s. adding res s = prepend es0 b0 s" and "\<exists>r. res = Inr r" for es0 b0
  proof -
    obtain es1 b1 where IH: "es' = es @ es0 @ es1" "b' = b @ b0 @ b1" "t = Complete \<longrightarrow> early c'"
      "\<And>x d s. ahead x c1 d \<Longrightarrow> t = Complete \<longrightarrow> (\<exists>d1. ahead x c' d1 \<and> settles hp d1 s) \<Longrightarrow>
           settles hp d (case t of Complete \<Rightarrow> prepend es1 b1 s | TerminalError status \<Rightarrow> Failed status)"
      using Suc.IH [OF nxt] by auto
    have "settles hp d (case t of Complete \<Rightarrow> prepend (es0 @ es1) (b0 @ b1) s | TerminalError status \<Rightarrow> Failed status)"
      if "ahead x c d" "t = Complete \<longrightarrow> (\<exists>d1. ahead x c' d1 \<and> settles hp d1 s)" for x d s
    proof -
      obtain d1 where d1: "ahead x c1 d1" using ahead_exists by blast
      from IH(4) [OF this that(2)] have "settles hp d (adding res (case t of Complete \<Rightarrow> prepend es1 b1 s | TerminalError status \<Rightarrow> Failed status))"
        using early_poll_settles [OF assms Suc.prems(1) r that(1)] d1 by blast
      then show ?thesis using \<open>\<And>s. adding res s = prepend es0 b0 s\<close> by (cases t) simp_all
    qed
    with IH(1-3) show ?thesis by (intro exI [of _ "es0 @ es1"] exI [of _ "b0 @ b1"]) auto
  qed
  show ?case
  proof (cases res rule: next_event_cases)
    case (data d x y)
    with Suc.prems(2) r have "fuzz_poll hp n (c1, es @ [], b @ d) = Some ((c', es', b'), t)"
      by (simp add: fuzz_poll_step del: fuzz_poll.simps)
    moreover have "adding res s = prepend [] d s" for s unfolding data by (rule adding_prepend(1))
    ultimately show ?thesis using ep data by (intro more [of "[]" d]) simp_all
  next
    case (event e)
    with Suc.prems(2) r fuzz_poll_event [of hp c c1 e n es b]
    have "fuzz_poll hp n (c1, es @ [e], b @ []) = Some ((c', es', b'), t)" by (simp del: fuzz_poll.simps)
    moreover have "adding res s = prepend [e] [] s" for s unfolding event(1) by (rule adding_prepend(2) [OF event(3)])
    ultimately show ?thesis using ep event by (intro more [of "[e]" "[]"]) simp_all
  next
    case waits
    with Suc.prems(2) r have t: "c' = c1" "es' = es" "b' = b" "t = Complete" by (auto simp: fuzz_poll_step simp del: fuzz_poll.simps)
    have "adding res s = s" for s using waits by auto
    with ep waits t show ?thesis by (intro exI [of _ "[]"]) auto
  next
    case (fails e)
    with Suc.prems(2) r have t: "es' = es" "b' = b" "t = TerminalError (suggested_status_code e)"
      by (auto simp: fuzz_poll_step simp del: fuzz_poll.simps)
    with ep fails show ?thesis by (intro exI [of _ "[]"]) auto
  qed (use ep in auto)
qed simp


lemma fuzz_poll_settles:
  assumes "httparse_ok hp"
  shows "conn_inv c \<Longrightarrow> fuzz_poll hp n (c, es, b) = Some ((c', es', b'), t) \<Longrightarrow>
    \<exists>es1 b1. es' = es @ es1 \<and> b' = b @ b1 \<and> settles hp c (settlement_of (c', es1, b1) t)"
proof (induction n arbitrary: c es b)
  case (Suc n)
  obtain c1 res where r: "next_event hp c = (c1, res)" by fastforce
  have inv: "conn_inv c1" using next_event_safe [OF assms Suc.prems(1)] r by simp
  note settled = poll_settles [OF assms Suc.prems(1) r]
  have more: ?case if nxt: "fuzz_poll hp n (c1, es @ es0, b @ b0) = Some ((c', es', b'), t)"
    and add: "\<And>s. adding res s = prepend es0 b0 s" and "\<exists>e. res = Inr (NextEvent e) \<and> e \<noteq> EventConnectionClosed" for es0 b0
  proof -
    obtain es1 b1 where IH: "es' = es @ es0 @ es1" "b' = b @ b0 @ b1" "settles hp c1 (settlement_of (c', es1, b1) t)"
      using Suc.IH [OF inv nxt] by auto
    moreover have "prepend es0 b0 (settlement_of (c', es1, b1) t) = settlement_of (c', es0 @ es1, b0 @ b1) t" by (cases t) simp_all
    ultimately show ?thesis
      using settled(1) [OF that(3) IH(3)] add by (intro exI [of _ "es0 @ es1"] exI [of _ "b0 @ b1"]) simp
  qed
  show ?case
  proof (cases res rule: next_event_cases)
    case (data d x y)
    with Suc.prems(2) r have "fuzz_poll hp n (c1, es @ [], b @ d) = Some ((c', es', b'), t)"
      by (simp add: fuzz_poll_step del: fuzz_poll.simps)
    moreover have "adding res s = prepend [] d s" for s unfolding data by (rule adding_prepend(1))
    ultimately show ?thesis using data by (intro more [of "[]" d]) simp_all
  next
    case (event e)
    with Suc.prems(2) r fuzz_poll_event [of hp c c1 e n es b]
    have "fuzz_poll hp n (c1, es @ [e], b @ []) = Some ((c', es', b'), t)" by (simp del: fuzz_poll.simps)
    moreover have "adding res s = prepend [e] [] s" for s unfolding event(1) by (rule adding_prepend(2) [OF event(3)])
    ultimately show ?thesis using event by (intro more [of "[e]" "[]"]) simp_all
  next
    case waits
    with Suc.prems(2) r settled(3) show ?thesis
      by (auto simp: fuzz_poll_step as_it_stands_def simp del: fuzz_poll.simps)
  next
    case closed
    with Suc.prems(2) r settled(2) show ?thesis
      by (auto simp: fuzz_poll_step as_it_stands_def simp del: fuzz_poll.simps)
  next
    case (fails e)
    with Suc.prems(2) r settled(4) show ?thesis by (auto simp: fuzz_poll_step simp del: fuzz_poll.simps)
  qed (use Suc.prems(2) r in \<open>simp add: fuzz_poll_step del: fuzz_poll.simps\<close>)
qed simp

text \<open>Enough polls: one for each event, one for each unread byte, and a last one.\<close>

lemma next_event_unread:
  assumes "httparse_ok hp" and "next_event hp c = (c', x)"
  shows "unread c' \<le> unread c"
proof -
  obtain c1 r where r: "next_event_inner hp c = (c1, r)" by fastforce
  with next_event_inner_progress [OF assms(1), of c] have "unread c1 \<le> unread c" by (simp add: poll_progress_def)
  with assms(2) r show ?thesis
    by (auto simp: next_event_def poison_peer_def buffer_take_eq Let_def split: sum.splits Polled.splits recv_error.splits)
qed

lemma fuzz_poll_total:
  assumes "httparse_ok hp"
  shows "conn_inv c \<Longrightarrow> roomy c \<Longrightarrow> poll_rank c < n \<Longrightarrow>
    \<exists>c' es' b' t. fuzz_poll hp n (c, es, b) = Some ((c', es', b'), t) \<and> conn_inv c' \<and> unread c' \<le> unread c"
proof (induction n arbitrary: c es b)
  case (Suc n)
  obtain c1 res where r: "next_event hp c = (c1, res)" by fastforce
  have inv: "conn_inv c1" "roomy c1" "unread c1 \<le> unread c" "res \<noteq> Inl Panic"
    using next_event_ok [OF assms Suc.prems(1,2)] r next_event_unread [OF assms r] by auto
  have more: "\<exists>c' es' b' t. fuzz_poll hp n (c1, es0, b0) = Some ((c', es', b'), t) \<and> conn_inv c' \<and> unread c' \<le> unread c"
    if "res = Inr (NextEvent e)" "e \<noteq> EventConnectionClosed" for e es0 b0
    using next_event_lowers [OF assms Suc.prems(1), of c1 e] that r Suc.prems(3) Suc.IH [OF inv(1,2), of es0 b0] inv(3)
    by fastforce
  show ?case
  proof (cases res rule: next_event_cases)
    case (data d x y)
    with more r show ?thesis by (simp add: fuzz_poll_step del: fuzz_poll.simps)
  next
    case (event e)
    with more r fuzz_poll_event [of hp c c1 e n es b] show ?thesis by (simp del: fuzz_poll.simps)
  qed (use r inv in \<open>auto simp add: fuzz_poll_step simp del: fuzz_poll.simps\<close>)
qed simp


lemma receive_early:
  assumes "early c" and "x \<noteq> []"
  shows "receive_data c x = (c\<lparr>conn_input := buffer_extend (conn_input c) x\<rparr>, Inr ())"
    and "early (c\<lparr>conn_input := buffer_extend (conn_input c) x\<rparr>)"
    and "input_bytes (c\<lparr>conn_input := buffer_extend (conn_input c) x\<rparr>) = input_bytes c @ x"
    and "ahead y (c\<lparr>conn_input := buffer_extend (conn_input c) x\<rparr>) d \<longleftrightarrow> ahead (x @ y) c d"
proof -
  have inv: "buffer_inv (conn_input c)" using earlyD(2) [OF assms(1)] by (simp add: conn_inv_def conn_base_def)
  show r: "receive_data c x = (c\<lparr>conn_input := buffer_extend (conn_input c) x\<rparr>, Inr ())"
    using earlyD(3) [OF assms(1)] assms(2) by (simp add: receive_data_def)
  show i: "input_bytes (c\<lparr>conn_input := buffer_extend (conn_input c) x\<rparr>) = input_bytes c @ x" using inv by simp
  show "early (c\<lparr>conn_input := buffer_extend (conn_input c) x\<rparr>)"
    using receive_data_inv [OF earlyD(2) [OF assms(1)], of x] r assms(1) i
    by (auto simp: early_def peer_state_def roomy_def) (meson diff_le_self le_trans trans_le_add1)?
  have "swap b p (c\<lparr>conn_input := buffer_extend (conn_input c) x\<rparr>) = swap b p c" for b p by (simp add: swap_def)
  then show "ahead y (c\<lparr>conn_input := buffer_extend (conn_input c) x\<rparr>) d \<longleftrightarrow> ahead (x @ y) c d"
    using i by (simp add: ahead_def)
qed

lemma poll_chunks_settles:
  assumes "httparse_ok hp" and "httparse_incremental hp"
  shows "early c \<Longrightarrow> \<forall>x \<in> set chunks. x \<noteq> [] \<Longrightarrow> poll_chunks hp n chunks (c, es, b) = Some ((c', es', b'), t) \<Longrightarrow>
    \<exists>es1 b1. es' = es @ es1 \<and> b' = b @ b1 \<and> (t = Complete \<longrightarrow> early c')
      \<and> (\<forall>x d s. ahead (concat chunks @ x) c d \<longrightarrow> (t = Complete \<longrightarrow> (\<exists>d1. ahead x c' d1 \<and> settles hp d1 s)) \<longrightarrow>
           settles hp d (case t of Complete \<Rightarrow> prepend es1 b1 s | TerminalError status \<Rightarrow> Failed status))"
proof (induction chunks arbitrary: c es b)
  case Nil
  have "settles hp d s" if "ahead x c d" "ahead x c d1" "settles hp d1 s" for x d d1 s
    using that ahead_akin akin_settles ahead_simps(2) by blast
  with Nil show ?case by auto
next
  case (Cons chunk chunks)
  let ?c = "c\<lparr>conn_input := buffer_extend (conn_input c) chunk\<rparr>"
  have chunk: "chunk \<noteq> []" using Cons.prems(2) by simp
  note recv = receive_early [OF Cons.prems(1) chunk]
  obtain c1 es1 b1 t1 where p: "fuzz_poll hp n (?c, es, b) = Some ((c1, es1, b1), t1)"
    and rest: "(case t1 of Complete \<Rightarrow> poll_chunks hp n chunks (c1, es1, b1) | TerminalError _ \<Rightarrow> Some ((c1, es1, b1), t1)) = Some ((c', es', b'), t)"
    using Cons.prems(3) recv(1) by (auto simp: unwrap_def bind_eq_Some_conv)
  from fuzz_poll_early [OF assms recv(2) p] obtain es2 b2 where
    e2: "es1 = es @ es2" "b1 = b @ b2" "t1 = Complete \<longrightarrow> early c1"
      "\<And>x d s. ahead x ?c d \<Longrightarrow> (t1 = Complete \<longrightarrow> (\<exists>d1. ahead x c1 d1 \<and> settles hp d1 s)) \<Longrightarrow>
         settles hp d (case t1 of Complete \<Rightarrow> prepend es2 b2 s | TerminalError status \<Rightarrow> Failed status)" by blast
  show ?case
  proof (cases t1)
    case (TerminalError status)
    with rest e2 recv(4) show ?thesis by (intro exI [of _ es2] exI [of _ b2]) auto
  next
    case Complete
    with rest e2(3) Cons.IH [of c1 es1 b1] Cons.prems(2) obtain es3 b3 where
      e3: "es' = es1 @ es3" "b' = b1 @ b3" "t = Complete \<longrightarrow> early c'"
        "\<And>x d s. ahead (concat chunks @ x) c1 d \<Longrightarrow> (t = Complete \<longrightarrow> (\<exists>d1. ahead x c' d1 \<and> settles hp d1 s)) \<Longrightarrow>
           settles hp d (case t of Complete \<Rightarrow> prepend es3 b3 s | TerminalError status \<Rightarrow> Failed status)" by auto
    have "settles hp d (case t of Complete \<Rightarrow> prepend (es2 @ es3) (b2 @ b3) s | TerminalError status \<Rightarrow> Failed status)"
      if "ahead (concat (chunk # chunks) @ x) c d" "t = Complete \<longrightarrow> (\<exists>d1. ahead x c' d1 \<and> settles hp d1 s)" for x d s
    proof -
      let ?s = "case t of Complete \<Rightarrow> prepend es3 b3 s | TerminalError status \<Rightarrow> Failed status"
      obtain d1 where d1: "ahead (concat chunks @ x) c1 d1" using ahead_exists by blast
      from e3(4) [OF this that(2)] d1 have "settles hp d (prepend es2 b2 ?s)"
        using e2(4) [of "concat chunks @ x" d ?s] that(1) recv(4) Complete by auto
      then show ?thesis by (cases t) simp_all
    qed
    with e2 e3 Complete show ?thesis by (intro exI [of _ "es2 @ es3"] exI [of _ "b2 @ b3"]) auto
  qed
qed

definition outcome_settlement :: "Outcome \<Rightarrow> settlement" where
  "outcome_settlement r =
     (case oc_terminal r of
        Complete \<Rightarrow> Settled (oc_events r) (oc_body r) (oc_states r) (oc_trailing r)
      | TerminalError status \<Rightarrow> Failed status)"

lemma outcome_finish: "outcome_settlement (finish (c, es, b) t) = settlement_of (c, es, b) t"
  by (cases t) (simp_all add: finish_def trailing_data_def outcome_settlement_def)

lemma poll_eof_settles:
  assumes "httparse_ok hp" and "early c" and "poll_eof hp n (c, es, b) = Some ((c', es', b'), t)"
  shows "\<exists>d es1 b1. ahead [] c d \<and> es' = es @ es1 \<and> b' = b @ b1 \<and> settles hp d (settlement_of (c', es1, b1) t)"
proof -
  have "receive_data c [] = (record_eof c, Inr ())" using earlyD(3) [OF assms(2)] by (simp add: receive_data_def)
  moreover have "conn_inv (record_eof c)" using receive_data_inv [OF earlyD(2) [OF assms(2)], of "[]"] by (simp add: receive_data_def)
  moreover have "ahead [] c (record_eof c)" using aheadI [of "conn_input c" c "[]" "progress (cycle c)"] by simp
  ultimately show ?thesis
    using fuzz_poll_settles [OF assms(1), of "record_eof c" n es b c' es' b' t] assms(3)
    by (auto simp: poll_eof_def unwrap_def)
qed

theorem deliver_settles:
  assumes "httparse_ok hp" and "httparse_incremental hp" and "early c" and "\<forall>x \<in> set chunks. x \<noteq> []"
    and "deliver hp n chunks c = Some r" and "ahead (concat chunks) c d"
  shows "settles hp d (outcome_settlement r)"
proof -
  obtain c1 es1 b1 t1 where p: "poll_chunks hp n chunks (c, [], []) = Some ((c1, es1, b1), t1)"
    using assms(5) by (auto simp: deliver_def bind_eq_Some_conv)
  have "ahead (concat chunks @ []) c d" using assms(6) by simp
  with poll_chunks_settles [OF assms(1-4) p, unfolded append_Nil] have chunks: "t1 = Complete \<longrightarrow> early c1"
    "\<And>s. t1 = Complete \<longrightarrow> (\<exists>d1. ahead [] c1 d1 \<and> settles hp d1 s) \<Longrightarrow>
       settles hp d (case t1 of Complete \<Rightarrow> prepend es1 b1 s | TerminalError status \<Rightarrow> Failed status)"
    by blast+
  show ?thesis
  proof (cases t1)
    case (TerminalError status)
    with p assms(5) have "r = finish (c1, es1, b1) t1" by (simp add: deliver_def)
    with TerminalError chunks(2) show ?thesis by (simp add: outcome_finish)
  next
    case Complete
    with p assms(5) obtain c2 es2 b2 t2 where e: "poll_eof hp n (c1, es1, b1) = Some ((c2, es2, b2), t2)"
      "r = finish (c2, es2, b2) t2" by (auto simp: deliver_def bind_eq_Some_conv)
    from poll_eof_settles [OF assms(1) _ e(1)] chunks(1) Complete obtain d1 es3 b3 where
      "ahead [] c1 d1" "es2 = es1 @ es3" "b2 = b1 @ b3" "settles hp d1 (settlement_of (c2, es3, b3) t2)" by blast
    moreover from this(1,4) chunks(2) Complete have "settles hp d (prepend es1 b1 (settlement_of (c2, es3, b3) t2))" by auto
    moreover have "prepend es1 b1 (settlement_of (c2, es3, b3) t2) = settlement_of (c2, es1 @ es3, b1 @ b3) t2" by (cases t2) simp_all
    ultimately show ?thesis by (simp add: e(2) outcome_finish)
  qed
qed


lemma poll_rank_less: "2 * (unread c + k) + 2 \<le> n \<Longrightarrow> poll_rank c < n"
  by (simp add: poll_rank_def of_bool_def)

lemma poll_chunks_total:
  assumes "httparse_ok hp" and "httparse_incremental hp"
  shows "early c \<Longrightarrow> \<forall>x \<in> set chunks. x \<noteq> [] \<Longrightarrow> 2 * (unread c + length (concat chunks)) + 2 \<le> n \<Longrightarrow>
    \<exists>c' es' b' t. poll_chunks hp n chunks (c, es, b) = Some ((c', es', b'), t) \<and> 2 * unread c' + 2 \<le> n
      \<and> (t = Complete \<longrightarrow> early c')"
proof (induction chunks arbitrary: c es b)
  case (Cons chunk chunks)
  let ?c = "c\<lparr>conn_input := buffer_extend (conn_input c) chunk\<rparr>"
  have chunk: "chunk \<noteq> []" using Cons.prems(2) by simp
  note recv = receive_early [OF Cons.prems(1) chunk]
  have n: "2 * (unread ?c + length (concat chunks)) + 2 \<le> n" using Cons.prems(3) recv(3) by simp
  then have "poll_rank ?c < n" by (rule poll_rank_less)
  from fuzz_poll_total [OF assms(1) earlyD(2,6) [OF recv(2)] this] obtain c1 es1 b1 t1 where
    p: "fuzz_poll hp n (?c, es, b) = Some ((c1, es1, b1), t1)" and u: "unread c1 \<le> unread ?c" by blast
  have early: "t1 = Complete \<longrightarrow> early c1" using fuzz_poll_early [OF assms recv(2) p] by blast
  show ?case
  proof (cases t1)
    case (TerminalError status)
    moreover have "unread c1 \<le> unread c + length chunk" using u recv(3) by (metis length_append)
    then have "2 * unread c1 + 2 \<le> n" using Cons.prems(3) by simp
    ultimately show ?thesis using p recv(1) by (simp add: unwrap_def)
  next
    case Complete
    have "unread c1 \<le> unread c + length chunk" using u recv(3) by (metis length_append)
    then have "2 * (unread c1 + length (concat chunks)) + 2 \<le> n" using Cons.prems(3) by simp
    with Cons.IH [of c1 es1 b1] Complete early Cons.prems(2) p recv(1) show ?thesis by (simp add: unwrap_def)
  qed
qed simp

lemma poll_eof_total:
  assumes "httparse_ok hp" and "early c" and "2 * unread c + 2 \<le> n"
  shows "\<exists>p t. poll_eof hp n (c, es, b) = Some (p, t)"
proof -
  have recv: "receive_data c [] = (record_eof c, Inr ())" using earlyD(3) [OF assms(2)] by (simp add: receive_data_def)
  then have inv: "conn_inv (record_eof c)" using receive_data_inv [OF earlyD(2) [OF assms(2)], of "[]"] by simp
  have "poll_rank (record_eof c) < n" using assms(3) by (intro poll_rank_less [where k = 0]) simp
  moreover have "roomy (record_eof c)" using earlyD(6) [OF assms(2)] by (simp add: roomy_def)
  ultimately show ?thesis using fuzz_poll_total [OF assms(1) inv] recv by (force simp: poll_eof_def unwrap_def)
qed

theorem deliver_total:
  assumes "httparse_ok hp" and "httparse_incremental hp" and "early c" and "\<forall>x \<in> set chunks. x \<noteq> []"
    and "2 * (unread c + length (concat chunks)) + 2 \<le> n"
  shows "\<exists>r. deliver hp n chunks c = Some r"
proof -
  obtain c1 es1 b1 t1 where p: "poll_chunks hp n chunks (c, [], []) = Some ((c1, es1, b1), t1)"
    "2 * unread c1 + 2 \<le> n" "t1 = Complete \<longrightarrow> early c1"
    using poll_chunks_total [OF assms] by blast
  show ?thesis
  proof (cases t1)
    case Complete
    with p poll_eof_total [OF assms(1) _ p(2), of es1 b1] show ?thesis by (auto simp: deliver_def)
  qed (use p in \<open>simp add: deliver_def\<close>)
qed

section \<open>The targets\<close>

function chunks :: "nat \<Rightarrow> bytes \<Rightarrow> bytes list" where
  "chunks n d = (if d = [] \<or> n = 0 then [] else take n d # chunks n (drop n d))"
  by pat_completeness auto
termination by (relation "measure (\<lambda>(n, d). length d)") auto

declare chunks.simps [simp del]

lemma chunks_concat: "0 < n \<Longrightarrow> concat (chunks n d) = d"
  by (induction n d rule: chunks.induct) (subst chunks.simps, simp)

lemma chunks_nonempty: "\<forall>x \<in> set (chunks n d). x \<noteq> []"
proof (induction n d rule: chunks.induct)
  case (1 n d)
  then show ?case by (subst chunks.simps) auto
qed

definition budget_for :: "bytes \<Rightarrow> nat" where
  "budget_for wire = saturating_add (saturating_mul (length wire) 2) MAX_EVENTS"

definition fuzz_role :: "nat \<Rightarrow> Role" where
  "fuzz_role control = (if control AND 0x40 = 0 then Server else Client)"

definition fuzz_wire :: "nat \<Rightarrow> bytes \<Rightarrow> bytes" where
  "fuzz_wire control wire = (if wire = [] then seed_wire (fuzz_role control) control else wire)"

definition receive_target :: "httparse \<Rightarrow> bytes \<Rightarrow> unit option" where
  "receive_target hp input =
     (case input of
        [] \<Rightarrow> Some ()
      | byte0 # rest \<Rightarrow>
          (let control = of_char byte0;
               wire = fuzz_wire control rest;
               piece = (control AND 0x1f) + 1;
               budget = budget_for wire
           in do {
                c \<leftarrow> fuzz_connection (fuzz_role control) control;
                (p, t) \<leftarrow> poll_chunks hp budget (chunks piece wire) (c, [], []);
                case t of
                  TerminalError _ \<Rightarrow> Some ()
                | Complete \<Rightarrow> do { _ \<leftarrow> poll_eof hp budget p; Some () }
              }))"

definition run_fuzz :: "httparse \<Rightarrow> Role \<Rightarrow> nat \<Rightarrow> bytes \<Rightarrow> nat \<Rightarrow> Outcome option" where
  "run_fuzz hp r control wire piece =
     do {
       c \<leftarrow> fuzz_connection r control;
       deliver hp (budget_for wire) (chunks piece wire) c
     }"

definition run_eof_first :: "httparse \<Rightarrow> Role \<Rightarrow> nat \<Rightarrow> bytes \<Rightarrow> Outcome option" where
  "run_eof_first hp r control wire =
     do {
       c \<leftarrow> fuzz_connection r control;
       (c, _) \<leftarrow> unwrap (receive_data c wire);
       (p, t) \<leftarrow> poll_eof hp (budget_for wire) (c, [], []);
       Some (finish p t)
     }"


definition configured :: "Limits \<Rightarrow> bool \<Rightarrow> Connection \<Rightarrow> Connection" where
  "configured l z c = c\<lparr>limits := l, lenient := z\<rparr>"

lemma send_request_configured: "send_request (configured l z c) r = apfst (configured l z) (send_request c r)"
  by (auto simp: send_request_def advance_local_def record_request_def set_writer_def configured_def
      conn_disable_keep_alive_def Let_def split: sum.split option.split)

lemma end_of_message_configured: "end_of_message (configured l z c) h = apfst (configured l z) (end_of_message c h)"
  by (auto simp: end_of_message_def advance_local_def set_writer_def clear_waiting_def configured_def
      split: sum.split option.split Framing.split)


lemma and_3: "(control :: nat) AND 3 = control mod 4"
  using take_bit_eq_mask [of 2 control] by (simp add: take_bit_nat_def mask_eq_exp_minus_1)

abbreviation requesting :: "nat \<Rightarrow> Connection option" where
  "requesting k \<equiv> fuzz_request k (connection_new Client limits_default)"

lemma fuzz_request_mod: "fuzz_request control = fuzz_request (control mod 4)"
proof -
  have "client_request control = client_request (control mod 4)" by (simp add: client_request_def and_3)
  then show ?thesis by (simp add: fuzz_request_def and_3 fun_eq_iff)
qed

lemma unwrap_apfst: "unwrap (apfst f x) = map_option (apfst f) (unwrap x)"
  by (simp add: unwrap_def split: prod.split sum.split)

lemma fuzz_limits_total: "\<exists>l. fuzz_limits control = Some l \<and> slots_fit (max_header_count l)"
  by (cases "control AND 0x80 = 0") (simp_all add: fuzz_limits_def limits_new_def limits_default_def slots_fit_iff DEFAULT_MAX_HEADER_COUNT_def)

lemma fuzz_request_configured: "fuzz_request k (configured l z c) = map_option (configured l z) (fuzz_request k c)"
proof (cases "client_request k")
  case (Some r)
  show ?thesis
  proof (cases "unwrap (send_request c r)")
    case (Some x)
    with \<open>client_request k = Some r\<close> show ?thesis
      by (cases "unwrap (end_of_message (fst x) headers_new)"; cases x)
         (simp_all add: fuzz_request_def send_request_configured end_of_message_configured unwrap_apfst split: prod.splits)
  qed (use Some in \<open>simp add: fuzz_request_def send_request_configured unwrap_apfst\<close>)
qed (simp add: fuzz_request_def)

lemma fuzz_connection_client:
  "\<exists>l z. fuzz_connection Client control = map_option (configured l z) (requesting (control mod 4)) \<and> slots_fit (max_header_count l)"
proof -
  obtain l where l: "fuzz_limits control = Some l" "slots_fit (max_header_count l)" using fuzz_limits_total by blast
  let ?c = "connection_new Client limits_default"
  have "connection_new Client l = configured l False ?c" "make_lenient (connection_new Client l) = configured l True ?c"
    by (simp_all add: connection_new_def make_lenient_def configured_def)
  with l(1) have "fuzz_connection Client control = fuzz_request control (configured l (control AND 0x20 \<noteq> 0) ?c)"
    by (simp add: fuzz_connection_def Let_def)
  with fuzz_request_mod [of control] fuzz_request_configured l(2) show ?thesis by auto
qed

definition fresh :: "Connection \<Rightarrow> bool" where
  "fresh c \<longleftrightarrow> peer_state c \<noteq> Closed \<and> \<not> eof c \<and> cyc_reader (cycle c) = ReadHead \<and> input_bytes c = [] \<and> held c = 0 \<and> roomy c"

lemma requesting_fresh: "k < 4 \<Longrightarrow> case requesting k of None \<Rightarrow> False | Some c \<Rightarrow> fresh c"
proof -
  have k: "k < 4 \<Longrightarrow> k = 0 \<or> k = 1 \<or> k = 2 \<or> k = 3" by auto
  moreover have "case requesting 0 of None \<Rightarrow> False | Some c \<Rightarrow> fresh c" by code_simp
  moreover have "case requesting 1 of None \<Rightarrow> False | Some c \<Rightarrow> fresh c" by code_simp
  moreover have "case requesting 2 of None \<Rightarrow> False | Some c \<Rightarrow> fresh c" by code_simp
  moreover have "case requesting 3 of None \<Rightarrow> False | Some c \<Rightarrow> fresh c" by code_simp
  ultimately show "k < 4 \<Longrightarrow> case requesting k of None \<Rightarrow> False | Some c \<Rightarrow> fresh c" by metis
qed

lemma requesting_inv:
  assumes "requesting k = Some c"
  shows "conn_inv c"
proof -
  have "conn_inv c'" if "unwrap (send_request (connection_new Client limits_default) r) = Some (c', b)" for r c' b
    using send_inv [OF conn_inv_new, of Client limits_default "SendRequest r"] that by (auto simp: unwrap_def split: prod.splits sum.splits)
  moreover have "conn_inv c2" if "conn_inv c1" "unwrap (end_of_message c1 h) = Some (c2, b)" for c1 c2 h b
    using send_inv [OF that(1), of "EndMessage h"] that(2) by (auto simp: unwrap_def split: prod.splits sum.splits)
  ultimately show ?thesis using assms by (auto simp: fuzz_request_def bind_eq_Some_conv split: if_splits) blast
qed

lemma configured_simps [simp]:
  "conn_inv (configured l z c) = conn_inv c"
  "slots_fit (max_header_count l) \<Longrightarrow> fresh c \<Longrightarrow> fresh (configured l z c)"
  by (simp_all add: configured_def conn_inv_def conn_base_def local_state_def peer_state_def fresh_def roomy_def)

lemma fresh_early: "conn_inv c \<Longrightarrow> fresh c \<Longrightarrow> early c"
  by (simp add: fresh_def early_def)

lemma fuzz_connection_fresh: "\<exists>c. fuzz_connection r control = Some c \<and> conn_inv c \<and> fresh c"
proof (cases r)
  case Client
  obtain l z where f: "fuzz_connection Client control = map_option (configured l z) (requesting (control mod 4))"
    "slots_fit (max_header_count l)"
    using fuzz_connection_client by blast
  obtain c where c: "requesting (control mod 4) = Some c" "fresh c" using requesting_fresh [of "control mod 4"] by (auto split: option.splits)
  with f requesting_inv [OF c(1)] Client show ?thesis by simp
next
  case Server
  obtain l where l: "fuzz_limits control = Some l" "slots_fit (max_header_count l)" using fuzz_limits_total by blast
  then have "fresh (connection_new Server l)"
    by (simp add: fresh_def roomy_def connection_new_def cycle_default_def peer_state_def connection_state_new_def)
  moreover have "conn_inv (connection_new Server l)" by (rule conn_inv_new)
  moreover have "make_lenient (connection_new Server l) = configured l True (connection_new Server l)"
    by (simp add: configured_def make_lenient_def connection_new_def)
  ultimately show ?thesis using Server l by (simp add: fuzz_connection_def Let_def)
qed


lemma budget_enough:
  assumes "length wire + 1 < 2 ^ 63"
  shows "2 * length wire + 2 \<le> budget_for wire"
  using assms by (simp add: budget_for_def saturating_add_def saturating_mul_def MAX_EVENTS_def usize_max_def)

lemma seed_wire_length: "0 < length (seed_wire r control) \<and> length (seed_wire r control) < 200"
  by (simp add: seed_wire_def)

lemma fuzz_wire_budget:
  assumes "length (b # rest) < 2 ^ 63"
  shows "fuzz_wire control rest \<noteq> []" "length (fuzz_wire control rest) + 1 < 2 ^ 63"
    "2 * length (fuzz_wire control rest) + 2 \<le> budget_for (fuzz_wire control rest)"
proof -
  show "fuzz_wire control rest \<noteq> []" using seed_wire_length [of "fuzz_role control" control] by (auto simp: fuzz_wire_def)
  show "length (fuzz_wire control rest) + 1 < 2 ^ 63"
    using seed_wire_length [of "fuzz_role control" control] assms by (cases rest) (simp_all add: fuzz_wire_def)
  then show "2 * length (fuzz_wire control rest) + 2 \<le> budget_for (fuzz_wire control rest)" by (rule budget_enough)
qed

definition sample_stream :: bytes where
  "sample_stream = sample_request @ ''2'' @ CRLF @ ''hi'' @ CRLF @ ''0'' @ CRLF @ CRLF @ ''GET''"

lemma sample_stream_length: "length sample_stream = 72" "sample_stream \<noteq> []"
  by (simp_all add: sample_stream_def sample_lengths)

text \<open>
  C19: the receiving target accepts every input. Whatever bytes the fuzzer supplies, whatever
  role, limits, leniency and piece size its first byte selects, the connection can be set up,
  takes every piece, never panics, and each round of polls ends within the target's budget of
  two polls a byte and thirty-two more.
\<close>

theorem receive_target_never_fails:
  assumes "httparse_ok hp" and "httparse_incremental hp" and "length input < 2 ^ 63"
  shows "receive_target hp input = Some ()"
proof (cases input)
  case (Cons b rest)
  let ?control = "of_char b :: nat"
  let ?wire = "fuzz_wire ?control rest" and ?piece = "(?control AND 0x1f) + 1"
  obtain c where c: "fuzz_connection (fuzz_role ?control) ?control = Some c" "conn_inv c" "fresh c"
    using fuzz_connection_fresh by blast
  have early: "early c" and empty: "unread c = 0" using c fresh_early by (auto simp: fresh_def)
  have n: "2 * (unread c + length (concat (chunks ?piece ?wire))) + 2 \<le> budget_for ?wire"
    using fuzz_wire_budget(3) [of b rest ?control] assms(3) Cons empty by (simp add: chunks_concat)
  from poll_chunks_total [OF assms(1,2) early chunks_nonempty n, of "[]" "[]"] obtain c1 es1 b1 t1 where
    p: "poll_chunks hp (budget_for ?wire) (chunks ?piece ?wire) (c, [], []) = Some ((c1, es1, b1), t1)"
      "2 * unread c1 + 2 \<le> budget_for ?wire" "t1 = Complete \<longrightarrow> early c1" by blast
  show ?thesis
  proof (cases t1)
    case Complete
    with p poll_eof_total [OF assms(1) _ p(2), of es1 b1] c(1) Cons show ?thesis by (auto simp: receive_target_def Let_def)
  qed (use p c(1) Cons in \<open>simp add: receive_target_def Let_def\<close>)
qed (simp add: receive_target_def)

theorem receive_target_never_fails_witness: "receive_target sample_httparse (CHR 0x07 # sample_stream) = Some ()"
  using receive_target_never_fails [OF sample_httparse_ok sample_httparse_incremental, of "CHR 0x07 # sample_stream"]
  by (simp add: sample_stream_length)

lemma run_fuzz_settles:
  assumes "httparse_ok hp" and "httparse_incremental hp" and "0 < piece" and "length wire + 1 < 2 ^ 63"
    and "fuzz_connection r control = Some c" and "ahead wire c d"
  shows "\<exists>out. run_fuzz hp r control wire piece = Some out \<and> settles hp d (outcome_settlement out)"
proof -
  have c: "early c" "unread c = 0" using fuzz_connection_fresh [of r control] assms(5) fresh_early by (auto simp: fresh_def)
  have "2 * (unread c + length (concat (chunks piece wire))) + 2 \<le> budget_for wire"
    using budget_enough [OF assms(4)] c(2) assms(3) by (simp add: chunks_concat)
  from deliver_total [OF assms(1,2) c(1) chunks_nonempty this] obtain out where
    out: "deliver hp (budget_for wire) (chunks piece wire) c = Some out" by blast
  with deliver_settles [OF assms(1,2) c(1) chunks_nonempty out] assms(3,5,6) show ?thesis
    by (simp add: run_fuzz_def chunks_concat)
qed

lemma run_eof_first_settles:
  assumes "httparse_ok hp" and "httparse_incremental hp" and "wire \<noteq> []" and "length wire + 1 < 2 ^ 63"
    and "fuzz_connection r control = Some c" and "ahead wire c d"
  shows "\<exists>out. run_eof_first hp r control wire = Some out \<and> settles hp d (outcome_settlement out)"
proof -
  have c: "early c" "unread c = 0" using fuzz_connection_fresh [of r control] assms(5) fresh_early by (auto simp: fresh_def)
  let ?c = "c\<lparr>conn_input := buffer_extend (conn_input c) wire\<rparr>"
  note recv = receive_early [OF c(1) assms(3)]
  have "2 * unread ?c + 2 \<le> budget_for wire" using budget_enough [OF assms(4)] c(2) recv(3) by simp
  from poll_eof_total [OF assms(1) recv(2) this, of "[]" "[]"] obtain c' es' b' t where
    p: "poll_eof hp (budget_for wire) (?c, [], []) = Some ((c', es', b'), t)" by (metis prod.exhaust)
  from poll_eof_settles [OF assms(1) recv(2) p] obtain d1 where
    d1: "ahead [] ?c d1" "settles hp d1 (settlement_of (c', es', b') t)" by auto
  then have "akin d1 d" using ahead_akin [of wire c d1 d] recv(4) [of "[]" d1] assms(6) by simp
  then have "settles hp d (settlement_of (c', es', b') t)" using akin_settles d1 ahead_simps(2) by blast
  with p assms(5) recv(1) show ?thesis by (simp add: run_eof_first_def unwrap_def outcome_finish)
qed

end
