(* ===== verification/H11r_Fragments.thy ===== *)
theory H11r_Fragments
  imports H11r_Fuzz
begin

text \<open>
  The fragmentation target of \<open>fuzz/fuzz_targets/h11r_fragmentation.rs\<close>. Body data held by the
  caller and handed over by count leaves the connection that reading it from the buffer would,
  apart from the buffer, and a connection does not notice how its buffer is laid out. With the
  results on early and late turns, every comparison of the target comes out as it asserts.
\<close>

section \<open>Connections that differ in their buffer only\<close>

definition rebuf :: "Buffer \<Rightarrow> Connection \<Rightarrow> Connection" where
  "rebuf b c = c\<lparr>conn_input := b\<rparr>"

interpretation rebuf: bystander "rebuf b" "\<lambda>_. True" for b
  by unfold_locales
     (auto simp: rebuf_def advance_peer_def conn_disable_keep_alive_def set_reader_def clear_waiting_def record_request_def
       record_informational_def record_response_def response_has_no_body_def final_response_event_def informational_event_def
       local_state_def request_is_def opens_tunnel_def valid_upgrade_response_def Let_def split: sum.split)

definition twin :: "Connection \<Rightarrow> Connection \<Rightarrow> bool" where
  "twin c d \<longleftrightarrow> (\<exists>b. as_slice b = input_bytes c \<and> d = rebuf b c)"

definition twins :: "Connection \<times> 'a \<Rightarrow> Connection \<times> 'a \<Rightarrow> bool" where
  "twins u v \<longleftrightarrow> snd v = snd u \<and> twin (fst u) (fst v)"

lemma rebuf_simps [simp]:
  "conn_input (rebuf b c) = b" "role (rebuf b c) = role c" "eof (rebuf b c) = eof c" "limits (rebuf b c) = limits c"
  "lenient (rebuf b c) = lenient c" "conn_state (rebuf b c) = conn_state c" "cycle (rebuf b c) = cycle c" "held (rebuf b c) = held c"
  "peer_state (rebuf b c) = peer_state c" "local_state (rebuf b c) = local_state c" "rebuf b (rebuf b' c) = rebuf b c"
  "rebuf (conn_input c) c = c"
  by (simp_all add: rebuf_def peer_state_def local_state_def)

lemma twins_simps [simp]:
  "twins (c, v) (d, v) \<longleftrightarrow> twin c d"
  "twins (case x of (c, r) \<Rightarrow> (c, Some r)) (case y of (c, r) \<Rightarrow> (c, Some r)) \<longleftrightarrow> twins x y"
  by (simp_all add: twins_def split: prod.split)

lemma twin_rebuf: "as_slice b' = as_slice b \<Longrightarrow> twin (rebuf b c) (rebuf b' c)"
  by (auto simp: twin_def)

lemma twin_self: "as_slice b = input_bytes c \<Longrightarrow> twin c (rebuf b c)"
  by (auto simp: twin_def)

lemma twins_apfst: "as_slice b' = as_slice b \<Longrightarrow> twins (apfst (rebuf b) u) (apfst (rebuf b') u)"
  by (cases u) (simp add: twin_rebuf)

lemma twins_self: "as_slice b = input_bytes (fst u) \<Longrightarrow> twins u (apfst (rebuf b) u)"
  by (cases u) (simp add: twin_self)

lemma moves_rebuf:
  "consume_input c n = rebuf (consume (conn_input c) n) c"
  "set_progress (rebuf b c) p = rebuf b (set_progress c p)"
  "set_reader (rebuf b c) rd = rebuf b (set_reader c rd)"
  "conn_disable_keep_alive (rebuf b c) = rebuf b (conn_disable_keep_alive c)"
  "add_extension (rebuf b c) n = rebuf b (add_extension c n)"
  "conn_input (conn_disable_keep_alive c) = conn_input c" "(rebuf b c)\<lparr>cycle := y\<rparr> = rebuf b (c\<lparr>cycle := y\<rparr>)"
  by (simp_all add: consume_input_def rebuf_def set_progress_def set_reader_def conn_disable_keep_alive_def add_extension_def)

lemma poll_peer_state_twin:
  assumes "as_slice b = input_bytes c"
  shows "rel_option twins (poll_peer_state c) (poll_peer_state (rebuf b c))"
proof -
  have closed: "twins (peer_closed c) (peer_closed (rebuf b c))"
    using assms by (simp add: rebuf.peer_closed twins_self peer_closed_input)
  have "twins (peer_closed (consume_input c n)) (peer_closed (consume_input (rebuf b c) n))" for n
    using assms by (simp add: moves_rebuf(1) rebuf.peer_closed twins_apfst)
  with closed twin_self [OF assms] assms show ?thesis
    by (auto simp: poll_peer_state_def split: State.split)
qed

lemma section_due_twin: "as_slice b = input_bytes c \<Longrightarrow> section_due (rebuf b c) skip = apfst (rebuf b) (section_due c skip)"
  by (simp add: section_due_def moves_rebuf split: prod.split)

lemma head_section_twin: "as_slice b = input_bytes c \<Longrightarrow> head_section (rebuf b c) = head_section c"
  by (simp add: head_section_def)

lemma wait_for_section_twin:
  "as_slice b = input_bytes c \<Longrightarrow> twins (wait_for_section c skip) (wait_for_section (rebuf b c) skip)"
  by (simp add: wait_for_section_def need_data_or_eof_def Let_def head_section_twin twin_self)

lemma accepts_twin:
  assumes "as_slice b = input_bytes c"
  shows "twins (accept_request (set_progress (consume_input c n) q) r) (accept_request (set_progress (consume_input (rebuf b c) n) q) r)"
    and "twins (accept_response (set_progress (consume_input c n) q) s) (accept_response (set_progress (consume_input (rebuf b c) n) q) s)"
    and "twins (finish_peer (set_progress (consume_input c n) q) h) (finish_peer (set_progress (consume_input (rebuf b c) n) q) h)"
  using assms by (simp_all add: moves_rebuf(1,2) rebuf.accept_request rebuf.accept_response rebuf.finish_peer twins_apfst)

lemma read_head_twin:
  assumes "as_slice b = input_bytes c0"
  shows "twins (read_head hp c0) (read_head hp (rebuf b c0))"
proof -
  obtain c is_due where sd: "section_due c0 True = (c, is_due)" by fastforce
  with section_due_progress_only [of c0 True] have b: "as_slice b = input_bytes c" using assms by auto
  have "accept_response (set_progress (consume_input (conn_disable_keep_alive (rebuf b c)) n) q) s
      = accept_response (set_progress (consume_input (rebuf b (conn_disable_keep_alive c)) n) q) s" for n q s
    by (simp add: moves_rebuf(4))
  moreover have "as_slice b = input_bytes (conn_disable_keep_alive c)" using b by (simp add: moves_rebuf)
  ultimately show ?thesis
    using wait_for_section_twin [OF b] twin_self [OF b] accepts_twin [OF b] accepts_twin(2) [of b "conn_disable_keep_alive c"]
    by (auto simp: read_head_def section_due_twin [OF assms] sd head_section_twin [OF b] Let_def split: sum.split option.split)
qed

lemma read_trailers_twin:
  assumes "as_slice b = input_bytes c0"
  shows "twins (read_trailers hp c0) (read_trailers hp (rebuf b c0))"
proof -
  obtain c is_due where sd: "section_due c0 False = (c, is_due)" by fastforce
  with section_due_progress_only [of c0 False] have b: "as_slice b = input_bytes c" using assms by auto
  show ?thesis
    using wait_for_section_twin [OF b] twin_self [OF b] accepts_twin(3) [OF b]
    by (auto simp: read_trailers_def section_due_twin [OF assms] sd head_section_twin [OF b] Let_def split: sum.split option.split)
qed

lemma advance_payload_twin: "advance_payload (rebuf b c) n = apfst (rebuf b) (advance_payload c n)"
  by (auto simp: advance_payload_def Let_def rebuf.reader_set split: Reader.split Chunk.split)

lemma read_payload_twin:
  "as_slice b = input_bytes c \<Longrightarrow> twins (read_payload c m) (read_payload (rebuf b c) m)"
  using advance_payload_input [of c "length (input_bytes c)"]
  by (auto simp: read_payload_def need_data_or_eof_def Let_def advance_payload_twin rebuf.peer_data twin_self
      twins_self peer_data_input split: prod.split)

lemma read_data_end_twin: "as_slice b = input_bytes c \<Longrightarrow> twins (read_data_end c) (read_data_end (rebuf b c))"
  by (simp add: read_data_end_def need_data_or_eof_def twin_self moves_rebuf(1,3) twin_rebuf)

lemma read_chunk_size_twin:
  assumes "as_slice b = input_bytes c"
  shows "twins (read_chunk_size c k) (read_chunk_size (rebuf b c) k)"
  using assms
  by (auto simp: read_chunk_size_def need_data_or_eof_def Let_def moves_rebuf twin_self twin_rebuf split: option.split)

lemma turn_twin:
  assumes "twin c d"
  shows "twins (turn hp c) (turn hp d)"
proof -
  obtain b where b: "as_slice b = input_bytes c" "d = rebuf b c" using assms by (auto simp: twin_def)
  have "twins (finish_peer c h) (finish_peer (rebuf b c) h)" "twins (peer_data c n e f) (peer_data (rebuf b c) n e f)" for h n e f
    using b by (simp_all add: rebuf.finish_peer rebuf.peer_data twins_self finish_peer_input peer_data_input)
  then have "twins (read_body hp c) (read_body hp (rebuf b c))"
    using b read_head_twin [OF b(1)] read_trailers_twin [OF b(1)] read_payload_twin [OF b(1)] read_data_end_twin [OF b(1)]
      read_chunk_size_twin [OF b(1)] twin_self [OF b(1)]
    by (auto simp: read_body_def read_chunked_def Let_def split: Reader.split Chunk.split)
  with poll_peer_state_twin [OF b(1)] b(2) show ?thesis
    by (cases "poll_peer_state c"; cases "poll_peer_state (rebuf b c)") (auto simp: turn_def twins_def split: prod.splits)
qed


lemma poison_twin: "twin c d \<Longrightarrow> twin (poison_peer c) (poison_peer d)"
  by (auto simp: twin_def poison_peer_def rebuf_def)

lemma twin_consume: "twin c d \<Longrightarrow> twin (consume_input c n) (consume_input d n)"
  using twin_rebuf [of "consume b n" "consume (conn_input c) n" c for b]
  by (auto simp: twin_def [of c] moves_rebuf(1))

lemma twin_simps:
  assumes "twin c d"
  shows "input_bytes d = input_bytes c" "role d = role c" "eof d = eof c" "local_state d = local_state c" "peer_state d = peer_state c"
    "cycle d = cycle c" "held d = held c"
  using assms by (auto simp: twin_def)

lemma next_event_twin: "twin c d \<Longrightarrow> twins (next_event hp c) (next_event hp d)"
proof (induction "length (input_bytes c)" arbitrary: c d rule: less_induct)
  case less
  obtain c1 r where c1: "turn hp c = (c1, r)" by fastforce
  with turn_twin [OF less.prems, of hp] obtain d1 where d1: "turn hp d = (d1, r)" "twin c1 d1"
    by (cases "turn hp d") (auto simp: twins_def)
  note same = twin_simps [OF d1(2)]
  show ?case
  proof (cases r rule: polled_result_cases)
    case again
    with c1 d1 less.hyps [OF turn_shrinks d1(2), of hp] show ?thesis by (simp add: next_event_turn(1))
  next
    case (data n b f)
    with c1 d1 same twin_consume [OF d1(2)] show ?thesis by (simp add: next_event_turn(3))
  next
    case (fails e)
    with c1 d1 same poison_twin [OF d1(2)] show ?thesis by (simp add: next_event_turn(7))
  qed (use c1 d1 in \<open>simp_all add: next_event_turn\<close>)
qed

lemma fuzz_poll_twin:
  "twin c d \<Longrightarrow> fuzz_poll hp n (c, es, b) = Some ((c', es', b'), t) \<Longrightarrow>
   \<exists>d'. fuzz_poll hp n (d, es, b) = Some ((d', es', b'), t) \<and> twin c' d'"
proof (induction n arbitrary: c d es b)
  case (Suc n)
  obtain c1 res where r: "next_event hp c = (c1, res)" by fastforce
  with next_event_twin [OF Suc.prems(1), of hp] obtain d1 where d: "next_event hp d = (d1, res)" "twin c1 d1"
    by (cases "next_event hp d") (auto simp: twins_def)
  show ?case
  proof (cases res rule: next_event_cases)
    case (data x y z)
    with Suc.prems(2) r d Suc.IH [OF d(2)] show ?thesis by (simp add: fuzz_poll_step del: fuzz_poll.simps)
  next
    case (event e)
    with Suc.prems(2) r d Suc.IH [OF d(2)] fuzz_poll_event [of hp c c1 e n es b] fuzz_poll_event [of hp d d1 e n es b]
    show ?thesis by (simp del: fuzz_poll.simps)
  qed (use Suc.prems(2) r d in \<open>auto simp: fuzz_poll_step simp del: fuzz_poll.simps\<close>)
qed simp

lemma fuzz_poll_more: "fuzz_poll hp n (c, es, b) = Some r \<Longrightarrow> fuzz_poll hp (Suc n) (c, es, b) = Some r"
proof (induction n arbitrary: c es b)
  case (Suc n)
  obtain c1 res where r: "next_event hp c = (c1, res)" by fastforce
  show ?case
  proof (cases res rule: next_event_cases)
    case (data x y z)
    with Suc.prems r Suc.IH show ?thesis by (simp add: fuzz_poll_step [of hp n] fuzz_poll_step [of hp "Suc n"] del: fuzz_poll.simps)
  next
    case (event e)
    with Suc.prems r Suc.IH fuzz_poll_event [of hp c c1 e _ es b] show ?thesis by (simp del: fuzz_poll.simps)
  qed (use Suc.prems r in \<open>auto simp: fuzz_poll_step [of hp n] fuzz_poll_step [of hp "Suc n"] simp del: fuzz_poll.simps\<close>)
qed simp


section \<open>Holding body data\<close>

definition take_chunk :: "bytes \<Rightarrow> Connection \<Rightarrow> bytes \<Rightarrow> (Connection \<times> bytes) option" where
  "take_chunk chunk c body =
     (case hold_body_data c (length chunk) of
        (c, None) \<Rightarrow> None
      | (c, Some True) \<Rightarrow> do {
          (c, _) \<leftarrow> unwrap (next_event_in_place c (length chunk));
          Some (c, body @ chunk)
        }
      | (c, Some False) \<Rightarrow> do {
          (c, _) \<leftarrow> unwrap (receive_data c chunk);
          Some (c, body)
        })"

fun hold_chunks :: "httparse \<Rightarrow> nat \<Rightarrow> bytes list \<Rightarrow> polling \<Rightarrow> (polling \<times> Terminal) option" where
  "hold_chunks hp budget [] p = Some (p, Complete)"
| "hold_chunks hp budget (chunk # later) (c, events, body) =
     do {
       (c, body) \<leftarrow> take_chunk chunk c body;
       (p, t) \<leftarrow> fuzz_poll hp budget (c, events, body);
       case t of Complete \<Rightarrow> hold_chunks hp budget later p | TerminalError _ \<Rightarrow> Some (p, t)
     }"

definition run_holding :: "httparse \<Rightarrow> Role \<Rightarrow> nat \<Rightarrow> bytes \<Rightarrow> nat \<Rightarrow> Outcome option" where
  "run_holding hp r control wire piece =
     do {
       c \<leftarrow> fuzz_connection r control;
       (p, t) \<leftarrow> hold_chunks hp (budget_for wire) (chunks piece wire) (c, [], []);
       (p, t) \<leftarrow> (case t of Complete \<Rightarrow> poll_eof hp (budget_for wire) p | TerminalError _ \<Rightarrow> Some (p, t));
       Some (finish p t)
     }"

lemma chunks_short: "x \<in> set (chunks n d) \<Longrightarrow> length x \<le> length d"
proof (induction n d rule: chunks.induct)
  case (1 n d)
  then show ?case by (subst (asm) chunks.simps) (fastforce split: if_splits)
qed

lemma twin_sym: "twin c d \<Longrightarrow> twin d c"
  unfolding twin_def by (metis rebuf_simps(1,11,12))

text \<open>Data handed over by count leaves the connection that reading it would.\<close>

lemma in_place_step:
  assumes "early c" and "held c = 0" and "hold_body_data c (length x) = (c1, Some True)"
  shows "\<exists>v. next_event_in_place c1 (length x) =
      (read_on c (payload_after (cyc_reader (cycle c)) (length x)), Inr v)"
    and "in_payload (cyc_reader (cycle c))" and "payload_count (cyc_reader (cycle c)) (length x) = length x"
    and "peer_state c = SendBody" and "input_bytes c = []" and "x \<noteq> []"
proof -
  have h: "x \<noteq> [] \<and> input_bytes c = [] \<and> c1 = c\<lparr>held := held c + length x\<rparr>
      \<and> is_some_and (\<lambda>n. held c + length x \<le> n) (payload_remaining c)"
    using assms(3) by (cases rule: hold_body_data_cases) simp_all
  then obtain m where "payload_remaining c = Some m" by (cases "payload_remaining c") simp_all
  with h assms(2) have m: "x \<noteq> []" "input_bytes c = []" "payload_remaining c = Some m" "length x \<le> m" "c1 = c\<lparr>held := length x\<rparr>"
    by simp_all
  then show "input_bytes c = []" "x \<noteq> []" by simp_all
  show sb: "peer_state c = SendBody" using m(3) by (auto simp: payload_remaining_def split: if_splits)
  have "reader_wf (cyc_reader (cycle c)) 0" using earlyD(2) [OF assms(1)] m(2) by (simp add: conn_inv_def conn_base_def)
  with m(3,4) sb have rd: "in_payload (cyc_reader (cycle c)) \<and> payload_count (cyc_reader (cycle c)) (length x) = length x"
    by (cases "cyc_reader (cycle c)" rule: in_payload.cases) (auto simp: payload_remaining_def reader_wf_def split: if_splits)
  then show "in_payload (cyc_reader (cycle c))" "payload_count (cyc_reader (cycle c)) (length x) = length x" by simp_all
  let ?rd = "payload_after (cyc_reader (cycle c)) (length x)"
  have "peer_state (set_reader c1 ?rd) = SendBody" using sb m(5) by (simp add: peer_state_def)
  then have data: "peer_data (set_reader c1 ?rd) (length x) s e = (read_on c1 ?rd, Inr (PolledData (length x) s e))" for s e
    using advance_peer_data by (simp add: peer_data_def clear_waiting_def)
  have c1: "set_reader c1 (cyc_reader (cycle c)) = c1" "cyc_reader (cycle c1) = cyc_reader (cycle c)" "held c1 = length x"
    using m(5) by (simp_all add: set_reader_def)
  have "\<exists>s e. advance_payload c1 (length x) = (set_reader c1 ?rd, length x, s, e)"
    using rd c1 by (cases "cyc_reader (cycle c)" rule: in_payload.cases) (auto simp: advance_payload_def Let_def)
  then obtain s e where "advance_payload c1 (length x) = (set_reader c1 ?rd, length x, s, e)" by blast
  moreover have "(read_on c1 ?rd)\<lparr>held := 0\<rparr> = read_on c ?rd" "held (read_on c1 ?rd) = length x"
    using m(5) assms(2) by (simp_all add: clear_waiting_def set_reader_def)
  ultimately show "\<exists>v. next_event_in_place c1 (length x) = (read_on c ?rd, Inr v)"
    using data [of s e] c1(3) m(1) by (simp add: next_event_in_place_def)
qed


lemma take_chunk_polls:
  assumes "httparse_ok hp" and "early c" and "held c = 0" and "x \<noteq> []" and "length x \<le> usize_max"
    and "fuzz_poll hp n (c\<lparr>conn_input := buffer_extend (conn_input c) x\<rparr>, es, b) = Some ((c', es', b'), t)"
  shows "\<exists>c2 b2 d'. take_chunk x c b = Some (c2, b2) \<and> early c2 \<and> held c2 = 0
    \<and> fuzz_poll hp n (c2, es, b2) = Some ((d', es', b'), t) \<and> twin c' d'"
proof -
  obtain c0 h0 where hold: "hold_body_data c (length x) = (c0, h0)" by fastforce
  then show ?thesis
  proof (cases rule: hold_body_data_cases)
    case refused
    then have "hold_body_data c (length x) = (c, Some False)" using hold by simp
    with receive_early [OF assms(2,4)] assms(3,6) twin_self [of "conn_input c'" c'] show ?thesis by (auto simp: take_chunk_def unwrap_def)
  next
    case overflows
    then show ?thesis using assms(3,5) by simp
  next
    case held
    let ?rd = "payload_after (cyc_reader (cycle c)) (length x)" and ?c = "c\<lparr>conn_input := buffer_extend (conn_input c) x\<rparr>"
    from held hold obtain c1 where h: "hold_body_data c (length x) = (c1, Some True)" by blast
    note step = in_place_step [OF assms(2,3) h]
    note recv = receive_early [OF assms(2,4)]
    have inv: "conn_inv (read_on c ?rd)"
    proof -
      have "conn_inv c1" using h hold_body_data_inv [OF earlyD(2) [OF assms(2)], of "length x"] by simp
      with next_event_in_place_inv [of c1 "length x"] step(1) show ?thesis by auto
    qed
    have rd: "?rd \<noteq> ReadChunked (Size k)" for k using step(2) by (cases "cyc_reader (cycle c)" rule: in_payload.cases) auto
    have early: "early (read_on c ?rd)"
      using inv step(4) earlyD(3,6) [OF assms(2)] rd
      by (simp add: early_def clear_waiting_def set_reader_def peer_state_def roomy_def)
    obtain v where took: "take_chunk x c b = Some (read_on c ?rd, b @ x)" using step(1) h by (auto simp: take_chunk_def unwrap_def)
    have "peer_state ?c = SendBody" using step(4) by (simp add: peer_state_def)
    from turn_payload [OF this, of "length x" hp] step recv(3) obtain y z where
      "turn hp ?c = (read_on ?c ?rd, Some (Inr (PolledData (length x) y z)))" by auto
    from next_event_turn(3) [OF this] recv(3) step(5)
    have ne: "next_event hp ?c = (consume_input (read_on ?c ?rd) (length x), Inr (NextEvent (EventData x y z)))" by simp
    obtain m where n: "n = Suc m" using assms(6) by (cases n) auto
    have "fuzz_poll hp m (consume_input (read_on ?c ?rd) (length x), es, b @ x) = Some ((c', es', b'), t)"
      using assms(6) ne by (simp add: n fuzz_poll_step del: fuzz_poll.simps)
    moreover have "twin (consume_input (read_on ?c ?rd) (length x)) (read_on c ?rd)"
    proof -
      have "consume_input (read_on ?c ?rd) (length x) = rebuf (consume (buffer_extend (conn_input c) x) (length x)) (read_on c ?rd)"
        by (simp add: consume_input_def rebuf_def clear_waiting_def set_reader_def)
      moreover have "as_slice (consume (buffer_extend (conn_input c) x) (length x)) = input_bytes (read_on c ?rd)"
        using recv(3) step(5) by simp
      ultimately show ?thesis using twin_sym twin_self by metis
    qed
    ultimately obtain d' where "fuzz_poll hp m (read_on c ?rd, es, b @ x) = Some ((d', es', b'), t)" "twin c' d'"
      using fuzz_poll_twin by blast
    moreover have "held (read_on c ?rd) = 0" using assms(3) by (simp add: clear_waiting_def set_reader_def)
    ultimately show ?thesis using fuzz_poll_more [of hp m] took early unfolding n by blast
  qed
qed

lemma fuzz_poll_held: "fuzz_poll hp n (c, es, b) = Some ((c', es', b'), t) \<Longrightarrow> held c' = held c"
proof (induction n arbitrary: c es b)
  case (Suc n)
  obtain c1 res where r: "next_event hp c = (c1, res)" by fastforce
  then have h: "held c1 = held c" using limits_next_event(2) [of hp c] by simp
  show ?case
  proof (cases res rule: next_event_cases)
    case (data x y z)
    with Suc.prems r h Suc.IH show ?thesis by (simp add: fuzz_poll_step del: fuzz_poll.simps)
  next
    case (event e)
    with Suc.prems r h Suc.IH fuzz_poll_event [of hp c c1 e n es b] show ?thesis by (simp del: fuzz_poll.simps)
  qed (use Suc.prems r h in \<open>auto simp: fuzz_poll_step simp del: fuzz_poll.simps\<close>)
qed simp


lemma hold_chunks_same:
  assumes "httparse_ok hp" and "httparse_incremental hp"
  shows "twin c d \<Longrightarrow> early c \<Longrightarrow> early d \<Longrightarrow> held d = 0 \<Longrightarrow> \<forall>x \<in> set xs. x \<noteq> [] \<and> length x \<le> usize_max \<Longrightarrow>
    poll_chunks hp n xs (c, es, b) = Some ((c', es', b'), t) \<Longrightarrow>
    \<exists>d'. hold_chunks hp n xs (d, es, b) = Some ((d', es', b'), t) \<and> twin c' d' \<and> (t = Complete \<longrightarrow> early c' \<and> early d')"
proof (induction xs arbitrary: c d es b)
  case (Cons x xs)
  let ?c = "c\<lparr>conn_input := buffer_extend (conn_input c) x\<rparr>" and ?d = "d\<lparr>conn_input := buffer_extend (conn_input d) x\<rparr>"
  have x: "x \<noteq> []" "length x \<le> usize_max" using Cons.prems(5) by simp_all
  note rc = receive_early [OF Cons.prems(2) x(1)] and rd = receive_early [OF Cons.prems(3) x(1)]
  obtain c1 es1 b1 t1 where p: "fuzz_poll hp n (?c, es, b) = Some ((c1, es1, b1), t1)"
    and rest: "(case t1 of Complete \<Rightarrow> poll_chunks hp n xs (c1, es1, b1) | TerminalError _ \<Rightarrow> Some ((c1, es1, b1), t1)) = Some ((c', es', b'), t)"
    using Cons.prems(6) rc(1) by (auto simp: unwrap_def bind_eq_Some_conv)
  obtain bd where bd: "d = rebuf bd c" "as_slice bd = input_bytes c" using Cons.prems(1) by (auto simp: twin_def)
  have "twin ?c ?d"
  proof -
    have "?d = rebuf (buffer_extend (conn_input d) x) ?c" using bd(1) by (simp add: rebuf_def)
    moreover have "as_slice (buffer_extend (conn_input d) x) = input_bytes ?c" using rc(3) rd(3) bd by simp
    ultimately show ?thesis using twin_self by metis
  qed
  from fuzz_poll_twin [OF this p] obtain e1 where e1: "fuzz_poll hp n (?d, es, b) = Some ((e1, es1, b1), t1)" "twin c1 e1" by blast
  from take_chunk_polls [OF assms(1) Cons.prems(3,4) x e1(1)] obtain d2 b2 d1 where
    d1: "take_chunk x d b = Some (d2, b2)" "early d2" "held d2 = 0" "fuzz_poll hp n (d2, es, b2) = Some ((d1, es1, b1), t1)" "twin e1 d1"
    by blast
  have tw: "twin c1 d1" using e1(2) d1(5) by (auto simp: twin_def)
  have early: "t1 = Complete \<longrightarrow> early c1" "t1 = Complete \<longrightarrow> early d1"
    using fuzz_poll_early [OF assms rc(2) p] fuzz_poll_early [OF assms d1(2,4)] by blast+
  have held: "held d1 = 0" using fuzz_poll_held [OF d1(4)] d1(3) by simp
  show ?case
  proof (cases t1)
    case (TerminalError status)
    with rest d1 tw show ?thesis by auto
  next
    case Complete
    with rest d1 tw early held Cons.IH [of c1 d1 es1 b1] Cons.prems(5) show ?thesis by auto
  qed
qed auto

lemma poll_eof_twin:
  assumes "twin c d" and "early c" and "early d" and "poll_eof hp n (c, es, b) = Some ((c', es', b'), t)"
  shows "\<exists>d'. poll_eof hp n (d, es, b) = Some ((d', es', b'), t) \<and> twin c' d'"
proof -
  have "twin (record_eof c) (record_eof d)"
    using assms(1) by (auto simp: twin_def rebuf_def record_eof_def conn_disable_keep_alive_def Let_def)
  with fuzz_poll_twin [of "record_eof c" "record_eof d" hp n es b] assms(4) earlyD(3) [OF assms(2)] earlyD(3) [OF assms(3)]
  show ?thesis by (auto simp: poll_eof_def receive_data_def unwrap_def)
qed

lemma finish_twin: "twin c d \<Longrightarrow> finish (d, es, b) t = finish (c, es, b) t"
  by (simp add: finish_def trailing_data_def twin_simps)

lemma run_holding_same:
  assumes "httparse_ok hp" and "httparse_incremental hp" and "run_fuzz hp r control wire piece = Some out"
    and "length wire \<le> usize_max"
  shows "run_holding hp r control wire piece = Some out"
proof -
  obtain c where c: "fuzz_connection r control = Some c" "conn_inv c" "fresh c" using fuzz_connection_fresh by blast
  then have early: "early c" "held c = 0" using fresh_early by (auto simp: fresh_def)
  have self: "twin c c" using twin_self [of "conn_input c" c] by simp
  obtain c1 es1 b1 t1 where p: "poll_chunks hp (budget_for wire) (chunks piece wire) (c, [], []) = Some ((c1, es1, b1), t1)"
    using assms(3) c(1) by (auto simp: run_fuzz_def deliver_def bind_eq_Some_conv)
  have "\<forall>x \<in> set (chunks piece wire). x \<noteq> [] \<and> length x \<le> usize_max"
    using chunks_nonempty [of piece wire] chunks_short [of _ piece wire] assms(4) le_trans by blast
  from hold_chunks_same [OF assms(1,2) self early(1,1,2) this p] obtain d1 where
    d1: "hold_chunks hp (budget_for wire) (chunks piece wire) (c, [], []) = Some ((d1, es1, b1), t1)" "twin c1 d1"
      "t1 = Complete \<longrightarrow> early c1 \<and> early d1" by blast
  show ?thesis
  proof (cases t1)
    case (TerminalError status)
    with assms(3) c(1) p d1 show ?thesis by (simp add: run_fuzz_def deliver_def run_holding_def finish_twin)
  next
    case Complete
    with assms(3) c(1) p obtain c2 es2 b2 t2 where e: "poll_eof hp (budget_for wire) (c1, es1, b1) = Some ((c2, es2, b2), t2)"
      "out = finish (c2, es2, b2) t2" by (auto simp: run_fuzz_def deliver_def bind_eq_Some_conv)
    with poll_eof_twin [OF d1(2) _ _ e(1)] d1(3) Complete obtain d2 where
      "poll_eof hp (budget_for wire) (d1, es1, b1) = Some ((d2, es2, b2), t2)" "twin c2 d2" by blast
    with c(1) d1(1) Complete e(2) show ?thesis by (simp add: run_holding_def finish_twin)
  qed
qed

section \<open>The fragmentation target\<close>

definition same_outcome :: "Outcome \<Rightarrow> Outcome \<Rightarrow> bool" where
  "same_outcome whole other \<longleftrightarrow>
     oc_terminal whole = oc_terminal other
     \<and> (oc_terminal whole = Complete \<longrightarrow>
          oc_events whole = oc_events other \<and> oc_body whole = oc_body other
          \<and> oc_states whole = oc_states other \<and> oc_trailing whole = oc_trailing other)"

definition fragmentation_target :: "httparse \<Rightarrow> bytes \<Rightarrow> unit option" where
  "fragmentation_target hp input =
     (case input of
        [] \<Rightarrow> Some ()
      | byte0 # rest \<Rightarrow>
          (let control = of_char byte0;
               r = fuzz_role control;
               wire = fuzz_wire control rest;
               piece = (control AND 0x1f) + 1
           in do {
                whole \<leftarrow> run_fuzz hp r control wire (max (length wire) 1);
                fragmented \<leftarrow> run_fuzz hp r control wire piece;
                eof_first \<leftarrow> run_eof_first hp r control wire;
                holding \<leftarrow> run_holding hp r control wire piece;
                if fragmented \<noteq> holding then None
                else if list_all (same_outcome whole) [fragmented, eof_first] then Some () else None
              }))"

lemma same_outcome_settlement: "outcome_settlement u = outcome_settlement v \<Longrightarrow> same_outcome u v"
  by (auto simp: outcome_settlement_def same_outcome_def split: Terminal.splits)

text \<open>
  C17: the assertions of the fragmentation target hold on every input. All at once, in pieces,
  with the end of the input known before the first poll: the outcomes agree; and pieces of a
  body that the caller keeps and hands over by count give exactly the outcome of receiving them.
\<close>

theorem fragmentation_target_never_fails:
  assumes "httparse_ok hp" and "httparse_incremental hp" and "length input < 2 ^ 63"
  shows "fragmentation_target hp input = Some ()"
proof (cases input)
  case (Cons byte0 rest)
  let ?control = "of_char byte0 :: nat"
  let ?r = "fuzz_role ?control" and ?wire = "fuzz_wire ?control rest" and ?piece = "(?control AND 0x1f) + 1"
  have wire: "?wire \<noteq> []" "length ?wire + 1 < 2 ^ 63"
    using fuzz_wire_budget(1,2) [of byte0 rest ?control] assms(3) Cons by simp_all
  obtain c where c: "fuzz_connection ?r ?control = Some c" using fuzz_connection_fresh by blast
  obtain d where d: "ahead ?wire c d" using ahead_exists by blast
  have "0 < max (length ?wire) 1" "0 < ?piece" by simp_all
  from run_fuzz_settles [OF assms(1,2) this(1) wire(2) c d] run_fuzz_settles [OF assms(1,2) this(2) wire(2) c d]
  obtain whole parts where w: "run_fuzz hp ?r ?control ?wire (max (length ?wire) 1) = Some whole" "settles hp d (outcome_settlement whole)"
    and p: "run_fuzz hp ?r ?control ?wire ?piece = Some parts" "settles hp d (outcome_settlement parts)" by blast
  from run_eof_first_settles [OF assms(1,2) wire c d]
  obtain eofs where e: "run_eof_first hp ?r ?control ?wire = Some eofs" "settles hp d (outcome_settlement eofs)" by auto
  have "same_outcome whole parts" "same_outcome whole eofs"
    using settles_unique [OF p(2) w(2)] settles_unique [OF e(2) w(2)] by (auto intro: same_outcome_settlement)
  moreover have "length ?wire \<le> usize_max" using wire(2) by (simp add: usize_max_def)
  ultimately show ?thesis
    using w(1) p(1) e(1) run_holding_same [OF assms(1,2) p(1)] Cons by (simp add: fragmentation_target_def Let_def)
qed (simp add: fragmentation_target_def)

theorem fragmentation_target_never_fails_witness: "fragmentation_target sample_httparse (CHR 0x07 # sample_stream) = Some ()"
  using fragmentation_target_never_fails [OF sample_httparse_ok sample_httparse_incremental, of "CHR 0x07 # sample_stream"]
  by (simp add: sample_stream_length)

end
