(* ===== verification/H11r_Pieces.thy ===== *)
theory H11r_Pieces
  imports H11r_Fragments
begin

text \<open>
  Every reachable connection whose input has not ended is one for which early and late polling
  agree (\<open>early\<close>): sending leaves the reader, the input and the peer's side alone, and no call
  but a poll at the end of the input closes the peer. With that, what a connection reports
  does not depend on how its input arrives.
\<close>

section \<open>What sending leaves alone\<close>

definition spared :: "Connection \<Rightarrow> Connection \<Rightarrow> bool" where
  "spared c c' \<longleftrightarrow> role c' = role c \<and> conn_input c' = conn_input c \<and> eof c' = eof c
     \<and> limits c' = limits c \<and> cyc_reader (cycle c') = cyc_reader (cycle c) \<and> (peer_open c \<longrightarrow> peer_open c')"

lemma spared_refl [simp]: "spared c c"
  by (simp add: spared_def)

lemma spared_trans: "spared a b \<Longrightarrow> spared b c \<Longrightarrow> spared a c"
  by (simp add: spared_def)

lemma spared_simps [simp]:
  "spared c (set_writer d w) = spared c d" "spared c (clear_waiting d) = spared c d"
  "spared c (record_response d) = spared c d" "spared c (record_informational d st) = spared c d"
  "spared c (conn_disable_keep_alive d) = spared c d" "spared c (record_request d m v f b u) = spared c d"
  using peer_open_simps(1,11)
  by (simp_all add: spared_def set_writer_def clear_waiting_def record_response_def record_informational_def
      conn_disable_keep_alive_def record_request_def Let_def)

lemma process_event_other_open:
  assumes "process_event s r e = Inr t" and "role_state s (peer r) \<noteq> Closed"
  shows "role_state t (peer r) \<noteq> Closed"
  using assms
  by (cases e; cases r) (auto simp: process_event_eqs accept_if_def settle_closed set_role_state_def split: if_splits)

lemma spared_local: "process_event (conn_state c) (role c) e = Inr s \<Longrightarrow> spared c (c\<lparr>conn_state := s\<rparr>)"
  using process_event_other_open [of "conn_state c" "role c" e s] by (simp add: spared_def peer_open_def peer_state_def)

lemma send_request_spared: "send_request c r = (c', x) \<Longrightarrow> spared c c'"
  by (cases x) (auto dest!: send_request_error elim!: send_request_Inr intro!: spared_local)

lemma send_informational_spared: "send_informational_response c r = (c', x) \<Longrightarrow> spared c c'"
  by (cases x) (auto dest!: send_informational_error elim!: send_informational_Inr intro!: spared_local)

lemma finish_response_head_spared: "spared c (fst (finish_response_head c r f h b cn h11))"
  by (simp add: finish_response_head_def Let_def)

lemma send_response_spared: "send_response c r = (c', x) \<Longrightarrow> spared c c'"
proof (cases x)
  case (Inr out)
  assume "send_response c r = (c', x)"
  with Inr have "send_response c r = (c', Inr out)" by simp
  then show ?thesis
    by (rule send_response_Inr) (metis finish_response_head_spared fst_conv spared_local spared_trans)
qed (auto dest!: send_response_error)

lemma send_data_framing_spared: "send_data_framing c n = (c', x) \<Longrightarrow> spared c c'"
  by (cases x) (auto dest!: send_data_framing_error elim!: send_data_framing_Inr)

lemma end_of_message_spared: "end_of_message c h = (c', x) \<Longrightarrow> spared c c'"
  by (cases x) (auto dest!: end_of_message_error elim!: end_of_message_Inr intro!: spared_local)

lemma complete_after_head_spared:
  assumes "complete_after_head c before n = (c', Inr out)"
  shows "spared c c'"
proof -
  obtain c1 y where d: "send_data_framing c n = (c1, y)" by fastforce
  have "end_of_message c1 headers_new = (c2, z) \<Longrightarrow> spared c c2" for c2 z
    using spared_trans [OF send_data_framing_spared [OF d] end_of_message_spared] .
  with assms d show ?thesis
    by (auto simp: complete_after_head_def split: if_splits sum.splits prod.splits intro: end_of_message_spared)
qed

locale head_sparer = head_sender +
  assumes head_spared: "head c = (c', x) \<Longrightarrow> spared c c'"
begin

lemma send_complete_spared:
  assumes "send_complete c head n = (c', x)"
  shows "spared c c'"
proof (cases x)
  case (Inl e)
  with send_complete_error [of c n c' e] assms show ?thesis by simp
next
  case (Inr out)
  with assms obtain c1 before where "head c = (c1, Inr before)" "complete_after_head c1 before n = (c', Inr out)"
    by (auto simp: send_complete_def Let_def split: sum.splits prod.splits)
  with spared_trans [OF head_spared complete_after_head_spared] show ?thesis by blast
qed

end

interpretation request_sparer: head_sparer "\<lambda>c. send_request c r" for r
  by unfold_locales (rule send_request_spared)

interpretation response_sparer: head_sparer "\<lambda>c. send_response c r" for r
  by unfold_locales (rule send_response_spared)

lemma send_data_spared: "send_data c d = (c', x) \<Longrightarrow> spared c c'"
  by (auto simp: send_data_def split: prod.splits sum.splits dest: send_data_framing_spared)

lemma send_spared: "send c op = (c', x) \<Longrightarrow> spared c c'"
proof (cases op)
  case (SendDataParts d)
  then show "send c op = (c', x) \<Longrightarrow> spared c c'" unfolding SendDataParts send_data_parts_eq by (auto dest: send_data_spared)
next
  case (SendRequestWithBody r b)
  then show "send c op = (c', x) \<Longrightarrow> spared c c'"
    by (auto simp: send_request_with_body_def send_request_with_body_framing_def Let_def
        split: prod.splits sum.splits dest: request_sparer.send_complete_spared)
next
  case (SendResponseWithBody r b)
  then show "send c op = (c', x) \<Longrightarrow> spared c c'"
    by (auto simp: send_response_with_body_def send_response_with_body_framing_def Let_def
        split: prod.splits sum.splits dest: response_sparer.send_complete_spared)
qed (auto dest: send_request_spared send_informational_spared send_response_spared send_data_spared end_of_message_spared)

lemma close_spared: "close c = (c', x) \<Longrightarrow> spared c c'"
proof -
  assume c: "close c = (c', x)"
  obtain c1 y where a: "advance_local c ConnectionClosed = (c1, y)" by fastforce
  then have "spared c c1" by (rule advance_local_cases) (auto intro: spared_local)
  with a c show ?thesis by (cases y) (auto simp: close_def spared_def)
qed

section \<open>Connections that can still receive\<close>

text \<open>
  In every reachable connection the end of the input is known before the peer is closed, and the
  limits are the ones it was made with.
\<close>

definition waiting_inv :: "Connection \<Rightarrow> bool" where
  "waiting_inv c \<longleftrightarrow> conn_inv c \<and> roomy c \<and> (\<not> eof c \<longrightarrow> peer_open c \<and> scans_on c)"

lemma waiting_early: "waiting_inv c \<Longrightarrow> \<not> eof c \<Longrightarrow> early c"
  by (simp add: waiting_inv_def early_def peer_open_def scans_on_def)

lemma waiting_new: "slots_fit (max_header_count l) \<Longrightarrow> waiting_inv (connection_new r l)"
  using conn_inv_new [of r l]
  by (cases r) (simp_all add: waiting_inv_def roomy_def connection_new_def cycle_default_def scans_on_def peer_open_def peer_state_def connection_state_new_def)

lemma waiting_spared: "waiting_inv c \<Longrightarrow> spared c c' \<Longrightarrow> conn_inv c' \<Longrightarrow> waiting_inv c'"
  by (auto simp: waiting_inv_def spared_def scans_on_def roomy_def)

lemma turn_scans: "scans_on c \<Longrightarrow> \<not> eof c \<Longrightarrow> scans_on (fst (turn hp c))"
  using scans_on_body [of c hp] by (auto simp: turn_def poll_peer_state_def split: State.split)

lemma turn_waits:
  assumes "peer_open c" and "scans_on c" and "\<not> eof c" and "turn hp c = (c1, r)"
  shows "peer_open c1" "scans_on c1" "\<not> eof c1"
  using assms turn_open [OF assms(1,3), of hp] turn_scans [OF assms(2,3), of hp] turn_kept [of c hp] by (auto simp: kept_def)

lemma next_event_waits:
  "peer_open c \<Longrightarrow> scans_on c \<Longrightarrow> \<not> eof c \<Longrightarrow> next_event hp c = (c', x) \<Longrightarrow> peer_open c' \<and> scans_on c'"
proof (induction "length (input_bytes c)" arbitrary: c rule: less_induct)
  case less
  obtain c1 r where t: "turn hp c = (c1, r)" by fastforce
  note waits = turn_waits [OF less.prems(1-3) t]
  show ?case
  proof (cases r rule: polled_result_cases)
    case again
    with t waits less.hyps [of c1] less.prems(4) turn_shrinks [of hp c c1] show ?thesis by (simp add: next_event_turn(1))
  next
    case (data n b f)
    with t less.prems(4) have "c' = consume_input c1 n" by (simp add: next_event_turn(3))
    moreover have "cyc_reader (cycle (consume_input c1 n)) \<notin> range (\<lambda>k. ReadChunked (Size k))"
      using turn_data_reader [of hp c c1 n b f] t data by (simp add: consume_input_def)
    ultimately show ?thesis using waits(1) scans_on_not by simp
  next
    case (fails e)
    have "role_state (process_error s p) p = Error" for s p
      by (cases p) (simp_all add: process_error_def stabilize_settle settle_simps)
    with fails t less.prems(4) waits show ?thesis
      by (auto simp: next_event_turn(7) poison_peer_def peer_open_def peer_state_def scans_on_def)
  qed (use t waits less.prems(4) in \<open>auto simp: next_event_turn\<close>)
qed

lemma next_event_eof: "eof (fst (next_event hp c)) = eof c"
proof (induction "length (input_bytes c)" arbitrary: c rule: less_induct)
  case less
  obtain c1 r where c1: "turn hp c = (c1, r)" by fastforce
  have "eof c1 = eof c" using turn_kept [of c hp] c1 by (simp add: kept_def)
  then show ?case using c1 less.hyps [of c1] turn_shrinks [of hp c c1]
    by (cases r rule: polled_result_cases) (simp_all add: next_event_turn consume_input_def poison_peer_def)
qed

lemma in_place_waits:
  assumes "waiting_inv c" and "next_event_in_place c n = (c', x)"
  shows "waiting_inv c'"
proof -
  obtain c1 k b e where a: "advance_payload c n = (c1, k, b, e)" by (cases "advance_payload c n")
  have c1: "peer_open c1 = peer_open c" "scans_on c \<longrightarrow> scans_on c1" "eof c1 = eof c"
    using a by (auto simp: advance_payload_def scans_on_def peer_open_def peer_state_def set_reader_def Let_def
        split: Reader.splits Chunk.splits if_splits)
  obtain c2 y where d: "peer_data c1 n b e = (c2, y)" by fastforce
  have "eof c2 = eof c1" "scans_on c1 \<longrightarrow> scans_on c2" "peer_open c1 \<longrightarrow> peer_open c2"
    using d peer_open_ops(4) [of c1 n b e]
    by (auto simp: peer_data_def advance_peer_def scans_on_def split: sum.splits prod.splits)
  with c1 a d assms next_event_in_place_inv [of c n] limits_in_place(1) [of c n] show ?thesis
    by (auto simp: waiting_inv_def roomy_def next_event_in_place_def scans_on_def peer_open_def peer_state_def split: if_splits sum.splits)
qed

lemma start_next_cycle_waits:
  assumes "waiting_inv c" and "start_next_cycle c = (c', x)"
  shows "waiting_inv c'"
proof -
  have inv: "conn_inv c'" using start_next_cycle_inv [of c] assms by (simp add: waiting_inv_def)
  moreover have "waiting_inv (conn_disable_keep_alive c)" if "c' = conn_disable_keep_alive c"
    using waiting_spared [of c "conn_disable_keep_alive c"] assms(1) inv that by simp
  moreover have "role_state s r = Idle" if "state_start_next_cycle t = Inr s" for s t r
    using that by (cases r) (auto simp: state_start_next_cycle_def connection_state_new_def split: if_splits)
  ultimately show ?thesis
    using assms
    by (cases "c' = conn_disable_keep_alive c")
       (auto simp: waiting_inv_def roomy_def start_next_cycle_def scans_on_def peer_open_def peer_state_def cycle_default_def
        split: if_splits sum.splits)
qed


lemma connection_step_waits:
  assumes "httparse_ok hp" and "connection_step hp c l c'" and "waiting_inv c"
  shows "waiting_inv c'"
proof -
  have inv: "conn_inv c'" using connection_step_inv [OF assms(1,2)] assms(3) by (simp add: waiting_inv_def)
  from assms(2) show ?thesis
  proof cases
    case (received d r)
    then show ?thesis using inv assms(3)
      by (auto simp: waiting_inv_def roomy_def receive_data_def scans_on_def peer_open_def peer_state_def conn_inv_def conn_base_def split: if_splits)
  next
    case (held_back n b)
    then show ?thesis using inv assms(3)
      by (auto elim!: hold_body_data_cases simp: waiting_inv_def roomy_def scans_on_def peer_open_def peer_state_def)
  next
    case (polled e)
    with next_event_waits [of c hp c' e] next_event_eof [of hp c] limits_next_event(1) [of hp c] assms(3) inv show ?thesis
      by (auto simp: waiting_inv_def roomy_def)
  qed (use assms(3) inv in_place_waits start_next_cycle_waits waiting_spared send_spared close_spared in blast)+
qed

interpretation waits: step_invariant "connection_step hp" "\<lambda>c. httparse_ok hp \<and> waiting_inv c" for hp
  by unfold_locales (auto dest: connection_step_waits)

section \<open>However the input arrives\<close>

text \<open>
  C1: what a connection reports does not depend on how its input is cut. Whatever calls led to
  it, as long as the end of the input is not known and the slots for the configured number of
  fields can be allocated: deliver the same bytes in two ways, as
  non-empty pieces with polls after each piece, then the end of the input and polls again, and
  both deliveries end, with the same failure status, or both with the same events, the same
  body, the same states and the same bytes left over.
\<close>

theorem delivery_independent_of_pieces:
  assumes "httparse_ok hp" and "httparse_incremental hp"
    and "run (connection_step hp) (connection_new r l) ls c" and "\<not> eof c"
    and "\<forall>x \<in> set xs. x \<noteq> []" and "\<forall>y \<in> set ys. y \<noteq> []" and "concat xs = concat ys"
    and "2 * (length (input_bytes c) + length (concat xs)) + 2 \<le> budget" and "slots_fit (max_header_count l)"
  shows "\<exists>u v. deliver hp budget xs c = Some u \<and> deliver hp budget ys c = Some v \<and> same_outcome u v"
proof -
  have early: "early c" using waits.run_inv [OF assms(3)] assms(1,4) waiting_new [OF assms(9)] waiting_early by blast
  obtain d where d: "ahead (concat xs) c d" using ahead_exists by blast
  from deliver_total [OF assms(1,2) early assms(5,8)] obtain u where u: "deliver hp budget xs c = Some u" by blast
  from deliver_total [OF assms(1,2) early assms(6)] assms(7,8) obtain v where v: "deliver hp budget ys c = Some v" by auto
  have "settles hp d (outcome_settlement u)" "settles hp d (outcome_settlement v)"
    using deliver_settles [OF assms(1,2) early assms(5) u d] deliver_settles [OF assms(1,2) early assms(6) v] d assms(7) by simp_all
  with settles_unique same_outcome_settlement u v show ?thesis by metis
qed

theorem delivery_independent_of_pieces_witness:
  "\<exists>u v. deliver sample_httparse 200 [sample_stream] (connection_new Server sample_limits) = Some u
     \<and> deliver sample_httparse 200 (map (\<lambda>b. [b]) sample_stream) (connection_new Server sample_limits) = Some v
     \<and> same_outcome u v"
proof -
  let ?c = "connection_new Server sample_limits"
  have "run (connection_step sample_httparse) ?c [] ?c" by (rule run.run_nil)
  moreover have "\<not> eof ?c" "input_bytes ?c = []" by (simp_all add: connection_new_def)
  moreover have "concat (map (\<lambda>b. [b]) s) = s" for s :: bytes by (induction s) simp_all
  moreover have "slots_fit (max_header_count sample_limits)" by (simp add: slots_fit_iff sample_limits_def)
  ultimately show ?thesis
    using delivery_independent_of_pieces [OF sample_httparse_ok sample_httparse_incremental, of Server sample_limits "[]" ?c
      "[sample_stream]" "map (\<lambda>b. [b]) sample_stream" 200] by (auto simp: sample_stream_length)
qed

end
