(* ===== verification/H11r_Exchange.thy ===== *)
theory H11r_Exchange
  imports H11r_Pieces
begin

text \<open>
  The exchange target of \<open>fuzz/fuzz_targets/h11r_exchange.rs\<close>: a server that answers whatever
  arrives with responses chosen by the input, and asserts that each accepted head announces
  closure exactly when the connection will not persist.
\<close>

unbundle bit_operations_syntax

section \<open>The close option of a head\<close>

definition is_ascii_whitespace :: "byte \<Rightarrow> bool" where
  "is_ascii_whitespace b \<longleftrightarrow> b \<in> set [CHR '' '', CHR 0x09, LF, CHR 0x0C, CR]"

definition trim_ascii :: "bytes \<Rightarrow> bytes" where
  "trim_ascii v = rev (dropWhile is_ascii_whitespace (rev (dropWhile is_ascii_whitespace v)))"

fun head_end :: "bytes \<Rightarrow> nat option" where
  "head_end [] = None"
| "head_end (b # bs) = (if starts_with (b # bs) (CRLF @ CRLF) then Some 0 else map_option Suc (head_end bs))"

definition close_line :: "bytes \<Rightarrow> bool" where
  "close_line line0 =
     (let line = map to_ascii_lowercase line0
      in starts_with line ''connection:''
         \<and> list_ex (\<lambda>option. trim_ascii option = ''close'') (split_slice (\<lambda>b. b = CHR '','') (drop 11 line)))"

definition announces_close :: "bytes \<Rightarrow> bool" where
  "announces_close head =
     (let end = (case head_end head of None \<Rightarrow> length head | Some n \<Rightarrow> n)
      in list_ex close_line (split_slice (\<lambda>b. b = LF) (take end head)))"

lemma head_end_skip: "CR \<notin> set l \<Longrightarrow> head_end (l @ s) = map_option ((+) (length l)) (head_end s)"
  by (induction l; cases "head_end s") auto

lemma head_end_length: "head_end s = Some n \<Longrightarrow> n + 4 \<le> length s"
proof (induction s arbitrary: n)
  case (Cons b bs)
  show ?case
  proof (cases "starts_with (b # bs) (CRLF @ CRLF)")
    case True
    with Cons.prems show ?thesis by (fastforce simp: starts_with_iff)
  qed (use Cons in auto)
qed simp

lemma starts_with_longer: "length p \<le> length s \<Longrightarrow> starts_with (s @ t) p \<longleftrightarrow> starts_with s p"
  unfolding starts_with_iff by (metis append.assoc append_eq_append_conv_if append_take_drop_id)

lemma head_end_more: "head_end s = Some n \<Longrightarrow> head_end (s @ t) = Some n"
proof (induction s arbitrary: n)
  case (Cons b bs)
  have "length (CRLF @ CRLF) \<le> length (b # bs)" using head_end_length [OF Cons.prems] by simp
  from starts_with_longer [OF this, of t] Cons show ?case by auto
qed simp

lemma split_slice_join:
  "\<forall>b \<in> set l. \<not> P b \<Longrightarrow> split_slice P (l @ s) = (l @ hd (split_slice P s)) # tl (split_slice P s)"
  by (induction l) (simp_all split: list.split)

text \<open>The status line and what follows the head make no difference.\<close>

lemma announces_close_fields:
  assumes "single_line l" and "head_end s = Some n" and "\<forall>t. \<not> close_line (l @ t)"
    and "\<not> close_line (hd (split_slice (\<lambda>b. b = LF) (take n s)))"
  shows "announces_close (l @ s @ rest) \<longleftrightarrow> announces_close s"
proof -
  have l: "CR \<notin> set l" "\<forall>b \<in> set l. \<not> b = LF" using assms(1) by (auto simp: single_line_def)
  have n: "head_end (l @ s @ rest) = Some (length l + n)" using head_end_skip [OF l(1)] head_end_more [OF assms(2)] by simp
  have "take (length l + n) (l @ s @ rest) = l @ take n s" using head_end_length [OF assms(2)] by simp
  then have "announces_close (l @ s @ rest) \<longleftrightarrow> list_ex close_line (split_slice (\<lambda>b. b = LF) (l @ take n s))"
    unfolding announces_close_def n by (simp only: Let_def option.case)
  with assms(2-4) split_slice_join [OF l(2), of "take n s"] show ?thesis
    by (cases "split_slice (\<lambda>b. b = LF) (take n s)") (simp_all add: announces_close_def)
qed

section \<open>The target\<close>

definition SEED :: bytes where
  "SEED =
     ''GET / HTTP/1.1'' @ CRLF @ ''Host: example.test'' @ CRLF @ CRLF
     @ ''POST / HTTP/1.1'' @ CRLF @ ''Host: example.test'' @ CRLF @ ''Content-Length: 4'' @ CRLF @ CRLF @ ''body'' @ CRLF
     @ ''CONNECT example.test:443 HTTP/1.1'' @ CRLF @ ''Host: example.test:443'' @ CRLF @ CRLF"

definition respond_response :: "nat \<Rightarrow> Response option" where
  "respond_response choice =
     (case from_u16 ([200, 204, 205, 304, 400, 403, 408, 500] ! (choice AND 0x07)) of
        Inl _ \<Rightarrow> None
      | Inr status \<Rightarrow>
          Some \<lparr>resp_status = status, resp_reason = ''R'',
            resp_headers = (if choice AND 0x08 \<noteq> 0 then headers_from [(''Connection'', ''close'')] else headers_new),
            resp_version = (if choice AND 0x10 = 0 then Http11 else Http10)\<rparr>)"

definition respond :: "Connection \<Rightarrow> nat \<Rightarrow> Connection option" where
  "respond server0 choice =
     do {
       response \<leftarrow> respond_response choice;
       case (if choice AND 0x20 = 0 then send_response_with_body server0 response ''x'' else send_response server0 response) of
         (server1, Inl _) \<Rightarrow> Some server1
       | (server1, Inr head) \<Rightarrow>
           if local_state server1 \<noteq> SwitchedProtocol \<and> announces_close head \<noteq> (\<not> keep_alive server1) then None
           else if local_state server1 = SendBody then
             Some (fst (end_of_message (fst (send_data server1 ''x'')) headers_new))
           else Some server1
     }"

text \<open>The cycling iterator over the choices is the list of those to come, the one taken put last.\<close>

definition next_choice :: "nat \<Rightarrow> nat list \<Rightarrow> nat \<times> nat list" where
  "next_choice control choices = (case choices of [] \<Rightarrow> (control, []) | x # xs \<Rightarrow> (x, xs @ [x]))"

fun exchange_loop :: "httparse \<Rightarrow> nat \<Rightarrow> nat \<Rightarrow> Connection \<Rightarrow> nat list \<Rightarrow> unit option" where
  "exchange_loop hp control 0 server0 choices = Some ()"
| "exchange_loop hp control (Suc n) server0 choices =
     (let responding = (local_state server0 = Idle \<or> local_state server0 = SendResponse);
          (choice, later) = next_choice control choices
      in case next_event hp server0 of
           (server1, Inl Panic) \<Rightarrow> None
         | (server1, Inl (Remote _)) \<Rightarrow> Some ()
         | (server1, Inr (NextEvent event)) \<Rightarrow>
             (case event of
                EventConnectionClosed \<Rightarrow> Some ()
              | EventRequest _ \<Rightarrow>
                  if responding then
                    (if choice AND 0x40 \<noteq> 0 then
                       do { server2 \<leftarrow> respond server1 choice; exchange_loop hp control n server2 later }
                     else exchange_loop hp control n server1 later)
                  else exchange_loop hp control n server1 choices
              | EventEndOfMessage _ \<Rightarrow>
                  if responding then
                    do { server2 \<leftarrow> respond server1 choice; exchange_loop hp control n server2 later }
                  else exchange_loop hp control n server1 choices
              | _ \<Rightarrow> exchange_loop hp control n server1 choices)
         | (server1, Inr _) \<Rightarrow>
             if local_state server1 = Idle \<and> control AND 0x40 \<noteq> 0 then
               do { server2 \<leftarrow> respond server1 choice; exchange_loop hp control n server2 later }
             else
               (case start_next_cycle server1 of
                  (server2, Inl _) \<Rightarrow> Some ()
                | (server2, Inr _) \<Rightarrow> exchange_loop hp control n server2 choices))"

definition exchange_target :: "httparse \<Rightarrow> bytes \<Rightarrow> unit option" where
  "exchange_target hp input =
     (case input of
        [] \<Rightarrow> Some ()
      | byte0 # rest \<Rightarrow>
          (let control = of_char byte0;
               at = min (length rest) 8;
               choices = map of_char (take at rest);
               wire = (if drop at rest = [] then SEED else drop at rest)
           in do {
                limits \<leftarrow> fuzz_limits control;
                (server0, _) \<leftarrow> unwrap (receive_data (connection_new Server limits) wire);
                exchange_loop hp control MAX_EVENTS server0 choices
              }))"

lemma exchange_seed: "SEED \<noteq> []" by (simp add: SEED_def)

text \<open>The field sections that the target's responses can have when their heads are written.\<close>

definition base_fields :: "Headers list" where
  "base_fields = [headers_new, headers_from [(''Connection'', ''close'')]]"

definition framed_fields :: "Headers \<Rightarrow> Headers list" where
  "framed_fields h =
     [h, headers_push h ''Content-Length'' ''0'', headers_push h ''Content-Length'' ''1'', headers_push h ''Transfer-Encoding'' ''chunked'']"

abbreviation field_text :: "Headers \<Rightarrow> bytes" where
  "field_text h \<equiv> CRLF @ line_text (map field_line (headers_iter h)) @ CRLF"

definition announcing :: "bool \<Rightarrow> Headers \<Rightarrow> bool" where
  "announcing closing h \<longleftrightarrow>
     (case head_end (field_text h) of None \<Rightarrow> False
      | Some n \<Rightarrow> \<not> close_line (hd (split_slice (\<lambda>b. b = LF) (take n (field_text h)))))
     \<and> announces_close (field_text h) = closing"

lemma announcing_close:
  "list_all (\<lambda>h. announcing True (set_connection_option h ''close'')) (concat (map framed_fields base_fields))"
  by code_simp

lemma announcing_open:
  "list_all (\<lambda>h. announcing False h \<and> announcing False (set_connection_option h ''keep-alive'')) (framed_fields headers_new)"
  by code_simp

definition with_content_length :: "Headers \<Rightarrow> Headers" where
  "with_content_length h = headers_push h ''Content-Length'' ''1''"

lemma base_facts:
  "list_all (\<lambda>h. \<not> has_transfer_encoding (scan h) \<and> \<not> has_framing (scan h) \<and> \<not> has_framing_fields h
     \<and> \<not> has_transfer_encoding (scan (with_content_length h)) \<and> has_framing (scan (with_content_length h))) base_fields"
  "list_all (\<lambda>h. fld_close (scan h) \<and> fld_close (scan (with_content_length h))) (tl base_fields)"
  by code_simp+

lemma status_line_quiet:
  assumes "status_ok s"
  shows "single_line (status_line v s ''R'')" "\<not> close_line (status_line v s ''R'' @ t)"
  using version_wire_single_line [of v] status_digits_single_line [OF assms]
  by (simp_all add: status_line_def single_line_def close_line_def to_ascii_lowercase_def)

lemma announcing_head:
  assumes "status_ok s" and "announcing closing h"
  shows "announces_close (serialize_response v s ''R'' h @ rest) = closing"
proof -
  have "serialize_response v s ''R'' h = status_line v s ''R'' @ field_text h"
    by (simp add: serialize_response_text)
  with assms announces_close_fields [OF status_line_quiet(1) [OF assms(1), of v], of "field_text h" _ rest]
    status_line_quiet(2) [OF assms(1), of v] show ?thesis
    by (auto simp: announcing_def split: option.splits)
qed

lemma response_head_announces:
  assumes "send_response c r = (c1, Inr head)" and "\<not> opens_tunnel c (resp_status r)"
    and "status_ok (resp_status r)" and "resp_reason r = ''R''"
    and "h \<in> set base_fields" and "resp_headers r = h \<or> resp_headers r = with_content_length h"
  shows "announces_close (head @ rest) \<longleftrightarrow> \<not> cs_keep_alive (conn_state c1)"
proof -
  let ?h = "resp_headers r"
  from assms(1,2) obtain h1 h2 b s where
    strip: "strip_transfer_encoding ?h (scan ?h) (te_stripped c r) (response_has_no_body c (resp_status r)) = Inr h1"
    and frame: "response_framing h1 (scan ?h) (resp_status r) (resp_version r)
       (response_has_no_body c (resp_status r)) (peer_is_http11 c r) (has_framing (scan ?h) \<and> \<not> te_stripped c r) = Inr (h2, b)"
    and fin: "finish_response_head (c\<lparr>conn_state := s\<rparr>) r (scan ?h) h2 b False (peer_is_http11 c r) = (c1, head)"
    by (auto elim!: send_response_Inr)
  have te: "\<not> te_stripped c r" and declared: "has_framing (scan ?h) \<longleftrightarrow> ?h = with_content_length h"
    using base_facts(1) assms(5,6) by (auto simp: list_all_iff)
  have "h1 = ?h" using strip te by (simp add: strip_transfer_encoding_def split: if_splits)
  with frame te declared assms(6) have h2: "h2 \<in> set (framed_fields h)"
    by (auto simp: response_framing_def framed_fields_def with_content_length_def split: if_splits sum.splits)
  let ?h3 = "if \<not> cs_keep_alive (conn_state c1) then set_connection_option h2 ''close''
     else if \<not> peer_is_http11 c r then set_connection_option h2 ''keep-alive'' else h2"
  have out: "head = serialize_response (resp_version r) (resp_status r) ''R'' ?h3"
    and close: "cs_keep_alive (conn_state c1) \<Longrightarrow> \<not> fld_close (scan ?h)"
    using fin assms(4) by (auto simp: finish_response_head_def Let_def set_writer_def record_response_def)
  have "announcing (\<not> cs_keep_alive (conn_state c1)) ?h3"
  proof (cases "cs_keep_alive (conn_state c1)")
    case True
    with close base_facts(2) assms(5,6) have "h = headers_new" by (auto simp: base_fields_def)
    with h2 announcing_open True show ?thesis by (auto simp: list_all_iff)
  next
    case False
    have "h2 \<in> set (concat (map framed_fields base_fields))" using h2 assms(5) by auto
    with announcing_close have "announcing True (set_connection_option h2 ''close'')" unfolding list_all_iff by blast
    with False show ?thesis by simp
  qed
  with announcing_head [OF assms(3)] out show ?thesis by simp
qed

text \<open>While the peer is not closed, the state's flag is all that \<open>keep_alive\<close> looks at after a response.\<close>

lemma keep_alive_flag:
  assumes "conn_inv c" and "role c = Server" and "peer_state c \<noteq> Closed" and "local_state c \<in> {SendBody, Done, MustClose}"
  shows "keep_alive c \<longleftrightarrow> cs_keep_alive (conn_state c)"
proof -
  have "lifecycle_inv (conn_state c)" using assms(1) by (simp add: conn_inv_def conn_base_def)
  with assms(2-4) show ?thesis
    by (cases "client (conn_state c)")
       (auto simp: keep_alive_def lifecycle_inv_def local_state_def peer_state_def)
qed

lemma end_keeps_flag: "end_of_message c h = (c', Inr out) \<Longrightarrow> cs_keep_alive (conn_state c') = cs_keep_alive (conn_state c)"
  by (erule end_of_message_Inr)
     (auto simp: process_event_end_of_message accept_if_def settle_simps clear_waiting_def set_writer_def split: if_splits Role.splits)

lemma end_local_state:
  assumes "end_of_message c h = (c', Inr out)" and "role c = Server"
  shows "local_state c' \<in> {Done, MustClose}"
  using assms
  by (elim end_of_message_Inr)
     (auto simp: process_event_end_of_message accept_if_def settle_simps clear_waiting_def set_writer_def local_state_def
       split: if_splits)

lemma switch_switches: "process_event s Server (ProtocolSwitch k) = Inr s' \<Longrightarrow> server s' = SwitchedProtocol"
  by (auto simp: process_event_switch accept_if_def settle_simps split: if_splits)

lemma disable_keeps_switch: "server s = SwitchedProtocol \<Longrightarrow> server (disable_keep_alive s) = SwitchedProtocol"
  by (simp add: disable_keep_alive_def stabilize_settle settle_simps)

lemma finish_response_head_state:
  assumes "finish_response_head c r f h b connect http11 = (c', out)"
  shows "role c' = role c" "conn_state c' = conn_state c \<or> conn_state c' = disable_keep_alive (conn_state c)"
  using assms by (auto simp: finish_response_head_def Let_def set_writer_def record_response_def conn_disable_keep_alive_def)

lemma tunnel_switches:
  assumes "send_response c r = (c', Inr out)" and "opens_tunnel c (resp_status r)"
  shows "local_state c' = SwitchedProtocol"
  using assms(1)
proof (rule send_response_Inr)
  fix h1 h2 b s
  assume r: "role c = Server" and s: "process_event (conn_state c) Server (final_response_event c (resp_status r)) = Inr s"
    and fin: "finish_response_head (c\<lparr>conn_state := s\<rparr>) r (scan (resp_headers r)) h2 b
         (opens_tunnel c (resp_status r)) (peer_is_http11 c r) = (c', out)"
  have "server s = SwitchedProtocol" using s assms(2) switch_switches by (simp add: final_response_event_def)
  with finish_response_head_state [OF fin] r disable_keeps_switch show ?thesis by (auto simp: local_state_def)
qed

lemma complete_after_head_end:
  assumes "complete_after_head c before n = (c', Inr parts)" and "n \<noteq> 0" and "role c = Server"
  shows "local_state c' \<in> {Done, MustClose} \<and> cs_keep_alive (conn_state c') = cs_keep_alive (conn_state c)
     \<and> (\<exists>more. fst parts = before @ more)"
proof -
  from assms(1,2) obtain c1 prefix suffix out where d: "send_data_framing c n = (c1, Inr (prefix, suffix))"
    and e: "end_of_message c1 headers_new = (c', Inr out)" "parts = (before @ prefix_bytes prefix, suffix @ out)"
    by (auto simp: complete_after_head_def split: if_splits prod.splits sum.splits)
  have "role c1 = role c" "conn_state c1 = conn_state c"
    using d by (auto elim!: send_data_framing_Inr simp: clear_waiting_def set_writer_def)
  with end_local_state [OF e(1)] end_keeps_flag [OF e(1)] assms(3) e(2) show ?thesis by simp
qed

definition honest :: "Connection \<Rightarrow> bytes \<Rightarrow> bool" where
  "honest c head \<longleftrightarrow> local_state c = SwitchedProtocol
     \<or> local_state c \<in> {SendBody, Done, MustClose} \<and> announces_close head = (\<not> cs_keep_alive (conn_state c))"

lemma respond_response_total:
  "\<exists>r. respond_response choice = Some r \<and> status_ok (resp_status r) \<and> resp_reason r = ''R'' \<and> resp_headers r \<in> set base_fields"
proof -
  let ?l = "[200, 204, 205, 304, 400, 403, 408, 500] :: 16 word list"
  have "choice AND 7 = choice mod 8" using take_bit_eq_mask [of 3 choice] by (simp add: take_bit_nat_def mask_eq_exp_minus_1)
  then have "?l ! (choice AND 7) \<in> set ?l" by (intro nth_mem) simp
  moreover have "list_all (\<lambda>v. case from_u16 v of Inl _ \<Rightarrow> False | Inr s \<Rightarrow> status_ok s) ?l" by code_simp
  ultimately have "\<exists>s. from_u16 (?l ! (choice AND 7)) = Inr s \<and> status_ok s"
    unfolding list_all_iff by (fastforce split: sum.splits)
  then show ?thesis by (auto simp: respond_response_def base_fields_def)
qed

lemma send_response_honest:
  assumes "conn_inv c" and "send_response c r = (c1, Inr head)"
    and "status_ok (resp_status r)" and "resp_reason r = ''R''" and "resp_headers r \<in> set base_fields"
  shows "honest c1 head"
proof (cases "opens_tunnel c (resp_status r)")
  case True
  with tunnel_switches [OF assms(2)] show ?thesis by (simp add: honest_def)
next
  case False
  from response_head_announces [OF assms(2) False assms(3-5), of "[]"] not_tunnel_writer [OF assms(1,2) False]
  show ?thesis by (simp add: honest_def)
qed

lemma send_with_body_honest:
  assumes "conn_inv c" and "send_response_with_body c r ''x'' = (c', Inr head)"
    and "status_ok (resp_status r)" and "resp_reason r = ''R''" and "resp_headers r \<in> set base_fields"
  shows "honest c' head"
proof -
  let ?r = "with_length c r (Suc 0)"
  from assms(2) obtain parts where parts: "send_complete c (\<lambda>c1. send_response c1 ?r) (Suc 0) = (c', Inr parts)"
    "head = join_framing parts ''x''"
    by (auto simp: send_response_with_body_def send_response_with_body_framing_def Let_def split: prod.splits sum.splits)
  obtain c1 before where r: "send_response c ?r = (c1, Inr before)"
    and done1: "complete_after_head c1 before (Suc 0) = (c', Inr parts)"
    using response_head.send_complete_head [OF parts(1)] .
  have one: "to_string (Suc 0) = ''1''" by code_simp
  have tunnel: "\<not> opens_tunnel c (resp_status r)"
  proof
    assume "opens_tunnel c (resp_status r)"
    then have "local_state c1 = SwitchedProtocol" using tunnel_switches [OF r] by (auto split: if_splits)
    with done1 show False by (simp add: complete_after_head_def)
  qed
  have same: "resp_status ?r = resp_status r" "resp_reason ?r = resp_reason r"
    "resp_headers ?r = resp_headers r \<or> resp_headers ?r = with_content_length (resp_headers r)"
    using one by (auto simp: with_content_length_def)
  have role: "role c1 = Server" using send_response_transport [OF r] r by (auto simp: same_transport_def elim!: send_response_Inr)
  have "announces_close (before @ rest) \<longleftrightarrow> \<not> cs_keep_alive (conn_state c1)" for rest
    using response_head_announces [OF r _ _ _ assms(5) same(3), of rest] tunnel same assms(3,4) by simp
  with complete_after_head_end [OF done1 _ role] parts(2) show ?thesis by (auto simp: honest_def join_framing_def)
qed

text \<open>What every connection of the target satisfies, and that answering keeps it.\<close>

definition serving :: "Connection \<Rightarrow> bool" where
  "serving c \<longleftrightarrow> waiting_inv c \<and> \<not> eof c \<and> role c = Server"

lemma serving_step:
  assumes "httparse_ok hp" and "connection_step hp c l c'" and "serving c" and "eof c' = eof c"
  shows "serving c'"
  using connection_step_waits [OF assms(1,2)] connection_step_advances [OF assms(2)] assms(3,4)
  by (auto simp: serving_def advances_def)

lemma serving_sent: "httparse_ok hp \<Longrightarrow> serving c \<Longrightarrow> serving (fst (send c op))"
  using serving_step [of hp c "SendResult op (snd (send c op))" "fst (send c op)"] send_spared [of c op "fst (send c op)" "snd (send c op)"] by (simp add: spared_def)

lemma serving_polled: "httparse_ok hp \<Longrightarrow> serving c \<Longrightarrow> next_event hp c = (c', x) \<Longrightarrow> serving c'"
  using serving_step [of hp c "PollResult x" c'] next_event_eof [of hp c] by simp

lemma serving_cycled: "httparse_ok hp \<Longrightarrow> serving c \<Longrightarrow> start_next_cycle c = (c', x) \<Longrightarrow> serving c'"
  using serving_step [of hp c "CycleResult x" c']
  by (auto simp: start_next_cycle_def conn_disable_keep_alive_def split: if_splits sum.splits)

lemma serving_honest:
  assumes "serving c" and "honest c head" and "local_state c \<noteq> SwitchedProtocol"
  shows "announces_close head = (\<not> keep_alive c)"
  using assms keep_alive_flag [of c] by (auto simp: serving_def honest_def waiting_inv_def peer_open_def)

lemma respond_total:
  assumes "httparse_ok hp" and "serving c"
  shows "\<exists>c'. respond c choice = Some c' \<and> serving c'"
proof -
  obtain r where r: "respond_response choice = Some r" "status_ok (resp_status r)" "resp_reason r = ''R''" "resp_headers r \<in> set base_fields"
    using respond_response_total by blast
  let ?op = "if choice AND 0x20 = 0 then SendResponseWithBody r ''x'' else SendFinalResponse r"
  obtain c1 x where s: "send c ?op = (c1, x)" by fastforce
  have c1: "serving c1" using serving_sent [OF assms, of ?op] s by simp
  have c2: "serving (fst (end_of_message (fst (send_data c1 ''x'')) headers_new))"
    using serving_sent [OF assms(1) serving_sent [OF assms(1) c1, of "SendData ''x''"], of "EndMessage headers_new"] by simp
  have inv: "conn_inv c" using assms(2) by (simp add: serving_def waiting_inv_def)
  have ok: "local_state c1 \<noteq> SwitchedProtocol \<Longrightarrow> announces_close head = (\<not> keep_alive c1)" if "x = Inr head" for head
    using send_response_honest [OF inv _ r(2-4), of c1 head] send_with_body_honest [OF inv _ r(2-4), of c1 head] s that
      serving_honest [OF c1] by (auto split: if_splits)
  show ?thesis
  proof (cases x)
    case (Inl e)
    with s r(1) c1 show ?thesis by (auto simp: respond_def split: if_splits)
  next
    case (Inr head)
    with s r(1) c1 c2 ok [OF Inr] show ?thesis by (auto simp: respond_def split: if_splits)
  qed
qed

lemma exchange_loop_total:
  assumes "httparse_ok hp"
  shows "serving c \<Longrightarrow> exchange_loop hp control n c choices = Some ()"
proof (induction n arbitrary: c choices)
  case (Suc n)
  obtain c1 res where r: "next_event hp c = (c1, res)" by fastforce
  have c1: "serving c1" by (rule serving_polled [OF assms Suc.prems r])
  obtain ch later where ch: "next_choice control choices = (ch, later)" by fastforce
  obtain c2 where c2: "respond c1 ch = Some c2" "serving c2" using respond_total [OF assms c1] by blast
  have go: "exchange_loop hp control n d l = Some ()" if "serving d" for d l by (rule Suc.IH [OF that])
  show ?case
  proof (cases res rule: next_event_cases)
    case panics
    with next_event_ok [OF assms, of c] Suc.prems r show ?thesis by (simp add: serving_def waiting_inv_def)
  next
    case (event e)
    with r ch c2 go [OF c1] go [OF c2(2)] show ?thesis by (cases e) simp_all
  next
    case waits
    obtain c3 y where c3: "start_next_cycle c1 = (c3, y)" by fastforce
    with waits r ch c2 go [OF serving_cycled [OF assms c1 c3]] go [OF c2(2)] show ?thesis
      by (auto split: sum.split)
  qed (use r ch go [OF c1] in simp_all)
qed simp

text \<open>
  C18: the assertion of the exchange target holds on every input. Whatever arrives and however
  the server answers it, early, late or before any request, each response head it can send
  announces closure exactly when the connection will not persist, and nothing panics.
\<close>

theorem exchange_target_never_fails:
  assumes "httparse_ok hp"
  shows "exchange_target hp input = Some ()"
proof (cases input)
  case (Cons byte0 rest)
  let ?control = "of_char byte0 :: nat" and ?at = "min (length rest) 8"
  let ?wire = "if drop ?at rest = [] then SEED else drop ?at rest"
  obtain l where l: "fuzz_limits ?control = Some l" "slots_fit (max_header_count l)" using fuzz_limits_total by blast
  let ?c = "connection_new Server l"
  have new: "serving ?c" using waiting_new [OF l(2), of Server] by (simp add: serving_def connection_new_def)
  have wire: "?wire \<noteq> []" by (simp add: SEED_def)
  then have recv: "receive_data ?c ?wire = (?c\<lparr>conn_input := buffer_extend (conn_input ?c) ?wire\<rparr>, Inr ())"
    by (simp add: receive_data_def connection_new_def)
  then have "serving (?c\<lparr>conn_input := buffer_extend (conn_input ?c) ?wire\<rparr>)"
    using serving_step [OF assms _ new, of "Received ?wire (Inr ())"] by simp
  from exchange_loop_total [OF assms this] recv l(1) Cons show ?thesis
    by (simp add: exchange_target_def unwrap_def Let_def)
qed (simp add: exchange_target_def)

theorem exchange_target_never_fails_witness: "exchange_target sample_httparse (CHR 0x40 # sample_stream) = Some ()"
  by (rule exchange_target_never_fails [OF sample_httparse_ok])

end
